(* ===== verification/Prelude.thy ===== *)
theory Prelude
  imports Main "HOL-Library.Monad_Syntax"
begin

section \<open>Prelude: addresses, allocation and the results of C code\<close>

text \<open>
  What every component of the web service shares.

  \<^item> A C pointer is a \<open>ptr\<close>: \<open>None\<close> is \<open>NULL\<close>, \<open>Some a\<close> the address \<open>a\<close>.
    Addresses are natural numbers that are never handed out twice, so an access to freed
    memory is never mistaken for an access to a later object.
  \<^item> A C function that touches the heap returns \<open>'a option\<close>: \<open>None\<close> is undefined
    behaviour (a \<open>NULL\<close> or dangling dereference, a second \<open>free\<close>) or a loop that
    does not end; \<open>Some\<close> is a normal return. Error codes and \<open>NULL\<close> results are
    ordinary values inside \<open>Some\<close>.
  \<^item> What the environment decides (does \<open>calloc\<close> succeed, does a library call fail) is
    read from a list of answers held in the state, one per question; an exhausted list
    answers "success". A theorem about all states is a theorem about all answers.
\<close>

type_synonym addr = nat
type_synonym ptr = "addr option"

named_theorems heap_defs \<open>definitions of heap primitives\<close>
named_theorems c_simps \<open>facts the proofs about C functions rewrite with\<close>

record mem =
  answers :: "bool list"
  fresh :: addr

definition will_succeed :: "'m mem_scheme \<Rightarrow> bool" where
  "will_succeed w = (case answers w of [] \<Rightarrow> True | b # _ \<Rightarrow> b)"

definition ask :: "'m mem_scheme \<Rightarrow> bool \<times> 'm mem_scheme" where
  "ask w = (will_succeed w, w\<lparr>answers := tl (answers w)\<rparr>)"

text \<open>\<open>malloc\<close>/\<open>calloc\<close> as far as the address goes: a fresh one, or \<open>NULL\<close>.\<close>

definition new_addr :: "'m mem_scheme \<Rightarrow> ptr \<times> 'm mem_scheme" where
  "new_addr w =
     (let (ok, w1) = ask w
      in if ok then (Some (fresh w1), w1\<lparr>fresh := Suc (fresh w1)\<rparr>) else (None, w1))"

lemma new_addr_cases:
  obtains (null) "new_addr w = (None, w\<lparr>answers := tl (answers w)\<rparr>)" "\<not> will_succeed w"
  | (ok) "new_addr w = (Some (fresh w), w\<lparr>answers := tl (answers w), fresh := Suc (fresh w)\<rparr>)"
      "will_succeed w"
  by (cases "will_succeed w") (simp_all add: new_addr_def ask_def)

lemma new_addr_ok:
  "will_succeed w \<Longrightarrow>
   new_addr w = (Some (fresh w), w\<lparr>answers := tl (answers w), fresh := Suc (fresh w)\<rparr>)"
  by (simp add: new_addr_def ask_def)

lemma will_succeed_nil [simp]: "answers w = [] \<Longrightarrow> will_succeed w"
  by (simp add: will_succeed_def)

lemma will_succeed_cons [simp]: "answers w = b # bs \<Longrightarrow> will_succeed w = b"
  by (simp add: will_succeed_def)

text \<open>The \<open>n\<close>-th answer from now.\<close>

definition answer :: "nat \<Rightarrow> 'm mem_scheme \<Rightarrow> bool" where
  "answer n w \<longleftrightarrow> (n < length (answers w) \<longrightarrow> answers w ! n)"

lemma answer_0: "will_succeed w \<longleftrightarrow> answer 0 w"
  by (cases "answers w") (simp_all add: answer_def will_succeed_def)

lemma answer_tl [simp]: "answer n (w\<lparr>answers := tl bs\<rparr>) = answer (Suc n) (w\<lparr>answers := bs\<rparr>)"
  by (cases bs) (auto simp: answer_def)

lemma answer_same [simp]: "answer n (w\<lparr>answers := answers v\<rparr>) = answer n v"
  by (simp add: answer_def)

lemma answer_fresh [simp]: "answer n (w\<lparr>fresh := f\<rparr>) = answer n w"
  by (simp add: answer_def)

lemma answer_nil [simp]: "answers w = [] \<Longrightarrow> answer n w"
  by (simp add: answer_def)

text \<open>Reading a pointer in the heap map \<open>h\<close>: a \<open>NULL\<close> or dangling pointer is a fault.\<close>

definition deref :: "(addr \<rightharpoonup> 'o) \<Rightarrow> ptr \<Rightarrow> 'o option" where
  "deref h p = (case p of None \<Rightarrow> None | Some a \<Rightarrow> h a)"

lemma deref_simps [simp]: "deref h None = None" "deref h (Some a) = h a"
  by (simp_all add: deref_def)

lemma deref_eq_Some: "deref h p = Some x \<longleftrightarrow> (\<exists>a. p = Some a \<and> h a = Some x)"
  by (cases p) simp_all

text \<open>\<open>free\<close> of a live object; freeing \<open>NULL\<close> does nothing, freeing twice is a fault.\<close>

definition free_at :: "(addr \<rightharpoonup> 'o) \<Rightarrow> ptr \<Rightarrow> (addr \<rightharpoonup> 'o) option" where
  "free_at h p =
     (case p of None \<Rightarrow> Some h
      | Some a \<Rightarrow> (case h a of None \<Rightarrow> None | Some _ \<Rightarrow> Some (h(a := None))))"

lemma free_at_simps [simp]:
  "free_at h None = Some h"
  "h a = Some x \<Longrightarrow> free_at h (Some a) = Some (h(a := None))"
  "h a = None \<Longrightarrow> free_at h (Some a) = None"
  by (simp_all add: free_at_def)

lemma bind_Some_iff: "(m \<bind> f) = Some y \<longleftrightarrow> (\<exists>x. m = Some x \<and> f x = Some y)"
  by (rule bind_eq_Some_conv)

text \<open>
  \<open>runs m Q\<close>: the code \<open>m\<close> returns (no undefined behaviour, no endless loop) and its result
  satisfies \<open>Q\<close>; the rules follow the structure of the code.
\<close>

definition runs :: "'a option \<Rightarrow> ('a \<Rightarrow> bool) \<Rightarrow> bool" where
  "runs m Q \<longleftrightarrow> (\<exists>x. m = Some x \<and> Q x)"

lemma runs_Some [simp]: "runs (Some x) Q = Q x" and runs_None [simp]: "\<not> runs None Q"
  by (simp_all add: runs_def)

lemma runs_bind: "runs m P \<Longrightarrow> (\<And>x. P x \<Longrightarrow> runs (f x) Q) \<Longrightarrow> runs (m \<bind> f) Q"
  by (auto simp: runs_def)

lemma runs_mono: "runs m P \<Longrightarrow> (\<And>x. P x \<Longrightarrow> Q x) \<Longrightarrow> runs m Q"
  by (auto simp: runs_def)

lemma runs_I: "m = Some x \<Longrightarrow> Q x \<Longrightarrow> runs m Q"
  by (simp add: runs_def)

lemma runsE: "runs m Q \<Longrightarrow> (\<And>x. m = Some x \<Longrightarrow> Q x \<Longrightarrow> thesis) \<Longrightarrow> thesis"
  by (auto simp: runs_def)

text \<open>\<open>int\<close> arithmetic: 32 bits, overflow is undefined behaviour.\<close>

definition int_ok :: "int \<Rightarrow> bool" where
  "int_ok x \<longleftrightarrow> - (2 ^ 31) \<le> x \<and> x < 2 ^ 31"

definition c_int :: "int \<Rightarrow> int option" where
  "c_int x = (if int_ok x then Some x else None)"

lemma c_int_simps [simp]: "int_ok x \<Longrightarrow> c_int x = Some x" "\<not> int_ok x \<Longrightarrow> c_int x = None"
  by (simp_all add: c_int_def)

lemma c_int_eq_Some [simp]: "c_int x = Some y \<longleftrightarrow> int_ok x \<and> y = x"
  by (auto simp: c_int_def)

subsection \<open>Lists\<close>

lemma find_append [simp]:
  "List.find P (xs @ ys) = (case List.find P xs of None \<Rightarrow> List.find P ys | Some x \<Rightarrow> Some x)"
  by (induction xs) auto

lemma find_none [simp]: "\<forall>x \<in> set xs. \<not> P x \<Longrightarrow> List.find P xs = None"
  by (simp add: find_None_iff)

lemma find_unique:
  assumes "x \<in> set xs" "P x" "\<And>y. y \<in> set xs \<Longrightarrow> P y \<Longrightarrow> y = x"
  shows "List.find P xs = Some x"
proof (cases "List.find P xs")
  case None
  with assms(1,2) show ?thesis by (simp add: find_None_iff)
next
  case (Some y)
  then have "y \<in> set xs" "P y" by (auto simp: find_Some_iff)
  with assms(3) Some show ?thesis by simp
qed

lemma all_less_two: "(\<forall>i < Suc (Suc 0). P i) \<longleftrightarrow> P 0 \<and> P (Suc 0)"
  by (auto simp: less_Suc_eq)

lemma ex_less_two: "(\<exists>i < Suc (Suc 0). P i) \<longleftrightarrow> P 0 \<or> P (Suc 0)"
  by (auto simp: less_Suc_eq)

lemma find_map_snd: "List.find P (map snd xs) = map_option snd (List.find (\<lambda>x. P (snd x)) xs)"
  by (induction xs) auto

end
