(* ===== verification/Interfaces.thy ===== *)
theory Interfaces
  imports Prelude
begin

section \<open>Interfaces between the components\<close>

text \<open>
  The contracts one component relies on when it calls another, as locales: what the
  provider promises is assumed, what a client concludes from it is proved once here. Each
  is interpreted on the model of the code in the theory of the provider:
  \<^item> \<open>value_queue\<close>: what \<^verbatim>\<open>http_service.c\<close> needs of \<^verbatim>\<open>list.c\<close> to keep its sessions
    (append, search by value, unlink the node found); provided in \<open>Linked_List\<close>;
  \<^item> \<open>bucket_array\<close>: what \<^verbatim>\<open>hashtable.c\<close> needs of \<^verbatim>\<open>slist.c\<close> for its array of buckets
    (push, pop, search); provided in \<open>Slist\<close>.
\<close>

locale value_queue =
  fixes rep :: "'h \<Rightarrow> 'l \<Rightarrow> ('n \<times> 'd) list \<Rightarrow> bool"
    and can_push :: "'h \<Rightarrow> bool"
    and push_back :: "'l \<Rightarrow> 'd \<Rightarrow> 'h \<Rightarrow> 'h option"
    and find_value :: "'l \<Rightarrow> 'd \<Rightarrow> 'h \<Rightarrow> 'n option option"
    and remove_node :: "'l \<Rightarrow> 'n \<Rightarrow> 'h \<Rightarrow> ('d \<times> 'h) option"
  assumes push_back: "rep w l ns \<Longrightarrow> can_push w \<Longrightarrow>
      \<exists>w' n. push_back l d w = Some w' \<and> rep w' l (ns @ [(n, d)])"
    and find_value: "rep w l ns \<Longrightarrow>
      find_value l d w = Some (map_option fst (List.find (\<lambda>x. snd x = d) ns))"
    and remove_node: "rep w l (xs @ (n, d) # ys) \<Longrightarrow>
      \<exists>w'. remove_node l n w = Some (d, w') \<and> rep w' l (xs @ ys)"
begin

definition holds :: "'h \<Rightarrow> 'l \<Rightarrow> 'd list \<Rightarrow> bool" where
  "holds w l ds \<longleftrightarrow> (\<exists>ns. rep w l ns \<and> map snd ns = ds)"

lemma holds_push_back:
  assumes "holds w l ds" "can_push w"
  shows "\<exists>w'. push_back l d w = Some w' \<and> holds w' l (ds @ [d])"
proof -
  from assms(1) obtain ns where ns: "rep w l ns" "map snd ns = ds" by (auto simp: holds_def)
  obtain w' n where "push_back l d w = Some w'" "rep w' l (ns @ [(n, d)])"
    using push_back [OF ns(1) assms(2)] by blast
  with ns(2) show ?thesis by (auto simp: holds_def intro!: exI [of _ "ns @ [(n, d)]"])
qed

lemma find_absent: "holds w l ds \<Longrightarrow> d \<notin> set ds \<Longrightarrow> find_value l d w = Some None"
  by (force simp: holds_def find_value find_None_iff)

text \<open>Searching for a stored value and unlinking the node found removes its first occurrence.\<close>

lemma find_and_remove:
  assumes "holds w l ds" "d \<in> set ds"
  shows "\<exists>n w'. find_value l d w = Some (Some n) \<and> remove_node l n w = Some (d, w') \<and>
           holds w' l (remove1 d ds)"
proof -
  from assms(1) obtain ns where ns: "rep w l ns" "map snd ns = ds" by (auto simp: holds_def)
  have "d \<in> set (map snd ns)" using assms(2) ns(2) by simp
  then obtain us vs where split: "map snd ns = us @ d # vs" "d \<notin> set us"
    by (metis in_set_conv_decomp_first)
  then obtain xs n ys where xs: "ns = xs @ (n, d) # ys" "us = map snd xs" "vs = map snd ys"
    by (auto simp: map_eq_append_conv)
  have "List.find (\<lambda>x. snd x = d) xs = None"
    using split(2) xs(2) by (force simp: find_None_iff)
  then have "List.find (\<lambda>x. snd x = d) ns = Some (n, d)" by (simp add: xs(1))
  then have "find_value l d w = Some (Some n)" using find_value [OF ns(1)] by simp
  moreover obtain w' where "remove_node l n w = Some (d, w')" "rep w' l (xs @ ys)"
    using remove_node ns(1) xs(1) by blast
  moreover have "map snd (xs @ ys) = remove1 d ds"
    using split xs by (simp add: ns(2) [symmetric] remove1_append)
  ultimately show ?thesis by (auto simp: holds_def)
qed

end

text \<open>
  An array of lists in one heap: what the operations on one of them promise about all of them.
\<close>

locale bucket_array =
  fixes rep :: "'h \<Rightarrow> 'l list \<Rightarrow> ('n \<times> 'd) list list \<Rightarrow> bool"
    and can_push :: "'h \<Rightarrow> bool"
    and push :: "'l \<Rightarrow> 'd \<Rightarrow> 'h \<Rightarrow> (('n option \<times> 'l) \<times> 'h) option"
    and pop :: "'l \<Rightarrow> 'h \<Rightarrow> (('d option \<times> 'l) \<times> 'h) option"
    and search :: "'l \<Rightarrow> ('d \<Rightarrow> bool) \<Rightarrow> 'h \<Rightarrow> 'd option option"
  assumes rep_length: "rep w ls nss \<Longrightarrow> length nss = length ls"
    and push: "rep w ls nss \<Longrightarrow> i < length ls \<Longrightarrow> can_push w \<Longrightarrow>
      \<exists>n l' w'. push (ls ! i) d w = Some ((Some n, l'), w') \<and>
                rep w' (ls[i := l']) (nss[i := (n, d) # nss ! i])"
    and push_fails: "rep w ls nss \<Longrightarrow> i < length ls \<Longrightarrow> \<not> can_push w \<Longrightarrow>
      \<exists>w'. push (ls ! i) d w = Some ((None, ls ! i), w') \<and> rep w' ls nss"
    and pop: "rep w ls nss \<Longrightarrow> i < length ls \<Longrightarrow> nss ! i = (n, d) # ns \<Longrightarrow>
      \<exists>l' w'. pop (ls ! i) w = Some ((Some d, l'), w') \<and> rep w' (ls[i := l']) (nss[i := ns])"
    and pop_empty: "rep w ls nss \<Longrightarrow> i < length ls \<Longrightarrow> nss ! i = [] \<Longrightarrow>
      pop (ls ! i) w = Some ((None, ls ! i), w)"
    and search: "rep w ls nss \<Longrightarrow> i < length ls \<Longrightarrow>
      search (ls ! i) P w = Some (List.find P (map snd (nss ! i)))"
begin

definition stored :: "('n \<times> 'd) list list \<Rightarrow> 'd list" where
  "stored nss = map snd (concat nss)"

text \<open>Insert-if-absent, as the client of a bucket does it, and what a search then finds.\<close>

lemma search_hit:
  assumes "rep w ls nss" "i < length ls" "d \<in> snd ` set (nss ! i)" "P d"
    and "\<And>e. e \<in> snd ` set (nss ! i) \<Longrightarrow> P e \<Longrightarrow> e = d"
  shows "search (ls ! i) P w = Some (Some d)"
proof -
  have "List.find P (map snd (nss ! i)) = Some d"
  proof (rule find_unique)
    show "d \<in> set (map snd (nss ! i))" using assms(3) by simp
    show "P d" by (fact assms(4))
    show "e = d" if "e \<in> set (map snd (nss ! i))" "P e" for e
      using assms(5) [of e] that by simp
  qed
  with search [OF assms(1,2)] show ?thesis by simp
qed

lemma search_miss:
  assumes "rep w ls nss" "i < length ls" "\<And>e. e \<in> snd ` set (nss ! i) \<Longrightarrow> \<not> P e"
  shows "search (ls ! i) P w = Some None"
  using search [OF assms(1,2)] assms(3) by (auto simp: find_None_iff)

lemma push_then_search:
  assumes "rep w ls nss" "i < length ls" "can_push w" "P d"
  shows "\<exists>n l' w'. push (ls ! i) d w = Some ((Some n, l'), w') \<and>
           search (ls[i := l'] ! i) P w' = Some (Some d)"
proof -
  obtain n l' w' where p: "push (ls ! i) d w = Some ((Some n, l'), w')"
      "rep w' (ls[i := l']) (nss[i := (n, d) # nss ! i])"
    using push [OF assms(1-3)] by blast
  have "search (ls[i := l'] ! i) P w' = Some (Some d)"
    using search [OF p(2), of i P] assms rep_length [OF assms(1)] by simp
  with p(1) show ?thesis by blast
qed

end

end
