(* ===== verification/Locks.thy ===== *)
theory Locks
  imports Prelude
begin

section \<open>Locks (pthread\_rwlock.c, pthread\_mutex.c)\<close>

text \<open>
  The wrappers around the POSIX locks. A lock is modelled by the state POSIX gives it: a
  read-write lock is free, held by a number of readers, or held by one writer; a mutex is
  free or held. Acquiring a lock that cannot be granted blocks, and in the thread that runs
  the code it blocks for ever, since nobody else runs: the result is \<open>None\<close>. Releasing or
  destroying a lock in the wrong state is undefined behaviour, also \<open>None\<close>. The functions of
  POSIX that may fail for other reasons (initialisation, the limit on readers) ask the
  environment.
\<close>

datatype rw_state = Rw_free | Rw_readers nat | Rw_writer

record lock_heap = mem +
  rwlocks :: "addr \<rightharpoonup> rw_state"
  mutexes :: "addr \<rightharpoonup> bool"

type_synonym 'm locks = "'m lock_heap_scheme"

subsection \<open>Read-write locks\<close>

definition rwlock_new :: "'m locks \<Rightarrow> ptr \<times> 'm locks" where
  "rwlock_new w =
     (case new_addr w of
        (None, w1) \<Rightarrow> (None, w1)
      | (Some a, w1) \<Rightarrow>
          (let (ok, w2) = ask w1
           in if ok then (Some a, w2\<lparr>rwlocks := (rwlocks w2)(a \<mapsto> Rw_free)\<rparr>)
              else (None, w2)))"

definition rwlock_free :: "ptr \<Rightarrow> 'm locks \<Rightarrow> 'm locks option" where
  "rwlock_free p w =
     (case p of None \<Rightarrow> Some w
      | Some a \<Rightarrow> (if rwlocks w a = Some Rw_free
                   then Some (w\<lparr>rwlocks := (rwlocks w)(a := None)\<rparr>) else None))"

definition rwlock_rdlock :: "ptr \<Rightarrow> 'm locks \<Rightarrow> (int \<times> 'm locks) option" where
  "rwlock_rdlock p w =
     do { a \<leftarrow> p;
          st \<leftarrow> rwlocks w a;
          let (ok, w1) = ask w;
          if \<not> ok then Some (-1, w1)
          else (case st of
              Rw_free \<Rightarrow> Some (0, w1\<lparr>rwlocks := (rwlocks w1)(a \<mapsto> Rw_readers 1)\<rparr>)
            | Rw_readers n \<Rightarrow> Some (0, w1\<lparr>rwlocks := (rwlocks w1)(a \<mapsto> Rw_readers (Suc n))\<rparr>)
            | Rw_writer \<Rightarrow> None) }"

definition rwlock_wrlock :: "ptr \<Rightarrow> 'm locks \<Rightarrow> (int \<times> 'm locks) option" where
  "rwlock_wrlock p w =
     do { a \<leftarrow> p;
          st \<leftarrow> rwlocks w a;
          let (ok, w1) = ask w;
          if \<not> ok then Some (-1, w1)
          else (case st of
              Rw_free \<Rightarrow> Some (0, w1\<lparr>rwlocks := (rwlocks w1)(a \<mapsto> Rw_writer)\<rparr>)
            | _ \<Rightarrow> None) }"

definition rwlock_unlock :: "ptr \<Rightarrow> 'm locks \<Rightarrow> (int \<times> 'm locks) option" where
  "rwlock_unlock p w =
     do { a \<leftarrow> p;
          st \<leftarrow> rwlocks w a;
          (case st of
              Rw_free \<Rightarrow> None
            | Rw_readers n \<Rightarrow>
                Some (0, w\<lparr>rwlocks := (rwlocks w)(a \<mapsto> (if n \<le> 1 then Rw_free else Rw_readers (n - 1)))\<rparr>)
            | Rw_writer \<Rightarrow> Some (0, w\<lparr>rwlocks := (rwlocks w)(a \<mapsto> Rw_free)\<rparr>)) }"

subsection \<open>Mutexes\<close>

definition mutex_new :: "'m locks \<Rightarrow> ptr \<times> 'm locks" where
  "mutex_new w =
     (case new_addr w of
        (None, w1) \<Rightarrow> (None, w1)
      | (Some a, w1) \<Rightarrow> (Some a, w1\<lparr>mutexes := (mutexes w1)(a \<mapsto> False)\<rparr>))"

definition mutex_free :: "ptr \<Rightarrow> 'm locks \<Rightarrow> 'm locks option" where
  "mutex_free p w =
     (case p of None \<Rightarrow> Some w
      | Some a \<Rightarrow> (if mutexes w a = Some False
                   then Some (w\<lparr>mutexes := (mutexes w)(a := None)\<rparr>) else None))"

definition mutex_lock :: "ptr \<Rightarrow> 'm locks \<Rightarrow> 'm locks option" where
  "mutex_lock p w =
     do { a \<leftarrow> p;
          held \<leftarrow> mutexes w a;
          if held then None else Some (w\<lparr>mutexes := (mutexes w)(a \<mapsto> True)\<rparr>) }"

definition mutex_unlock :: "ptr \<Rightarrow> 'm locks \<Rightarrow> 'm locks option" where
  "mutex_unlock p w =
     do { a \<leftarrow> p;
          held \<leftarrow> mutexes w a;
          if held then Some (w\<lparr>mutexes := (mutexes w)(a \<mapsto> False)\<rparr>) else None }"

subsection \<open>Lemmas\<close>

lemma mutex_lock_unlock:
  assumes "mutexes w a = Some False"
  shows "mutex_lock (Some a) w = Some (w\<lparr>mutexes := (mutexes w)(a \<mapsto> True)\<rparr>)"
    and "mutex_unlock (Some a) (w\<lparr>mutexes := (mutexes w)(a \<mapsto> True)\<rparr>) =
           Some (w\<lparr>mutexes := (mutexes w)(a \<mapsto> False)\<rparr>)"
  using assms by (simp_all add: mutex_lock_def mutex_unlock_def)

lemma rwlock_wrlock_free:
  assumes "rwlocks w a = Some Rw_free" "will_succeed w"
  shows "rwlock_wrlock (Some a) w =
      Some (0, w\<lparr>answers := tl (answers w), rwlocks := (rwlocks w)(a \<mapsto> Rw_writer)\<rparr>)"
  using assms by (simp add: rwlock_wrlock_def ask_def)

lemma rwlock_rdlock_free:
  assumes "rwlocks w a = Some Rw_free" "will_succeed w"
  shows "rwlock_rdlock (Some a) w =
      Some (0, w\<lparr>answers := tl (answers w), rwlocks := (rwlocks w)(a \<mapsto> Rw_readers 1)\<rparr>)"
  using assms by (simp add: rwlock_rdlock_def ask_def)

end
