(* ===== verification/Slist.thy ===== *)
theory Slist
  imports Interfaces Locks
begin

section \<open>The singly linked list (common/slist.h, common/slist.c)\<close>

text \<open>
  The buckets of the hash table. The \<open>slist_t\<close> structs are the elements of the bucket array
  and are only reached through it, so an operation takes the struct and returns it updated;
  the nodes live on the heap. \<open>slists_rep w ls nss\<close> says that the array \<open>ls\<close> of lists
  consists of the nodes and data \<open>nss\<close>, that no node is shared and that every live node is
  in one of them.
\<close>

subsection \<open>Data and operations\<close>

record snode =
  s_next :: ptr
  s_data :: ptr

record slist =
  s_head :: ptr

text \<open>\<open>blocks\<close>: the other live allocations of the hash table (its struct, its bucket array).\<close>

record slist_heap = lock_heap +
  snodes :: "addr \<rightharpoonup> snode"
  blocks :: "addr set"

definition snode_new :: "slist_heap \<Rightarrow> ptr \<times> slist_heap" where
  "snode_new w =
     (case new_addr w of
        (None, w1) \<Rightarrow> (None, w1)
      | (Some a, w1) \<Rightarrow>
          (Some a, w1\<lparr>snodes := (snodes w1)(a \<mapsto> \<lparr>s_next = None, s_data = None\<rparr>)\<rparr>))"

definition snode_free :: "ptr \<Rightarrow> slist_heap \<Rightarrow> slist_heap option" where
  "snode_free p w = do { N \<leftarrow> free_at (snodes w) p; Some (w\<lparr>snodes := N\<rparr>) }"

definition empty_slist :: slist where
  "empty_slist = \<lparr>s_head = None\<rparr>"

text \<open>\<open>slist_new\<close>: \<open>None\<close> when \<open>calloc\<close> fails (the hash table embeds its lists and does not use it).\<close>

definition slist_new :: "slist_heap \<Rightarrow> slist option \<times> slist_heap" where
  "slist_new w = (let (ok, w1) = ask w in if ok then (Some empty_slist, w1) else (None, w1))"

definition slist_push_front :: "slist \<Rightarrow> ptr \<Rightarrow> slist_heap \<Rightarrow> ((ptr \<times> slist) \<times> slist_heap) option" where
  "slist_push_front l data w =
     (case snode_new w of
        (None, w1) \<Rightarrow> Some ((None, l), w1)
      | (Some a, w1) \<Rightarrow> do {
          nd \<leftarrow> snodes w1 a;
          let w2 = w1\<lparr>snodes := (snodes w1)(a \<mapsto> nd\<lparr>s_data := data, s_next := s_head l\<rparr>)\<rparr>;
          Some ((Some a, l\<lparr>s_head := Some a\<rparr>), w2) })"

definition slist_pop_front :: "slist \<Rightarrow> slist_heap \<Rightarrow> ((ptr \<times> slist) \<times> slist_heap) option" where
  "slist_pop_front l w =
     (case s_head l of
        None \<Rightarrow> Some ((None, l), w)
      | Some a \<Rightarrow> do {
          nd \<leftarrow> snodes w a;
          w1 \<leftarrow> snode_free (Some a) w;
          Some ((s_data nd, l\<lparr>s_head := s_next nd\<rparr>), w1) })"

partial_function (option) slist_free :: "slist \<Rightarrow> slist_heap \<Rightarrow> (slist \<times> slist_heap) option" where
  "slist_free l w =
     do { ((d, l1), w1) \<leftarrow> slist_pop_front l w;
          (case d of None \<Rightarrow> Some (l1, w1) | Some _ \<Rightarrow> slist_free l1 w1) }"

text \<open>\<open>slist_foreach\<close> with a body that breaks at the first node that satisfies a test.\<close>

partial_function (option) slist_search :: "(addr \<rightharpoonup> snode) \<Rightarrow> ptr \<Rightarrow> (ptr \<Rightarrow> bool) \<Rightarrow> ptr option" where
  "slist_search N p P =
     (case p of None \<Rightarrow> Some None
      | Some a \<Rightarrow> (case N a of None \<Rightarrow> None
          | Some nd \<Rightarrow> if P (s_data nd) then Some (Some a) else slist_search N (s_next nd) P))"

subsection \<open>Representation\<close>

fun spath :: "(addr \<rightharpoonup> snode) \<Rightarrow> ptr \<Rightarrow> (addr \<times> ptr) list \<Rightarrow> bool" where
  "spath N p [] \<longleftrightarrow> p = None"
| "spath N p ((a, d) # ns) \<longleftrightarrow>
     p = Some a \<and>
     (case N a of None \<Rightarrow> False | Some nd \<Rightarrow> s_data nd = d \<and> spath N (s_next nd) ns)"

definition saddrs :: "(addr \<times> ptr) list \<Rightarrow> addr set" where
  "saddrs ns = fst ` set ns"

lemma saddrs_simps [simp]:
  "saddrs [] = {}" "saddrs ((a, d) # ns) = insert a (saddrs ns)" "fst ` set ns = saddrs ns"
  by (auto simp: saddrs_def)

definition slists_rep :: "slist_heap \<Rightarrow> slist list \<Rightarrow> (addr \<times> ptr) list list \<Rightarrow> bool" where
  "slists_rep w ls nss \<longleftrightarrow>
     length nss = length ls \<and>
     (\<forall>i < length ls. spath (snodes w) (s_head (ls ! i)) (nss ! i) \<and> distinct (map fst (nss ! i))) \<and>
     (\<forall>i < length ls. \<forall>j < length ls. i \<noteq> j \<longrightarrow> saddrs (nss ! i) \<inter> saddrs (nss ! j) = {}) \<and>
     (\<forall>a. snodes w a \<noteq> None \<longleftrightarrow> (\<exists>i < length ls. a \<in> saddrs (nss ! i))) \<and>
     (\<forall>a. snodes w a \<noteq> None \<longrightarrow> a < fresh w)"

lemma spath_cong:
  "(\<And>a. a \<in> saddrs ns \<Longrightarrow> N' a = N a) \<Longrightarrow> spath N' p ns = spath N p ns"
  by (induction N p ns rule: spath.induct) (auto split: option.splits)

lemma spath_upd [simp]: "a \<notin> saddrs ns \<Longrightarrow> spath (N(a := x)) p ns = spath N p ns"
  by (rule spath_cong) auto

lemma spath_search:
  "spath N p ns \<Longrightarrow> slist_search N p P = Some (map_option fst (List.find (\<lambda>x. P (snd x)) ns))"
proof (induction ns arbitrary: p)
  case Nil
  then show ?case by (simp add: slist_search.simps)
next
  case (Cons x ns)
  obtain a d where x: "x = (a, d)" by fastforce
  from Cons.prems obtain nd where "p = Some a" "N a = Some nd" "s_data nd = d" "spath N (s_next nd) ns"
    by (auto simp: x split: option.splits)
  with Cons.IH [of "s_next nd"] show ?case
    by (subst slist_search.simps) (simp add: x)
qed

subsection \<open>Correctness of the operations\<close>

lemma slists_repD:
  assumes "slists_rep w ls nss"
  shows "length nss = length ls"
    and "i < length ls \<Longrightarrow> spath (snodes w) (s_head (ls ! i)) (nss ! i)"
    and "i < length ls \<Longrightarrow> distinct (map fst (nss ! i))"
    and "i < length ls \<Longrightarrow> j < length ls \<Longrightarrow> i \<noteq> j \<Longrightarrow> saddrs (nss ! i) \<inter> saddrs (nss ! j) = {}"
    and "snodes w a \<noteq> None \<longleftrightarrow> (\<exists>i < length ls. a \<in> saddrs (nss ! i))"
    and "snodes w a \<noteq> None \<Longrightarrow> a < fresh w"
proof -
  note d = assms [unfolded slists_rep_def]
  show "length nss = length ls" using d by (elim conjE)
  show "i < length ls \<Longrightarrow> spath (snodes w) (s_head (ls ! i)) (nss ! i)" using d by simp
  show "i < length ls \<Longrightarrow> distinct (map fst (nss ! i))" using d by simp
  show "i < length ls \<Longrightarrow> j < length ls \<Longrightarrow> i \<noteq> j \<Longrightarrow> saddrs (nss ! i) \<inter> saddrs (nss ! j) = {}"
    using d by meson
  show "snodes w a \<noteq> None \<longleftrightarrow> (\<exists>i < length ls. a \<in> saddrs (nss ! i))" using d by meson
  show "snodes w a \<noteq> None \<Longrightarrow> a < fresh w" using d by meson
qed

text \<open>The frame rule for one list of the array.\<close>

lemma slists_rep_update:
  assumes rep: "slists_rep w ls nss" and i: "i < length ls"
    and path: "spath (snodes w') (s_head l') ns'" "distinct (map fst ns')"
    and same: "\<And>a. a \<notin> saddrs (nss ! i) \<union> saddrs ns' \<Longrightarrow> snodes w' a = snodes w a"
    and new: "\<And>a. a \<in> saddrs ns' \<Longrightarrow> a \<notin> saddrs (nss ! i) \<Longrightarrow> snodes w a = None"
    and gone: "\<And>a. a \<in> saddrs (nss ! i) \<Longrightarrow> a \<notin> saddrs ns' \<Longrightarrow> snodes w' a = None"
    and here: "\<And>a. a \<in> saddrs ns' \<Longrightarrow> snodes w' a \<noteq> None \<and> a < fresh w'"
    and bound: "fresh w \<le> fresh w'"
  shows "slists_rep w' (ls[i := l']) (nss[i := ns'])"
proof -
  note D = slists_repD [OF rep]
  have apart: "a \<notin> saddrs (nss ! j)" if "j < length ls" "j \<noteq> i" "a \<in> saddrs (nss ! i) \<union> saddrs ns'" for a j
  proof (cases "a \<in> saddrs (nss ! i)")
    case True
    then show ?thesis using D(4) [OF that(1) i that(2)] by blast
  next
    case False
    then have "snodes w a = None" using that(3) new by blast
    then show ?thesis using D(5) [of a] that(1) by auto
  qed
  have others: "spath (snodes w') (s_head (ls ! j)) (nss ! j)" if "j < length ls" "j \<noteq> i" for j
  proof -
    have "spath (snodes w') (s_head (ls ! j)) (nss ! j) = spath (snodes w) (s_head (ls ! j)) (nss ! j)"
      by (rule spath_cong) (use apart [OF that] same in blast)
    then show ?thesis using D(2) [OF that(1)] by simp
  qed
  have live: "snodes w' a \<noteq> None \<longleftrightarrow> (\<exists>j < length ls. a \<in> saddrs (nss[i := ns'] ! j))" for a
  proof (cases "a \<in> saddrs (nss ! i) \<union> saddrs ns'")
    case True
    then have "(\<exists>j < length ls. a \<in> saddrs (nss[i := ns'] ! j)) \<longleftrightarrow> a \<in> saddrs ns'"
      using apart i D(1) by (metis nth_list_update_eq nth_list_update_neq)
    moreover have "snodes w' a \<noteq> None \<longleftrightarrow> a \<in> saddrs ns'"
      using True gone [of a] here [of a] by (cases "a \<in> saddrs ns'") auto
    ultimately show ?thesis by simp
  next
    case False
    then have "(\<exists>j < length ls. a \<in> saddrs (nss[i := ns'] ! j)) \<longleftrightarrow> (\<exists>j < length ls. a \<in> saddrs (nss ! j))"
      using i D(1) by (metis UnI1 UnI2 nth_list_update_eq nth_list_update_neq)
    then show ?thesis using D(5) [of a] same [OF False] by simp
  qed
  show ?thesis
    unfolding slists_rep_def
  proof (intro conjI allI impI)
    show "length (nss[i := ns']) = length (ls[i := l'])" using D(1) by simp
  next
    fix j assume j: "j < length (ls[i := l'])"
    then show "spath (snodes w') (s_head (ls[i := l'] ! j)) (nss[i := ns'] ! j)"
      using others [of j] path(1) D(1) by (cases "j = i") auto
    from j show "distinct (map fst (nss[i := ns'] ! j))"
      using D(1) D(3) [of j] path(2) by (cases "j = i") auto
    fix k assume k: "k < length (ls[i := l'])" "j \<noteq> k"
    have j': "j < length ls" and k': "k < length ls" using j k by simp_all
    show "saddrs (nss[i := ns'] ! j) \<inter> saddrs (nss[i := ns'] ! k) = {}"
    proof (cases "j = i")
      case True
      then show ?thesis using k k' i D(1) apart [of k] by auto
    next
      case False
      then show ?thesis using j' k k' i D(1) apart [of j] D(4) [of j k] by (cases "k = i") auto
    qed
  next
    fix a
    show "snodes w' a \<noteq> None \<longleftrightarrow> (\<exists>j < length (ls[i := l']). a \<in> saddrs (nss[i := ns'] ! j))"
      using live by simp
    assume "snodes w' a \<noteq> None"
    then show "a < fresh w'"
      using here [of a] gone [of a] same [of a] D(6) [of a] bound by (metis UnE less_le_trans)
  qed
qed

lemma slist_push_front_ok:
  assumes rep: "slists_rep w ls nss" and i: "i < length ls" and ok: "will_succeed w"
  shows "\<exists>w'. slist_push_front (ls ! i) d w = Some ((Some (fresh w), \<lparr>s_head = Some (fresh w)\<rparr>), w') \<and>
     slists_rep w' (ls[i := \<lparr>s_head = Some (fresh w)\<rparr>]) (nss[i := (fresh w, d) # nss ! i]) \<and>
     rwlocks w' = rwlocks w \<and> blocks w' = blocks w \<and> answers w' = tl (answers w) \<and>
     fresh w' = Suc (fresh w)"
proof -
  let ?a = "fresh w"
  let ?w' = "w\<lparr>answers := tl (answers w), fresh := Suc ?a,
               snodes := (snodes w)(?a \<mapsto> \<lparr>s_next = s_head (ls ! i), s_data = d\<rparr>)\<rparr>"
  note D = slists_repD [OF rep]
  have na: "snodes w ?a = None" using D(6) [of ?a] by fastforce
  have notin: "?a \<notin> saddrs (nss ! i)" using D(5) [of ?a] na i by auto
  have old: "a < ?a" if "a \<in> saddrs (nss ! i)" for a
    using D(5,6) [of a] that i by blast
  have "slist_push_front (ls ! i) d w = Some ((Some ?a, \<lparr>s_head = Some ?a\<rparr>), ?w')"
    by (simp add: slist_push_front_def snode_new_def new_addr_ok [OF ok])
  moreover have "slists_rep ?w' (ls[i := \<lparr>s_head = Some ?a\<rparr>]) (nss[i := (?a, d) # nss ! i])"
  proof (rule slists_rep_update [OF rep i])
    show "spath (snodes ?w') (s_head \<lparr>s_head = Some ?a\<rparr>) ((?a, d) # nss ! i)"
      using D(2) [OF i] notin by simp
    show "distinct (map fst ((?a, d) # nss ! i))"
      using D(3) [OF i] notin by simp
    show "snodes ?w' a \<noteq> None \<and> a < fresh ?w'" if "a \<in> saddrs ((?a, d) # nss ! i)" for a
    proof (cases "a = ?a")
      case False
      with that have a: "a \<in> saddrs (nss ! i)" by simp
      then have "snodes w a \<noteq> None" using D(5) [of a] i by blast
      then show ?thesis using old [OF a] False by simp
    qed simp
  qed (use na in auto)
  ultimately show ?thesis by (intro exI [of _ ?w']) simp
qed

lemma slist_pop_front_ok:
  assumes rep: "slists_rep w ls nss" and i: "i < length ls" and ns: "nss ! i = (n, d) # ns"
  shows "\<exists>l' w'. slist_pop_front (ls ! i) w = Some ((d, l'), w') \<and>
     slists_rep w' (ls[i := l']) (nss[i := ns]) \<and> snodes w' n = None \<and>
     rwlocks w' = rwlocks w \<and> blocks w' = blocks w \<and> answers w' = answers w"
proof -
  note D = slists_repD [OF rep]
  from D(2) [OF i] obtain nd where nd: "s_head (ls ! i) = Some n" "snodes w n = Some nd"
    "s_data nd = d" "spath (snodes w) (s_next nd) ns" by (auto simp: ns split: option.splits)
  have dist: "n \<notin> saddrs ns" "distinct (map fst ns)" using D(3) [OF i] by (auto simp: ns)
  let ?w' = "w\<lparr>snodes := (snodes w)(n := None)\<rparr>" and ?l' = "(ls ! i)\<lparr>s_head := s_next nd\<rparr>"
  have "slist_pop_front (ls ! i) w = Some ((d, ?l'), ?w')"
    using nd by (simp add: slist_pop_front_def snode_free_def)
  moreover have "slists_rep ?w' (ls[i := ?l']) (nss[i := ns])"
  proof (rule slists_rep_update [OF rep i])
    show "snodes ?w' a \<noteq> None \<and> a < fresh ?w'" if "a \<in> saddrs ns" for a
    proof -
      have "snodes w a \<noteq> None" using D(5) [of a] i that by (auto simp: ns)
      then show ?thesis using D(6) [of a] that dist by auto
    qed
  qed (use nd dist in \<open>auto simp: ns\<close>)
  ultimately show ?thesis by (intro exI [of _ ?l'] exI [of _ ?w']) simp
qed

lemma slist_pop_front_empty:
  assumes "slists_rep w ls nss" "i < length ls" "nss ! i = []"
  shows "slist_pop_front (ls ! i) w = Some ((None, ls ! i), w)"
  using slists_repD(2) [OF assms(1,2)] assms(3) by (simp add: slist_pop_front_def)

lemma slist_push_front_null:
  "\<not> will_succeed w \<Longrightarrow> slist_push_front l d w = Some ((None, l), w\<lparr>answers := tl (answers w)\<rparr>)"
  by (cases rule: new_addr_cases [of w]) (simp_all add: slist_push_front_def snode_new_def)

lemma slists_rep_answers [simp]: "slists_rep (w\<lparr>answers := bs\<rparr>) ls nss = slists_rep w ls nss"
  and slists_rep_locks [simp]: "slists_rep (w\<lparr>rwlocks := R\<rparr>) ls nss = slists_rep w ls nss"
  and slists_rep_blocks [simp]: "slists_rep (w\<lparr>blocks := B\<rparr>) ls nss = slists_rep w ls nss"
  by (simp_all add: slists_rep_def)

text \<open>
  Lists of values that are not \<open>NULL\<close>: for these the \<open>NULL\<close> result of \<open>slist_pop_front\<close>
  means "empty".
\<close>

definition values_rep :: "slist_heap \<Rightarrow> slist list \<Rightarrow> (addr \<times> addr) list list \<Rightarrow> bool" where
  "values_rep w ls nss \<longleftrightarrow> slists_rep w ls (map (map (apsnd Some)) nss)"

definition slist_find_value :: "slist \<Rightarrow> (addr \<Rightarrow> bool) \<Rightarrow> slist_heap \<Rightarrow> ptr option" where
  "slist_find_value l P w =
     do { p \<leftarrow> slist_search (snodes w) (s_head l) (\<lambda>d. case d of None \<Rightarrow> False | Some v \<Rightarrow> P v);
          (case p of None \<Rightarrow> Some None
           | Some a \<Rightarrow> do { nd \<leftarrow> snodes w a; Some (s_data nd) }) }"

lemma find_apsnd:
  "List.find (\<lambda>x. case snd x of None \<Rightarrow> False | Some v \<Rightarrow> P v) (map (apsnd Some) ns) =
   map_option (apsnd Some) (List.find (\<lambda>x. P (snd x)) ns)"
  by (induction ns) auto

lemma spath_lookup: "spath N p ns \<Longrightarrow> (a, d) \<in> set ns \<Longrightarrow> \<exists>nd. N a = Some nd \<and> s_data nd = d"
  by (induction N p ns rule: spath.induct) (auto split: option.splits)

lemma find_value_rep:
  assumes "values_rep w ls nss" "i < length ls"
  shows "slist_find_value (ls ! i) P w = Some (List.find P (map snd (nss ! i)))"
proof -
  note D = slists_repD [OF assms(1) [unfolded values_rep_def]]
  have path: "spath (snodes w) (s_head (ls ! i)) (map (apsnd Some) (nss ! i))"
    using D(2) [OF assms(2)] D(1) assms(2) by simp
  show ?thesis
  proof (cases "List.find (\<lambda>x. P (snd x)) (nss ! i)")
    case None
    then have "List.find P (map snd (nss ! i)) = None" by (auto simp: find_None_iff)
    with None show ?thesis by (simp add: slist_find_value_def spath_search [OF path] find_apsnd)
  next
    case (Some x)
    obtain a v where x: "x = (a, v)" by fastforce
    have "x \<in> set (nss ! i)" using Some by (metis find_Some_iff nth_mem)
    then have "(a, Some v) \<in> set (map (apsnd Some) (nss ! i))"
      using x by (simp add: image_iff) (metis apsnd_conv)
    then obtain nd where "snodes w a = Some nd" "s_data nd = Some v"
      using spath_lookup [OF path] by blast
    moreover have "List.find P (map snd (nss ! i)) = Some v"
      using Some x by (simp add: find_map_snd)
    ultimately show ?thesis
      using Some x by (simp add: slist_find_value_def spath_search [OF path] find_apsnd)
  qed
qed

interpretation buckets: bucket_array values_rep will_succeed "\<lambda>l v. slist_push_front l (Some v)"
  slist_pop_front slist_find_value
proof unfold_locales
  fix w ls nss assume rep: "values_rep w ls nss"
  note D = slists_repD [OF rep [unfolded values_rep_def]]
  show len: "length nss = length ls" using D(1) by simp
  fix i assume i: "i < length ls"
  then have i': "i < length nss" by (simp add: len)
  show "slist_find_value (ls ! i) P w = Some (List.find P (map snd (nss ! i)))" for P
    by (rule find_value_rep [OF rep i])
  show "\<exists>n l' w'. slist_push_front (ls ! i) (Some d) w = Some ((Some n, l'), w') \<and>
           values_rep w' (ls[i := l']) (nss[i := (n, d) # nss ! i])" if "will_succeed w" for d
    using slist_push_front_ok [OF rep [unfolded values_rep_def] i that, of "Some d"] i'
    by (auto simp: values_rep_def map_update)
  show "\<exists>w'. slist_push_front (ls ! i) (Some d) w = Some ((None, ls ! i), w') \<and> values_rep w' ls nss"
    if "\<not> will_succeed w" for d
    using slist_push_front_null [OF that] rep by (simp add: values_rep_def)
  show "\<exists>l' w'. slist_pop_front (ls ! i) w = Some ((Some d, l'), w') \<and>
           values_rep w' (ls[i := l']) (nss[i := ns])" if "nss ! i = (n, d) # ns" for n d ns
    using slist_pop_front_ok [OF rep [unfolded values_rep_def] i, of n "Some d" "map (apsnd Some) ns"]
      that i' by (auto simp: values_rep_def map_update)
  show "slist_pop_front (ls ! i) w = Some ((None, ls ! i), w)" if "nss ! i = []"
    using slist_pop_front_empty [OF rep [unfolded values_rep_def] i] that i' by simp
qed

end
