(* ===== verification/Hashtable.thy ===== *)
theory Hashtable
  imports Slist "HOL-Library.Word"
begin

section \<open>The chained hash table (hashtable.h, hashtable.c)\<close>

text \<open>
  The table keeps an array of buckets (\<open>Slist\<close>), a counter of collisions and a read-write
  lock (\<open>Locks\<close>). The caller's functions are fields, as in the code: \<open>h_hash\<close> hashes a key
  to 32 bits, \<open>h_cmp v k\<close> is 0 iff the value \<open>v\<close> has the key \<open>k\<close>. \<open>h_value_free\<close> says
  whether a function to free values was given; the calls to it are returned as the list of
  their arguments. Counts are 64-bit words (\<open>size_t\<close>), so the collision counter wraps as the
  code's does. \<open>hashtable_rep\<close> is the invariant and \<open>table_lookup\<close> the finite map that a
  table stands for.
\<close>

subsection \<open>Data\<close>

datatype hashtable_error = HASHTABLE_E_SUCCESS | HASHTABLE_E_FOUND | HASHTABLE_E_ERROR

record 'k hashtable =
  h_self :: addr
  h_buckets_at :: ptr
  h_buckets :: "slist list"
  h_size :: "64 word"
  h_nr_buckets :: "64 word"
  h_collisions :: "64 word"
  h_rwlock :: ptr
  h_cmp :: "ptr \<Rightarrow> 'k \<Rightarrow> int"
  h_hash :: "'k \<Rightarrow> 32 word"
  h_value_free :: bool

subsection \<open>Operations\<close>

text \<open>The inner loop of \<open>hashtable_free\<close>: pop until \<open>NULL\<close>, freeing the values.\<close>

partial_function (option) bucket_drain ::
  "bool \<Rightarrow> slist \<Rightarrow> slist_heap \<Rightarrow> ((addr list \<times> slist) \<times> slist_heap) option" where
  "bucket_drain free_values l w =
     do { ((v, l1), w1) \<leftarrow> slist_pop_front l w;
          (case v of
             None \<Rightarrow> Some (([], l1), w1)
           | Some a \<Rightarrow> do {
               ((vs, l2), w2) \<leftarrow> bucket_drain free_values l1 w1;
               Some ((if free_values then a # vs else vs, l2), w2) }) }"

text \<open>The outer loop; its counter is an \<open>int\<close>, so incrementing \<open>INT_MAX\<close> is undefined.\<close>

partial_function (option) hashtable_free_loop ::
  "'k hashtable \<Rightarrow> nat \<Rightarrow> slist_heap \<Rightarrow> ((addr list \<times> 'k hashtable) \<times> slist_heap) option" where
  "hashtable_free_loop t i w =
     (if i < unat (h_nr_buckets t)
      then if i < length (h_buckets t)
        then do {
          ((vs, l), w1) \<leftarrow> bucket_drain (h_value_free t) (h_buckets t ! i) w;
          let t1 = t\<lparr>h_buckets := (h_buckets t)[i := l]\<rparr>;
          if i = 2 ^ 31 - 1 then None
          else do {
            ((vs', t2), w2) \<leftarrow> hashtable_free_loop t1 (Suc i) w1;
            Some ((vs @ vs', t2), w2) } }
        else None
      else Some (([], t), w))"

definition free_block :: "ptr \<Rightarrow> slist_heap \<Rightarrow> slist_heap option" where
  "free_block p w =
     (case p of None \<Rightarrow> Some w
      | Some a \<Rightarrow> if a \<in> blocks w then Some (w\<lparr>blocks := blocks w - {a}\<rparr>) else None)"

definition hashtable_free :: "'k hashtable option \<Rightarrow> slist_heap \<Rightarrow> (addr list \<times> slist_heap) option" where
  "hashtable_free ht w =
     (case ht of None \<Rightarrow> Some ([], w)
      | Some t \<Rightarrow> do {
          (vs, w1) \<leftarrow>
            (if h_buckets_at t = None then Some ([], w)
             else do { ((vs, t1), w1) \<leftarrow> hashtable_free_loop t 0 w;
                       w2 \<leftarrow> free_block (h_buckets_at t) w1;
                       Some (vs, w2) });
          w3 \<leftarrow> rwlock_free (h_rwlock t) w1;
          w4 \<leftarrow> free_block (Some (h_self t)) w3;
          Some (vs, w4) })"

definition alloc_block :: "slist_heap \<Rightarrow> ptr \<times> slist_heap" where
  "alloc_block w =
     (case new_addr w of
        (None, w1) \<Rightarrow> (None, w1)
      | (Some a, w1) \<Rightarrow> (Some a, w1\<lparr>blocks := insert a (blocks w1)\<rparr>))"

definition hashtable_new ::
  "(ptr \<Rightarrow> 'k \<Rightarrow> int) \<Rightarrow> ('k \<Rightarrow> 32 word) \<Rightarrow> bool \<Rightarrow> 64 word \<Rightarrow> slist_heap \<Rightarrow>
   ('k hashtable option \<times> slist_heap) option" where
  "hashtable_new cmp hash value_free nr w =
     (case alloc_block w of
        (None, w1) \<Rightarrow> Some (None, w1)
      | (Some a, w1) \<Rightarrow>
          (let t = \<lparr>h_self = a, h_buckets_at = None, h_buckets = [], h_size = 0,
                    h_nr_buckets = 0, h_collisions = 0, h_rwlock = None,
                    h_cmp = cmp, h_hash = hash, h_value_free = False\<rparr>
           in case alloc_block w1 of
                (None, w2) \<Rightarrow> do { (vs, w3) \<leftarrow> hashtable_free (Some t) w2; Some (None, w3) }
              | (Some b, w2) \<Rightarrow>
                  (let t1 = t\<lparr>h_buckets_at := Some b, h_buckets := replicate (unat nr) empty_slist,
                              h_value_free := value_free, h_nr_buckets := nr\<rparr>
                   in case rwlock_new w2 of
                        (None, w3) \<Rightarrow> do { (vs, w4) \<leftarrow> hashtable_free (Some t1) w3; Some (None, w4) }
                      | (Some r, w3) \<Rightarrow> Some (Some (t1\<lparr>h_rwlock := Some r\<rparr>), w3))))"

text \<open>\<open>hash % nr_buckets\<close>, computed in \<open>size_t\<close> and stored back in 32 bits.\<close>

definition hashtable_get_bucket :: "'k hashtable \<Rightarrow> 'k \<Rightarrow> nat option" where
  "hashtable_get_bucket t key =
     (if h_nr_buckets t = 0 then None
      else (let h = h_hash t key;
                i = unat (ucast ((ucast h :: 64 word) mod h_nr_buckets t) :: 32 word)
            in if i < length (h_buckets t) then Some i else None))"

definition hashtable_find_node :: "'k hashtable \<Rightarrow> slist \<Rightarrow> 'k \<Rightarrow> slist_heap \<Rightarrow> ptr option" where
  "hashtable_find_node t bucket key w =
     slist_search (snodes w) (s_head bucket) (\<lambda>d. h_cmp t d key = 0)"

definition hashtable_add ::
  "'k hashtable \<Rightarrow> ptr \<Rightarrow> 'k \<Rightarrow> slist_heap \<Rightarrow>
   ((hashtable_error \<times> 'k hashtable) \<times> slist_heap) option" where
  "hashtable_add t v key w =
     do { i \<leftarrow> hashtable_get_bucket t key;
          (r, w1) \<leftarrow> rwlock_wrlock (h_rwlock t) w;
          let bucket = h_buckets t ! i;
          let t1 = (if s_head bucket \<noteq> None then t\<lparr>h_collisions := h_collisions t + 1\<rparr> else t);
          node \<leftarrow> hashtable_find_node t1 bucket key w1;
          ((err, t2), w2) \<leftarrow>
            (case node of
               None \<Rightarrow> do {
                 ((p, l), w2) \<leftarrow> slist_push_front bucket v w1;
                 Some ((if p = None then HASHTABLE_E_ERROR else HASHTABLE_E_SUCCESS,
                        t1\<lparr>h_buckets := (h_buckets t1)[i := l]\<rparr>), w2) }
             | Some _ \<Rightarrow> Some ((HASHTABLE_E_FOUND, t1), w1));
          (r', w3) \<leftarrow> rwlock_unlock (h_rwlock t) w2;
          Some ((err, t2), w3) }"

definition hashtable_find :: "'k hashtable \<Rightarrow> 'k \<Rightarrow> slist_heap \<Rightarrow> (ptr \<times> slist_heap) option" where
  "hashtable_find t key w =
     do { i \<leftarrow> hashtable_get_bucket t key;
          (r, w1) \<leftarrow> rwlock_rdlock (h_rwlock t) w;
          node \<leftarrow> hashtable_find_node t (h_buckets t ! i) key w1;
          v \<leftarrow> (case node of
                  None \<Rightarrow> Some None
                | Some a \<Rightarrow> do { nd \<leftarrow> snodes w1 a; Some (s_data nd) });
          (r', w2) \<leftarrow> rwlock_unlock (h_rwlock t) w1;
          Some (v, w2) }"

definition hashtable_get_collisions :: "'k hashtable \<Rightarrow> 64 word" where
  "hashtable_get_collisions t = h_collisions t"

subsection \<open>The bucket of a key\<close>

lemma bucket_index:
  fixes h :: "32 word" and n :: "64 word"
  assumes "n \<noteq> 0"
  shows "unat (ucast ((ucast h :: 64 word) mod n) :: 32 word) = unat h mod unat n"
proof -
  have small: "unat h < 2 ^ 32"
    using unsigned_less [of h] by simp
  then have h: "unat (ucast h :: 64 word) = unat h"
    by (simp add: unsigned_ucast_eq take_bit_nat_eq_self)
  have "unat ((ucast h :: 64 word) mod n) = unat h mod unat n"
    by (simp add: unat_mod_distrib h)
  moreover have "unat h mod unat n < 2 ^ 32"
    using small by (meson le_less_trans mod_less_eq_dividend)
  ultimately show ?thesis
    by (simp add: unsigned_ucast_eq take_bit_nat_eq_self)
qed

definition bucket_of :: "'k hashtable \<Rightarrow> 'k \<Rightarrow> nat" where
  "bucket_of t k = unat (h_hash t k) mod unat (h_nr_buckets t)"

text \<open>
  \<open>key v\<close> is the key the caller's \<open>cmp\<close> sees in the value \<open>v\<close>; \<open>hashtable_rep key t w nss\<close>
  is the invariant of a table whose buckets hold the nodes and values \<open>nss\<close>: the lock is
  free, every value is in the bucket of its key, and no two values of a bucket share a key.
\<close>

definition hashtable_rep ::
  "(addr \<Rightarrow> 'k) \<Rightarrow> 'k hashtable \<Rightarrow> slist_heap \<Rightarrow> (addr \<times> addr) list list \<Rightarrow> bool" where
  "hashtable_rep key t w nss \<longleftrightarrow>
     values_rep w (h_buckets t) nss \<and>
     0 < unat (h_nr_buckets t) \<and> length (h_buckets t) = unat (h_nr_buckets t) \<and>
     (case h_rwlock t of None \<Rightarrow> False | Some r \<Rightarrow> rwlocks w r = Some Rw_free) \<and>
     (\<forall>v k. h_cmp t (Some v) k = 0 \<longleftrightarrow> key v = k) \<and>
     (\<forall>i < length nss. (\<forall>v \<in> snd ` set (nss ! i). bucket_of t (key v) = i) \<and>
                       distinct (map key (map snd (nss ! i))))"

definition table_lookup :: "(addr \<Rightarrow> 'k) \<Rightarrow> 'k hashtable \<Rightarrow> (addr \<times> addr) list list \<Rightarrow> 'k \<Rightarrow> ptr" where
  "table_lookup key t nss k = List.find (\<lambda>v. key v = k) (map snd (nss ! bucket_of t k))"

lemma hashtable_repE:
  assumes "hashtable_rep key t w nss"
  obtains r where "values_rep w (h_buckets t) nss" "0 < unat (h_nr_buckets t)"
    "length (h_buckets t) = unat (h_nr_buckets t)" "length nss = length (h_buckets t)"
    "h_rwlock t = Some r" "rwlocks w r = Some Rw_free"
    "\<And>v k. h_cmp t (Some v) k = 0 \<longleftrightarrow> key v = k"
    "\<And>i v. i < length nss \<Longrightarrow> v \<in> snd ` set (nss ! i) \<Longrightarrow> bucket_of t (key v) = i"
    "\<And>i. i < length nss \<Longrightarrow> distinct (map key (map snd (nss ! i)))"
proof -
  have "length nss = length (h_buckets t)"
    using assms buckets.rep_length unfolding hashtable_rep_def by blast
  moreover obtain r where "h_rwlock t = Some r" "rwlocks w r = Some Rw_free"
    using assms by (auto simp: hashtable_rep_def split: option.splits)
  ultimately show thesis
    using assms by (intro that [of r]) (auto simp: hashtable_rep_def)
qed

lemma get_bucket:
  assumes "hashtable_rep key t w nss"
  shows "hashtable_get_bucket t k = Some (bucket_of t k)" "bucket_of t k < length (h_buckets t)"
proof -
  from assms have nr: "h_nr_buckets t \<noteq> 0" "length (h_buckets t) = unat (h_nr_buckets t)"
    by (auto elim!: hashtable_repE)
  then have "0 < unat (h_nr_buckets t)" by (simp add: unat_gt_0)
  then show less: "bucket_of t k < length (h_buckets t)" by (simp add: bucket_of_def nr(2))
  show "hashtable_get_bucket t k = Some (bucket_of t k)"
    using less nr(1) by (simp add: hashtable_get_bucket_def bucket_index bucket_of_def)
qed

text \<open>The search of the code, with the caller's \<open>cmp\<close>, is the search of the interface.\<close>

lemma slist_search_cong:
  assumes "spath N p ns" "\<And>a d. (a, d) \<in> set ns \<Longrightarrow> P d = Q d"
  shows "slist_search N p P = slist_search N p Q"
proof -
  have "List.find (\<lambda>x. P (snd x)) ns = List.find (\<lambda>x. Q (snd x)) ns"
    using assms(2) by (intro find_cong) (auto simp: prod_eq_iff)
  then show ?thesis by (simp add: spath_search [OF assms(1)])
qed

lemma find_node_value:
  fixes k
  assumes "hashtable_rep key t w nss"
  defines "l \<equiv> h_buckets t ! bucket_of t k"
  shows "hashtable_find_node t l k w =
           slist_search (snodes w) (s_head l) (\<lambda>d. case d of None \<Rightarrow> False | Some v \<Rightarrow> key v = k)"
    and "slist_find_value l (\<lambda>v. key v = k) w = Some (table_lookup key t nss k)"
proof -
  from assms(1) have rep: "values_rep w (h_buckets t) nss" "length nss = length (h_buckets t)"
    and cmp: "\<And>v k. h_cmp t (Some v) k = 0 \<longleftrightarrow> key v = k" by (auto elim!: hashtable_repE)
  note i = get_bucket(2) [OF assms(1), of k]
  have "spath (snodes w) (s_head l) (map (apsnd Some) (nss ! bucket_of t k))"
    using slists_repD(2) [OF rep(1) [unfolded values_rep_def] i] rep(2) i by (simp add: l_def)
  then show "hashtable_find_node t l k w =
     slist_search (snodes w) (s_head l) (\<lambda>d. case d of None \<Rightarrow> False | Some v \<Rightarrow> key v = k)"
    unfolding hashtable_find_node_def by (rule slist_search_cong) (auto simp: cmp)
  show "slist_find_value l (\<lambda>v. key v = k) w = Some (table_lookup key t nss k)"
    unfolding l_def table_lookup_def by (rule buckets.search [OF rep(1) i])
qed

lemma find_node_result:
  assumes "hashtable_rep key t w nss"
  shows "\<exists>p. hashtable_find_node t (h_buckets t ! bucket_of t k) k w = Some p \<and>
             (p = None \<longleftrightarrow> table_lookup key t nss k = None) \<and>
             (case p of None \<Rightarrow> Some None | Some a \<Rightarrow> do { nd \<leftarrow> snodes w a; Some (s_data nd) }) =
               Some (table_lookup key t nss k)"
proof -
  note f = find_node_value [OF assms, of k]
  let ?s = "hashtable_find_node t (h_buckets t ! bucket_of t k) k w"
  from f obtain p where p: "?s = Some p"
    and d: "(case p of None \<Rightarrow> Some None | Some a \<Rightarrow> do { nd \<leftarrow> snodes w a; Some (s_data nd) }) =
      Some (table_lookup key t nss k)"
    unfolding slist_find_value_def by (auto simp: bind_eq_Some_conv)
  have "table_lookup key t nss k \<noteq> None" if a: "p = Some a" for a
  proof
    assume none: "table_lookup key t nss k = None"
    from assms have rep: "values_rep w (h_buckets t) nss" "length nss = length (h_buckets t)"
      by (auto elim!: hashtable_repE)
    note i = get_bucket(2) [OF assms, of k]
    have path: "spath (snodes w) (s_head (h_buckets t ! bucket_of t k)) (map (apsnd Some) (nss ! bucket_of t k))"
      using slists_repD(2) [OF rep(1) [unfolded values_rep_def] i] rep(2) i by simp
    have "List.find (\<lambda>x. key (snd x) = k) (nss ! bucket_of t k) = None"
      using none by (simp add: table_lookup_def find_map_snd)
    then have "?s = Some None" unfolding f(1) spath_search [OF path] find_apsnd by simp
    with p a show False by simp
  qed
  with p d show ?thesis by (cases p) auto
qed

subsection \<open>Adding and finding\<close>

lemma values_rep_simps [simp]:
  "values_rep (w\<lparr>answers := bs\<rparr>) ls nss = values_rep w ls nss"
  "values_rep (w\<lparr>rwlocks := R\<rparr>) ls nss = values_rep w ls nss"
  "values_rep (w\<lparr>blocks := B\<rparr>) ls nss = values_rep w ls nss"
  by (simp_all add: values_rep_def)

lemma bucket_of_simps [simp]:
  "bucket_of (t\<lparr>h_buckets := b\<rparr>) k = bucket_of t k"
  "bucket_of (t\<lparr>h_collisions := c\<rparr>) k = bucket_of t k"
  by (simp_all add: bucket_of_def)

lemma table_lookup_simps [simp]:
  "table_lookup key (t\<lparr>h_buckets := b\<rparr>) nss = table_lookup key t nss"
  "table_lookup key (t\<lparr>h_collisions := c\<rparr>) nss = table_lookup key t nss"
  by (simp_all add: table_lookup_def fun_eq_iff)

lemma hashtable_rep_frame:
  assumes "hashtable_rep key t w nss" "rwlocks w' = rwlocks w" "values_rep w' (h_buckets t) nss"
  shows "hashtable_rep key t w' nss"
  using assms by (cases "h_rwlock t") (simp_all add: hashtable_rep_def)

lemma hashtable_rep_collisions [simp]:
  "hashtable_rep key (t\<lparr>h_collisions := c\<rparr>) w nss = hashtable_rep key t w nss"
  by (simp add: hashtable_rep_def bucket_of_def)

text \<open>Pushing a value with an unused key onto its bucket keeps the invariant.\<close>

lemma hashtable_rep_push:
  assumes rep: "hashtable_rep key t w nss" and k: "key v = k"
    and absent: "table_lookup key t nss k = None"
    and w': "rwlocks w' = rwlocks w"
      "values_rep w' ((h_buckets t)[bucket_of t k := l]) (nss[bucket_of t k := (n, v) # nss ! bucket_of t k])"
  defines "t' \<equiv> t\<lparr>h_buckets := (h_buckets t)[bucket_of t k := l]\<rparr>"
    and "nss' \<equiv> nss[bucket_of t k := (n, v) # nss ! bucket_of t k]"
  shows "hashtable_rep key t' w' nss'"
    and "table_lookup key t' nss' = (table_lookup key t nss)(k \<mapsto> v)"
proof -
  let ?i = "bucket_of t k"
  have R: "length nss = length (h_buckets t)"
    "\<And>i v. i < length nss \<Longrightarrow> v \<in> snd ` set (nss ! i) \<Longrightarrow> bucket_of t (key v) = i"
    "\<And>i. i < length nss \<Longrightarrow> distinct (map key (map snd (nss ! i)))"
    by (rule hashtable_repE [OF rep], assumption)
       (use rep in \<open>unfold hashtable_rep_def, blast+\<close>)
  have i: "?i < length nss" using get_bucket(2) [OF rep, of k] R(1) by simp
  have new: "key u \<noteq> k" if "u \<in> snd ` set (nss ! ?i)" for u
    using absent that by (auto simp: table_lookup_def find_None_iff)
  have "(\<forall>u \<in> snd ` set (nss' ! j). bucket_of t (key u) = j) \<and> distinct (map key (map snd (nss' ! j)))"
    if "j < length nss" for j
  proof (cases "j = ?i")
    case True
    have "k \<notin> key ` snd ` set (nss ! ?i)" using new by blast
    with True i R(2,3) [of j] k show ?thesis by (auto simp: nss'_def image_image)
  next
    case False
    with R(2,3) [of j] that show ?thesis by (auto simp: nss'_def)
  qed
  with rep w' show "hashtable_rep key t' w' nss'"
    by (cases "h_rwlock t") (auto simp: hashtable_rep_def t'_def nss'_def bucket_of_def)
  show "table_lookup key t' nss' = (table_lookup key t nss)(k \<mapsto> v)"
  proof
    fix m
    show "table_lookup key t' nss' m = ((table_lookup key t nss)(k \<mapsto> v)) m"
      using i k by (cases "bucket_of t m = ?i")
        (auto simp: table_lookup_def t'_def nss'_def bucket_of_def)
  qed
qed

lemma wrlock_rep:
  assumes "hashtable_rep key t w nss" "will_succeed w"
  obtains r where "h_rwlock t = Some r"
    "rwlock_wrlock (Some r) w =
       Some (0, w\<lparr>answers := tl (answers w), rwlocks := (rwlocks w)(r \<mapsto> Rw_writer)\<rparr>)"
    "rwlocks w r = Some Rw_free"
  using assms by (elim hashtable_repE) (simp add: rwlock_wrlock_free)

lemma hashtable_find_node_frame [simp]:
  "hashtable_find_node t b k (w\<lparr>answers := bs\<rparr>) = hashtable_find_node t b k w"
  "hashtable_find_node t b k (w\<lparr>rwlocks := R\<rparr>) = hashtable_find_node t b k w"
  "hashtable_find_node (t\<lparr>h_collisions := c\<rparr>) b k w = hashtable_find_node t b k w"
  by (simp_all add: hashtable_find_node_def)

text \<open>C24. \<open>hashtable_add\<close> refines insert-if-absent on the map the table stands for: a key that
  is present is reported as found and nothing changes, a new key is added unless the node
  cannot be allocated; the lock is free again on every path, the invariant holds, and the
  collision counter grows (modulo 2^64) iff the bucket was not empty.\<close>

theorem hashtable_add_refines:
  assumes rep: "hashtable_rep key t w nss" and k: "key v = k" and lock: "will_succeed w"
  shows "\<exists>err t' w' nss'. hashtable_add t (Some v) k w = Some ((err, t'), w') \<and>
     hashtable_rep key t' w' nss' \<and>
     h_collisions t' = h_collisions t + (if nss ! bucket_of t k = [] then 0 else 1) \<and>
     (if table_lookup key t nss k \<noteq> None
      then err = HASHTABLE_E_FOUND \<and> table_lookup key t' nss' = table_lookup key t nss
      else if answer 1 w
      then err = HASHTABLE_E_SUCCESS \<and> table_lookup key t' nss' = (table_lookup key t nss)(k \<mapsto> v)
      else err = HASHTABLE_E_ERROR \<and> table_lookup key t' nss' = table_lookup key t nss)"
proof -
  let ?i = "bucket_of t k"
  obtain r where r: "h_rwlock t = Some r"
    "rwlock_wrlock (Some r) w =
       Some (0, w\<lparr>answers := tl (answers w), rwlocks := (rwlocks w)(r \<mapsto> Rw_writer)\<rparr>)"
    "rwlocks w r = Some Rw_free" using rep lock by (rule wrlock_rep)
  let ?w1 = "w\<lparr>answers := tl (answers w), rwlocks := (rwlocks w)(r \<mapsto> Rw_writer)\<rparr>"
  let ?c = "h_collisions t + (if nss ! ?i = [] then 0 else 1)"
  let ?t1 = "t\<lparr>h_collisions := ?c\<rparr>"
  from rep have V: "values_rep w (h_buckets t) nss" "length nss = length (h_buckets t)"
    by (auto elim!: hashtable_repE)
  note i = get_bucket [OF rep, of k]
  have V1: "values_rep ?w1 (h_buckets t) nss" using V(1) by simp
  have head: "s_head (h_buckets t ! ?i) = None \<longleftrightarrow> nss ! ?i = []"
    using slists_repD(2) [OF V(1) [unfolded values_rep_def] i(2)] V(2) i(2)
    by (cases "nss ! ?i") (auto split: option.splits)
  then have head': "(\<exists>a. s_head (h_buckets t ! ?i) = Some a) \<longleftrightarrow> nss ! ?i \<noteq> []" by auto
  obtain p where p: "hashtable_find_node t (h_buckets t ! ?i) k w = Some p"
    "p = None \<longleftrightarrow> table_lookup key t nss k = None" using find_node_result [OF rep, of k] by metis
  have unlock: "rwlock_unlock (Some r) w2 = Some (0, w2\<lparr>rwlocks := rwlocks w\<rparr>)"
    if "rwlocks w2 = (rwlocks w)(r \<mapsto> Rw_writer)" for w2 :: slist_heap
    using that r(3) by (simp add: rwlock_unlock_def fun_upd_idem)
  have rep': "hashtable_rep key ?t1 (w2\<lparr>rwlocks := rwlocks w\<rparr>) nss"
    if "values_rep w2 (h_buckets t) nss" for w2
    by (rule hashtable_rep_frame [of key ?t1 w]) (use rep that in simp_all)
  show ?thesis
  proof (cases p)
    case (Some a)
    have "hashtable_add t (Some v) k w = Some ((HASHTABLE_E_FOUND, ?t1), ?w1\<lparr>rwlocks := rwlocks w\<rparr>)"
      using i r p(1) Some unlock [of ?w1] by (simp add: hashtable_add_def Let_def head')
    moreover have "table_lookup key t nss k \<noteq> None" using p(2) Some by blast
    ultimately show ?thesis using rep' [OF V1] 
      by - (rule exI [of _ HASHTABLE_E_FOUND], rule exI [of _ "?t1"], rule exI [of _ "?w1\<lparr>rwlocks := rwlocks w\<rparr>"],
            rule exI [of _ "nss"], simp)
  next
    case None
    then have absent: "table_lookup key t nss k = None" using p(2) by blast
    show ?thesis
    proof (cases "answer 1 w")
      case True
      then have ok1: "will_succeed ?w1" by (cases "answers w") (simp_all add: answer_0 answer_def)
      obtain n l w2 where push: "slist_push_front (h_buckets t ! ?i) (Some v) ?w1 = Some ((Some n, l), w2)"
          "values_rep w2 ((h_buckets t)[?i := l]) (nss[?i := (n, v) # nss ! ?i])"
          "rwlocks w2 = rwlocks ?w1"
        using slist_push_front_ok [OF V1 [unfolded values_rep_def] i(2) ok1, of "Some v"] V(2) i(2)
        by (auto simp: values_rep_def map_update)
      let ?w3 = "w2\<lparr>rwlocks := rwlocks w\<rparr>"
      let ?t2 = "?t1\<lparr>h_buckets := (h_buckets t)[?i := l]\<rparr>"
      have "hashtable_add t (Some v) k w = Some ((HASHTABLE_E_SUCCESS, ?t2), ?w3)"
        using i r p(1) None push(1,3) unlock [of w2] by (simp add: hashtable_add_def Let_def head')
      moreover have "hashtable_rep key ?t2 ?w3 (nss[?i := (n, v) # nss ! ?i])"
        "table_lookup key ?t2 (nss[?i := (n, v) # nss ! ?i]) = (table_lookup key t nss)(k \<mapsto> v)"
        using hashtable_rep_push [of key ?t1 w nss v k ?w3 l n] rep k absent push(2)
        by (simp_all add: fun_eq_iff)
      ultimately show ?thesis using absent True 
      by - (rule exI [of _ HASHTABLE_E_SUCCESS], rule exI [of _ "?t2"], rule exI [of _ "?w3"],
            rule exI [of _ "nss[?i := (n, v) # nss ! ?i]"], simp)
    next
      case False
      then have "\<not> will_succeed ?w1" by (cases "answers w") (simp_all add: answer_0 answer_def)
      note push = slist_push_front_null [OF this, of "h_buckets t ! ?i" "Some v"]
      let ?w2 = "?w1\<lparr>answers := tl (answers ?w1)\<rparr>"
      have "hashtable_add t (Some v) k w = Some ((HASHTABLE_E_ERROR, ?t1), ?w2\<lparr>rwlocks := rwlocks w\<rparr>)"
        using i r p(1) None push unlock [of ?w2] by (simp add: hashtable_add_def Let_def head')
      moreover have "values_rep ?w2 (h_buckets t) nss" using V1 by simp
      ultimately show ?thesis using absent False rep' [of ?w2] 
      by - (rule exI [of _ HASHTABLE_E_ERROR], rule exI [of _ "?t1"], rule exI [of _ "?w2\<lparr>rwlocks := rwlocks w\<rparr>"],
            rule exI [of _ "nss"], simp)
    qed
  qed
qed

text \<open>C25. \<open>hashtable_find\<close> returns what the map has under the key, \<open>NULL\<close> for an absent key,
  leaves the table as it is and the lock free.\<close>

theorem hashtable_find_correct:
  assumes rep: "hashtable_rep key t w nss" and lock: "will_succeed w"
  shows "\<exists>w'. hashtable_find t k w = Some (table_lookup key t nss k, w') \<and>
              hashtable_rep key t w' nss \<and> snodes w' = snodes w"
proof -
  obtain r where r: "h_rwlock t = Some r" "rwlocks w r = Some Rw_free"
    using rep by (auto elim: hashtable_repE)
  note rd = rwlock_rdlock_free [OF r(2) lock]
  let ?w1 = "w\<lparr>answers := tl (answers w), rwlocks := (rwlocks w)(r \<mapsto> Rw_readers 1)\<rparr>"
  let ?w' = "w\<lparr>answers := tl (answers w)\<rparr>"
  obtain p where p: "hashtable_find_node t (h_buckets t ! bucket_of t k) k w = Some p"
    "(case p of None \<Rightarrow> Some None | Some a \<Rightarrow> do { nd \<leftarrow> snodes w a; Some (s_data nd) }) =
      Some (table_lookup key t nss k)" using find_node_result [OF rep, of k] by metis
  have "rwlock_unlock (Some r) ?w1 = Some (0, ?w')"
    using r(2) by (simp add: rwlock_unlock_def fun_upd_idem)
  then have "hashtable_find t k w = Some (table_lookup key t nss k, ?w')"
    using get_bucket(1) [OF rep] r(1) rd p
    by (cases p) (auto simp: hashtable_find_def Let_def bind_eq_Some_conv)
  moreover have "hashtable_rep key t ?w' nss"
    by (rule hashtable_rep_frame [OF rep]) (use rep in \<open>auto elim: hashtable_repE\<close>)
  ultimately show ?thesis by (intro exI [of _ ?w']) simp
qed

subsection \<open>Freeing and creating a table\<close>

lemma values_rep_pop:
  assumes rep: "values_rep w ls nss" and i: "i < length ls" and ns: "nss ! i = (n, v) # ns"
  shows "\<exists>l w1. slist_pop_front (ls ! i) w = Some ((Some v, l), w1) \<and>
     values_rep w1 (ls[i := l]) (nss[i := ns]) \<and> rwlocks w1 = rwlocks w \<and> blocks w1 = blocks w"
proof -
  note rep' = rep [unfolded values_rep_def]
  have "map (map (apsnd Some)) nss ! i = (n, Some v) # map (apsnd Some) ns"
    using slists_repD(1) [OF rep'] i ns by simp
  from slist_pop_front_ok [OF rep' i this] show ?thesis
    by (auto simp: values_rep_def map_update)
qed

lemma bucket_drain_ok:
  assumes "values_rep w ls nss" "i < length ls"
  shows "\<exists>l' w'. bucket_drain fv (ls ! i) w = Some ((if fv then map snd (nss ! i) else [], l'), w') \<and>
     values_rep w' (ls[i := l']) (nss[i := []]) \<and> rwlocks w' = rwlocks w \<and> blocks w' = blocks w"
proof -
  have "\<exists>l' w'. bucket_drain fv (ls ! i) w = Some ((if fv then map snd ns else [], l'), w') \<and>
     values_rep w' (ls[i := l']) (nss[i := []]) \<and> rwlocks w' = rwlocks w \<and> blocks w' = blocks w"
    if "values_rep w ls nss" "nss ! i = ns" "i < length ls" for ns w ls nss
    using that
  proof (induction ns arbitrary: w ls nss)
    case Nil
    have "nss[i := []] = nss" using Nil(2) by (metis list_update_id)
    then show ?case
      using buckets.pop_empty [OF Nil(1,3,2)] Nil by (auto simp: bucket_drain.simps)
  next
    case (Cons x ns)
    obtain n v where x: "x = (n, v)" by fastforce
    obtain l w1 where pop: "slist_pop_front (ls ! i) w = Some ((Some v, l), w1)"
        "values_rep w1 (ls[i := l]) (nss[i := ns])" "rwlocks w1 = rwlocks w" "blocks w1 = blocks w"
      using values_rep_pop [OF Cons.prems(1,3)] Cons.prems(2) x by blast
    have len: "i < length nss" using buckets.rep_length [OF Cons.prems(1)] Cons.prems(3) by simp
    obtain l' w' where IH: "bucket_drain fv l w1 = Some ((if fv then map snd ns else [], l'), w')"
        "values_rep w' (ls[i := l']) (nss[i := []])" "rwlocks w' = rwlocks w1" "blocks w' = blocks w1"
      using Cons.IH [OF pop(2)] len Cons.prems(3) by auto
    have "bucket_drain fv (ls ! i) w = Some ((if fv then map snd (x # ns) else [], l'), w')"
      using pop(1) IH(1) by (subst bucket_drain.simps) (simp add: x)
    with IH pop(3,4) show ?case by auto
  qed
  with assms show ?thesis by blast
qed

lemma free_loop_ok:
  assumes "values_rep w (h_buckets t) nss" "length (h_buckets t) = unat (h_nr_buckets t)"
    "unat (h_nr_buckets t) < 2 ^ 31" "i \<le> length (h_buckets t)"
  shows "\<exists>t' w'. hashtable_free_loop t i w =
       Some ((if h_value_free t then map snd (concat (drop i nss)) else [], t'), w') \<and>
     values_rep w' (h_buckets t') (take i nss @ replicate (length nss - i) []) \<and>
     rwlocks w' = rwlocks w \<and> blocks w' = blocks w"
  using assms
proof (induction "length (h_buckets t) - i" arbitrary: i t w nss)
  case 0
  then have "length nss = length (h_buckets t)" using buckets.rep_length by blast
  with 0 show ?case by (subst hashtable_free_loop.simps) simp
next
  case (Suc m)
  let ?n = "length (h_buckets t)"
  have len: "length nss = ?n" using Suc.prems(1) buckets.rep_length by blast
  have i: "i < ?n" using Suc.hyps(2) by simp
  have m: "m = ?n - Suc i" using Suc.hyps(2) by simp
  obtain l w1 where d: "bucket_drain (h_value_free t) (h_buckets t ! i) w =
        Some ((if h_value_free t then map snd (nss ! i) else [], l), w1)"
      "values_rep w1 ((h_buckets t)[i := l]) (nss[i := []])" "rwlocks w1 = rwlocks w" "blocks w1 = blocks w"
    using bucket_drain_ok [OF Suc.prems(1) i] by blast
  let ?t1 = "t\<lparr>h_buckets := (h_buckets t)[i := l]\<rparr>"
  obtain t' w' where r: "hashtable_free_loop ?t1 (Suc i) w1 =
        Some ((if h_value_free t then map snd (concat (drop (Suc i) (nss[i := []]))) else [], t'), w')"
      "values_rep w' (h_buckets t') (take (Suc i) (nss[i := []]) @ replicate (?n - Suc i) [])"
      "rwlocks w' = rwlocks w" "blocks w' = blocks w"
    using Suc.hyps(1) [of ?t1 "Suc i" w1 "nss[i := []]"] m Suc.prems d i len by (auto simp: m)
  have tk: "take (Suc i) (nss[i := []]) @ replicate (?n - Suc i) [] = take i nss @ replicate (?n - i) []"
    using i len by (simp add: take_Suc_conv_app_nth Suc_diff_Suc [symmetric])
  have dr: "drop i nss = nss ! i # drop (Suc i) nss"
    using i len by (simp add: Cons_nth_drop_Suc)
  have "i < unat (h_nr_buckets t)" "i \<noteq> 2 ^ 31 - 1" using i Suc.prems(2,3) by auto
  then have "hashtable_free_loop t i w =
      Some ((if h_value_free t then map snd (concat (drop i nss)) else [], t'), w')"
    using i d(1) r(1) by (subst hashtable_free_loop.simps) (simp add: Let_def dr)
  with r(2-4) tk len show ?case by auto
qed

lemma values_rep_all_empty:
  assumes "values_rep w ls nss" "\<forall>ns \<in> set nss. ns = []"
  shows "snodes w a = None"
proof (rule ccontr)
  assume "snodes w a \<noteq> None"
  then obtain i where i: "i < length ls" "a \<in> saddrs (map (map (apsnd Some)) nss ! i)"
    using slists_repD(5) [OF assms(1) [unfolded values_rep_def]] by blast
  moreover have "length nss = length ls" using assms(1) by (rule buckets.rep_length)
  ultimately have "nss ! i = []" using assms(2) by simp
  with i \<open>length nss = length ls\<close> show False by simp
qed

text \<open>C26. \<open>hashtable_free\<close> on a table with fewer than 2^31 buckets ends, hands every stored value
  to the caller's free function exactly once (bucket by bucket; to nobody when there is no
  such function), and releases every node, the bucket array, the struct and the lock.\<close>

theorem hashtable_free_releases:
  assumes rep: "hashtable_rep key t w nss" and nr: "unat (h_nr_buckets t) < 2 ^ 31"
    and own: "h_self t \<in> blocks w" "h_buckets_at t = Some b" "b \<in> blocks w" "b \<noteq> h_self t"
  shows "\<exists>w' r. hashtable_free (Some t) w = Some (if h_value_free t then buckets.stored nss else [], w') \<and>
     snodes w' = (\<lambda>a. None) \<and> blocks w' = blocks w - {b, h_self t} \<and>
     h_rwlock t = Some r \<and> rwlocks w r = Some Rw_free \<and> rwlocks w' = (rwlocks w)(r := None)"
proof -
  obtain r where R: "values_rep w (h_buckets t) nss" "length (h_buckets t) = unat (h_nr_buckets t)"
    "h_rwlock t = Some r" "rwlocks w r = Some Rw_free" using rep by (rule hashtable_repE)
  obtain t' w' where loop: "hashtable_free_loop t 0 w =
        Some ((if h_value_free t then map snd (concat nss) else [], t'), w')"
      "values_rep w' (h_buckets t') (replicate (length nss) [])"
      "rwlocks w' = rwlocks w" "blocks w' = blocks w"
    using free_loop_ok [OF R(1,2) nr, of 0] by auto
  have none: "snodes w' = (\<lambda>a. None)"
    by (rule ext) (rule values_rep_all_empty [OF loop(2)], simp)
  let ?w2 = "w'\<lparr>blocks := blocks w - {b}, rwlocks := (rwlocks w)(r := None)\<rparr>"
  have "hashtable_free (Some t) w = Some (if h_value_free t then buckets.stored nss else [],
      ?w2\<lparr>blocks := blocks w - {b} - {h_self t}\<rparr>)"
    using loop R own by (simp add: hashtable_free_def free_block_def rwlock_free_def buckets.stored_def)
  with none R show ?thesis by (intro exI conjI) (assumption | auto)+
qed

lemma answer_blocks [simp]: "answer n (w\<lparr>blocks := B\<rparr>) = answer n w"
  by (simp add: answer_def)

lemma alloc_block_if:
  "alloc_block v = (if answer 0 v then (Some (fresh v), v\<lparr>answers := tl (answers v),
      fresh := Suc (fresh v), blocks := insert (fresh v) (blocks v)\<rparr>)
    else (None, v\<lparr>answers := tl (answers v)\<rparr>))"
  by (cases rule: new_addr_cases [of v]) (simp_all add: alloc_block_def answer_0)

lemma rwlock_new_if:
  "rwlock_new v = (if answer 0 v then if answer 1 v
      then (Some (fresh v), v\<lparr>answers := tl (tl (answers v)), fresh := Suc (fresh v),
              rwlocks := (rwlocks v)(fresh v \<mapsto> Rw_free)\<rparr>)
      else (None, v\<lparr>answers := tl (tl (answers v)), fresh := Suc (fresh v)\<rparr>)
    else (None, v\<lparr>answers := tl (answers v)\<rparr>))"
  by (cases rule: new_addr_cases [of v])
     (auto simp: rwlock_new_def ask_def answer_0)

lemma values_rep_empty:
  "snodes v = (\<lambda>a. None) \<Longrightarrow> values_rep v (replicate n empty_slist) (replicate n [])"
  by (simp add: values_rep_def slists_rep_def empty_slist_def)

text \<open>C27. \<open>hashtable_new\<close> with 1 to 2^31 - 1 buckets gives an empty table that satisfies the
  invariant when its three allocations and the initialisation of the lock succeed; when any
  of the four fails it returns \<open>NULL\<close> and leaks nothing.\<close>

theorem hashtable_new_correct:
  fixes w :: slist_heap
  assumes empty: "snodes w = (\<lambda>a. None)" and used: "\<And>a. a \<in> blocks w \<Longrightarrow> a < fresh w"
    and nr: "nr \<noteq> 0" "unat nr < 2 ^ 31" and cmp: "\<And>v k. cmp (Some v) k = 0 \<longleftrightarrow> key v = k"
  shows "\<exists>r w'. hashtable_new cmp hash vf nr w = Some (r, w') \<and> snodes w' = snodes w \<and>
     (if \<forall>n < 4. answer n w
      then \<exists>t b. r = Some t \<and> hashtable_rep key t w' (replicate (unat nr) []) \<and>
             table_lookup key t (replicate (unat nr) []) = (\<lambda>k. None) \<and> h_value_free t = vf \<and>
             h_nr_buckets t = nr \<and> h_collisions t = 0 \<and> h_buckets_at t = Some b \<and>
             b \<noteq> h_self t \<and> {b, h_self t} \<inter> blocks w = {} \<and> blocks w' = blocks w \<union> {b, h_self t}
      else r = None \<and> blocks w' = blocks w \<and> rwlocks w' = rwlocks w)"
proof -
  have four: "(\<forall>n < 4. answer n w) \<longleftrightarrow> answer 0 w \<and> answer 1 w \<and> answer 2 w \<and> answer 3 w"
    by (simp add: numeral_eq_Suc less_Suc_eq all_conj_distrib)
  note new = alloc_block_if and lock = rwlock_new_if
  have nf: "fresh w \<notin> blocks w" "Suc (fresh w) \<notin> blocks w" using used by force+
  show ?thesis
  proof (cases "answer 0 w \<and> answer 1 w")
    case False
    then show ?thesis
      using nf by (auto simp: hashtable_new_def new four hashtable_free_def free_block_def rwlock_free_def)
  next
    case True
    let ?t = "\<lparr>h_self = fresh w, h_buckets_at = Some (Suc (fresh w)),
        h_buckets = replicate (unat nr) empty_slist, h_size = 0, h_nr_buckets = nr,
        h_collisions = 0, h_rwlock = None, h_cmp = cmp, h_hash = hash, h_value_free = vf\<rparr>"
    let ?w2 = "w\<lparr>answers := tl (tl (answers w)), fresh := Suc (Suc (fresh w)),
        blocks := insert (Suc (fresh w)) (insert (fresh w) (blocks w))\<rparr>"
    have a: "answer n (w\<lparr>answers := tl (tl (answers w)), fresh := f\<rparr>) = answer (Suc (Suc n)) w" for n f
      by (cases "answers w"; cases "tl (answers w)") (auto simp: answer_def)
    have start: "hashtable_new cmp hash vf nr w = (case rwlock_new ?w2 of
          (None, w3) \<Rightarrow> do { (vs, w4) \<leftarrow> hashtable_free (Some ?t) w3; Some (None, w4) }
        | (Some r, w3) \<Rightarrow> Some (Some (?t\<lparr>h_rwlock := Some r\<rparr>), w3))"
      using True by (simp add: hashtable_new_def new Let_def)
    show ?thesis
    proof (cases "answer 2 w \<and> answer 3 w")
      case ok: True
      let ?t' = "?t\<lparr>h_rwlock := Some (Suc (Suc (fresh w)))\<rparr>"
      let ?w3 = "?w2\<lparr>answers := tl (tl (answers ?w2)), fresh := Suc (Suc (Suc (fresh w))),
          rwlocks := (rwlocks w)(Suc (Suc (fresh w)) \<mapsto> Rw_free)\<rparr>"
      have "rwlock_new ?w2 = (Some (Suc (Suc (fresh w))), ?w3)"
        using ok by (simp add: lock a numeral_eq_Suc)
      then have "hashtable_new cmp hash vf nr w = Some (Some ?t', ?w3)" by (simp add: start)
      moreover have "hashtable_rep key ?t' ?w3 (replicate (unat nr) [])"
        using nr cmp values_rep_empty [of ?w3 "unat nr"] empty
        by (simp add: hashtable_rep_def unat_gt_0)
      moreover have "table_lookup key ?t' (replicate (unat nr) []) = (\<lambda>k. None)"
        using nr by (simp add: table_lookup_def bucket_of_def fun_eq_iff unat_gt_0)
      ultimately show ?thesis using ok True nf four
        by - (rule exI [of _ "Some ?t'"], rule exI [of _ ?w3], simp)
    next
      case bad: False
      obtain w3 where w3: "rwlock_new ?w2 = (None, w3)" "snodes w3 = snodes w"
          "blocks w3 = blocks ?w2" "rwlocks w3 = rwlocks w"
        using bad by (cases "answer 2 w") (auto simp: lock a numeral_eq_Suc)
      obtain t' w4 vs where loop: "hashtable_free_loop ?t 0 w3 = Some ((vs, t'), w4)"
          "values_rep w4 (h_buckets t') (replicate (unat nr) [])" "rwlocks w4 = rwlocks w3" "blocks w4 = blocks w3"
        using free_loop_ok [of w3 ?t "replicate (unat nr) []" 0] values_rep_empty [of w3 "unat nr"]
          nr w3(2) empty by auto
      have "snodes w4 = snodes w"
        unfolding empty by (rule ext) (rule values_rep_all_empty [OF loop(2)], simp)
      moreover have "hashtable_new cmp hash vf nr w = Some (None, w4\<lparr>blocks := blocks w\<rparr>)"
        using loop w3 nf by (simp add: start hashtable_free_def free_block_def rwlock_free_def insert_Diff_if)
      ultimately show ?thesis using bad four loop(3) w3(4) by auto
    qed
  qed
qed

subsection \<open>A concrete table\<close>

text \<open>Two buckets, the key of a value \<open>v\<close> is \<open>v div 10\<close>, and one value, 40, is stored.\<close>

definition sample_key :: "addr \<Rightarrow> nat" where
  "sample_key v = v div 10"

definition sample_cmp :: "ptr \<Rightarrow> nat \<Rightarrow> int" where
  "sample_cmp p k = (case p of None \<Rightarrow> 1 | Some v \<Rightarrow> if sample_key v = k then 0 else 1)"

definition sample_table :: "nat hashtable" where
  "sample_table = \<lparr>h_self = 1, h_buckets_at = Some 2, h_buckets = [\<lparr>s_head = Some 5\<rparr>, empty_slist],
     h_size = 0, h_nr_buckets = 2, h_collisions = 0, h_rwlock = Some 3, h_cmp = sample_cmp,
     h_hash = of_nat, h_value_free = True\<rparr>"

definition sample_table_heap :: slist_heap where
  "sample_table_heap = \<lparr>answers = [], fresh = 6, rwlocks = [3 \<mapsto> Rw_free], mutexes = Map.empty,
     snodes = [5 \<mapsto> \<lparr>s_next = None, s_data = Some 40\<rparr>], blocks = {1, 2}\<rparr>"

definition no_table_heap :: slist_heap where
  "no_table_heap = \<lparr>answers = [], fresh = 6, rwlocks = Map.empty, mutexes = Map.empty,
     snodes = \<lambda>a. None, blocks = {}\<rparr>"

lemma sample_cmp_key: "sample_cmp (Some v) k = 0 \<longleftrightarrow> sample_key v = k"
  by (simp add: sample_cmp_def)

lemma sample_table_rep: "hashtable_rep sample_key sample_table sample_table_heap [[(5, 40)], []]"
  by (simp add: hashtable_rep_def values_rep_def slists_rep_def sample_table_def sample_table_heap_def
        sample_cmp_key bucket_of_def sample_key_def empty_slist_def all_less_two ex_less_two)

lemma sample_lookup:
  "table_lookup sample_key sample_table [[(5, 40)], []] k = (if k = 4 then Some 40 else None)"
proof -
  have "[[(5, 40)], []] ! (n mod 2) \<in> {[(5, 40)], [] :: (addr \<times> addr) list}" for n :: nat
    using mod_less_divisor [of 2 n] by (cases "n mod 2 = 0") auto
  from this [of "unat (word_of_nat k :: 32 word)"] show ?thesis
    by (auto simp: table_lookup_def sample_table_def bucket_of_def sample_key_def)
qed

lemma hashtable_add_refines_witness:
  "\<exists>t' w' nss'. hashtable_add sample_table (Some 71) 7 sample_table_heap =
       Some ((HASHTABLE_E_SUCCESS, t'), w') \<and>
     hashtable_rep sample_key t' w' nss' \<and>
     table_lookup sample_key t' nss' 7 = Some 71 \<and> table_lookup sample_key t' nss' 4 = Some 40"
proof -
  have "answer 1 sample_table_heap" "will_succeed sample_table_heap" "sample_key 71 = 7"
    by (simp_all add: sample_table_heap_def sample_key_def)
  with hashtable_add_refines [OF sample_table_rep, of 71 7] obtain t' w' nss' where
    "hashtable_add sample_table (Some 71) 7 sample_table_heap = Some ((HASHTABLE_E_SUCCESS, t'), w')"
    "hashtable_rep sample_key t' w' nss'"
    "table_lookup sample_key t' nss' = (table_lookup sample_key sample_table [[(5, 40)], []])(7 \<mapsto> 71)"
    by (auto simp: sample_lookup split: if_splits)
  then show ?thesis by (auto simp: sample_lookup)
qed

lemma hashtable_find_correct_witness:
  "\<exists>w'. hashtable_find sample_table 4 sample_table_heap = Some (Some 40, w')"
  using hashtable_find_correct [OF sample_table_rep, of 4]
  by (auto simp: sample_lookup sample_table_heap_def)

lemma hashtable_free_releases_witness:
  "\<exists>w'. hashtable_free (Some sample_table) sample_table_heap = Some ([40], w') \<and>
        snodes w' = (\<lambda>a. None) \<and> blocks w' = {} \<and> rwlocks w' = Map.empty"
  using hashtable_free_releases [OF sample_table_rep, of 2]
  by (auto simp: sample_table_def sample_table_heap_def buckets.stored_def)

lemma hashtable_new_correct_witness:
  "\<exists>t w'. hashtable_new sample_cmp of_nat True 1 no_table_heap = Some (Some t, w') \<and>
          hashtable_rep sample_key t w' [[]]"
  using hashtable_new_correct [of no_table_heap 1 sample_cmp sample_key of_nat True]
  by (auto simp: no_table_heap_def sample_cmp_key)

end
