(* ===== verification/Linked_List.thy ===== *)
theory Linked_List
  imports Interfaces
begin

section \<open>The doubly linked list (common/list.h, common/list.c)\<close>

text \<open>
  Models \<^verbatim>\<open>common/list.h\<close> and \<^verbatim>\<open>common/list.c\<close> on an explicit heap. A \<open>node\<close> does not
  point back to its predecessor but to the \<open>node_t *\<close> variable that points to it: either
  the \<open>head\<close> field of the list or the \<open>next\<close> field of another node. Such an address is a
  \<open>cell\<close>. The \<open>tail\<close> of a list is the cell that holds the terminating \<open>NULL\<close>.

  The heap holds any number of lists and nodes, so aliasing between lists, dangling nodes
  and double frees are all expressible; \<open>list_rep w l ns\<close> says that the list at \<open>l\<close>
  consists of the nodes and data \<open>ns\<close>, and the operations are shown to be the
  corresponding operations on \<open>ns\<close> that leave every other list alone.
\<close>

subsection \<open>Data\<close>

datatype cell = Head addr | Next addr

record node =
  n_next :: ptr
  n_previous :: "cell option"
  n_data :: ptr

record list_t =
  l_head :: ptr
  l_tail :: "cell option"

record list_heap = mem +
  nodes :: "addr \<rightharpoonup> node"
  hlists :: "addr \<rightharpoonup> list_t"

definition zero_node :: node where
  "zero_node = \<lparr>n_next = None, n_previous = None, n_data = None\<rparr>"

definition zero_list :: list_t where
  "zero_list = \<lparr>l_head = None, l_tail = None\<rparr>"

definition set_node :: "addr \<Rightarrow> node \<Rightarrow> list_heap \<Rightarrow> list_heap" where
  "set_node a nd w = w\<lparr>nodes := (nodes w)(a \<mapsto> nd)\<rparr>"

definition set_list :: "addr \<Rightarrow> list_t \<Rightarrow> list_heap \<Rightarrow> list_heap" where
  "set_list a L w = w\<lparr>hlists := (hlists w)(a \<mapsto> L)\<rparr>"

text \<open>\<open>*c = p\<close> through a \<open>node_t **\<close>.\<close>

fun store_cell :: "cell option \<Rightarrow> ptr \<Rightarrow> list_heap \<Rightarrow> list_heap option" where
  "store_cell None p w = None"
| "store_cell (Some (Head l)) p w = do { L \<leftarrow> hlists w l; Some (set_list l (L\<lparr>l_head := p\<rparr>) w) }"
| "store_cell (Some (Next a)) p w = do { nd \<leftarrow> nodes w a; Some (set_node a (nd\<lparr>n_next := p\<rparr>) w) }"

subsection \<open>Operations\<close>

definition node_new :: "list_heap \<Rightarrow> ptr \<times> list_heap" where
  "node_new w =
     (case new_addr w of
        (None, w1) \<Rightarrow> (None, w1)
      | (Some a, w1) \<Rightarrow> (Some a, set_node a zero_node w1))"

text \<open>\<open>node_free\<close> clears the fields before it frees; the cleared object is gone either way.\<close>

definition node_free :: "ptr \<Rightarrow> list_heap \<Rightarrow> list_heap option" where
  "node_free p w =
     (case p of None \<Rightarrow> Some w
      | Some a \<Rightarrow> do {
          nd \<leftarrow> nodes w a;
          let w1 = set_node a (nd\<lparr>n_next := None, n_previous := None, n_data := None\<rparr>) w;
          N \<leftarrow> free_at (nodes w1) (Some a);
          Some (w1\<lparr>nodes := N\<rparr>) })"

definition node_data :: "ptr \<Rightarrow> list_heap \<Rightarrow> ptr option" where
  "node_data p w = do { nd \<leftarrow> deref (nodes w) p; Some (n_data nd) }"

definition list_new :: "list_heap \<Rightarrow> ptr \<times> list_heap" where
  "list_new w =
     (case new_addr w of
        (None, w1) \<Rightarrow> (None, w1)
      | (Some l, w1) \<Rightarrow> (Some l, set_list l (zero_list\<lparr>l_tail := Some (Head l)\<rparr>) w1))"

definition list_remove :: "addr \<Rightarrow> ptr \<Rightarrow> list_heap \<Rightarrow> (ptr \<times> list_heap) option" where
  "list_remove l node w =
     (case node of None \<Rightarrow> Some (None, w)
      | Some n \<Rightarrow> do {
          nd \<leftarrow> nodes w n;
          let data = n_data nd;
          w1 \<leftarrow> store_cell (n_previous nd) (n_next nd) w;
          nd1 \<leftarrow> nodes w1 n;
          w2 \<leftarrow> (case n_next nd1 of
                   None \<Rightarrow> Some w1
                 | Some m \<Rightarrow> do { md \<leftarrow> nodes w1 m;
                                 Some (set_node m (md\<lparr>n_previous := n_previous nd1\<rparr>) w1) });
          L \<leftarrow> hlists w2 l;
          nd2 \<leftarrow> nodes w2 n;
          let w3 = (if l_tail L = Some (Next n)
                    then set_list l (L\<lparr>l_tail := n_previous nd2\<rparr>) w2 else w2);
          w4 \<leftarrow> node_free (Some n) w3;
          Some (data, w4) })"

definition list_push_front :: "addr \<Rightarrow> ptr \<Rightarrow> list_heap \<Rightarrow> list_heap option" where
  "list_push_front l data w =
     (case node_new w of
        (None, w1) \<Rightarrow> None
      | (Some a, w1) \<Rightarrow> do {
          nd \<leftarrow> nodes w1 a;
          L \<leftarrow> hlists w1 l;
          let w2 = set_node a (nd\<lparr>n_data := data, n_next := l_head L, n_previous := Some (Head l)\<rparr>) w1;
          w3 \<leftarrow> (case l_head L of
                   Some h \<Rightarrow> do { hd \<leftarrow> nodes w2 h;
                                 Some (set_node h (hd\<lparr>n_previous := Some (Next a)\<rparr>) w2) }
                 | None \<Rightarrow> Some (set_list l (L\<lparr>l_tail := Some (Next a)\<rparr>) w2));
          L3 \<leftarrow> hlists w3 l;
          Some (set_list l (L3\<lparr>l_head := Some a\<rparr>) w3) })"

definition list_push_back :: "addr \<Rightarrow> ptr \<Rightarrow> list_heap \<Rightarrow> list_heap option" where
  "list_push_back l data w =
     (case node_new w of
        (None, w1) \<Rightarrow> None
      | (Some a, w1) \<Rightarrow> do {
          nd \<leftarrow> nodes w1 a;
          let w2 = set_node a (nd\<lparr>n_data := data\<rparr>) w1;
          L \<leftarrow> hlists w2 l;
          w3 \<leftarrow> store_cell (l_tail L) (Some a) w2;
          L3 \<leftarrow> hlists w3 l;
          nd3 \<leftarrow> nodes w3 a;
          let w4 = set_node a (nd3\<lparr>n_previous := l_tail L3\<rparr>) w3;
          Some (set_list l (L3\<lparr>l_tail := Some (Next a)\<rparr>) w4) })"

definition list_push_before :: "addr \<Rightarrow> ptr \<Rightarrow> ptr \<Rightarrow> list_heap \<Rightarrow> list_heap option" where
  "list_push_before l nxt data w =
     (case nxt of
        None \<Rightarrow> list_push_back l data w
      | Some n \<Rightarrow>
         (case node_new w of
            (None, w1) \<Rightarrow> None
          | (Some a, w1) \<Rightarrow> do {
              nd \<leftarrow> nodes w1 a;
              xd \<leftarrow> nodes w1 n;
              let w2 = set_node a (nd\<lparr>n_data := data, n_next := Some n, n_previous := n_previous xd\<rparr>) w1;
              xd2 \<leftarrow> nodes w2 n;
              w3 \<leftarrow> store_cell (n_previous xd2) (Some a) w2;
              xd3 \<leftarrow> nodes w3 n;
              Some (set_node n (xd3\<lparr>n_previous := Some (Next a)\<rparr>) w3) }))"

definition list_pop_front :: "addr \<Rightarrow> list_heap \<Rightarrow> (ptr \<times> list_heap) option" where
  "list_pop_front l w = do { L \<leftarrow> hlists w l; list_remove l (l_head L) w }"

text \<open>The loop \<open>while (NULL != list_pop_front(list))\<close> of \<open>list_free\<close>.\<close>

partial_function (option) list_drain :: "addr \<Rightarrow> list_heap \<Rightarrow> list_heap option" where
  "list_drain l w =
     do { (d, w1) \<leftarrow> list_pop_front l w;
          (case d of None \<Rightarrow> Some w1 | Some _ \<Rightarrow> list_drain l w1) }"

definition list_free :: "ptr \<Rightarrow> list_heap \<Rightarrow> list_heap option" where
  "list_free p w =
     (case p of None \<Rightarrow> Some w
      | Some l \<Rightarrow> do {
          w1 \<leftarrow> list_drain l w;
          N \<leftarrow> free_at (hlists w1) (Some l);
          Some (w1\<lparr>hlists := N\<rparr>) })"

text \<open>The accessors of the header; \<open>downcast\<close> turns a \<open>&node->next\<close> back into the node.\<close>

definition list_head :: "addr \<Rightarrow> list_heap \<Rightarrow> ptr option" where
  "list_head l w = do { L \<leftarrow> hlists w l; Some (l_head L) }"

fun downcast_cell :: "cell option \<Rightarrow> ptr option" where
  "downcast_cell None = Some None"
| "downcast_cell (Some (Next a)) = Some (Some a)"
| "downcast_cell (Some (Head l)) = None"

definition list_tail :: "addr \<Rightarrow> list_heap \<Rightarrow> ptr option" where
  "list_tail l w =
     do { L \<leftarrow> hlists w l;
          if l_tail L = Some (Head l) then Some None else downcast_cell (l_tail L) }"

definition list_next :: "addr \<Rightarrow> ptr \<Rightarrow> list_heap \<Rightarrow> ptr option" where
  "list_next l p w = do { nd \<leftarrow> deref (nodes w) p; Some (n_next nd) }"

definition list_previous :: "addr \<Rightarrow> ptr \<Rightarrow> list_heap \<Rightarrow> ptr option" where
  "list_previous l p w =
     do { nd \<leftarrow> deref (nodes w) p;
          if n_previous nd = Some (Head l) then Some None else downcast_cell (n_previous nd) }"

text \<open>
  \<open>list_foreach\<close> with a body that breaks at the first node whose data is wanted, as its
  one caller in \<^verbatim>\<open>http_service.c\<close> uses it.
\<close>

partial_function (option) list_foreach_find :: "(addr \<rightharpoonup> node) \<Rightarrow> ptr \<Rightarrow> ptr \<Rightarrow> ptr option" where
  "list_foreach_find N p data =
     (case p of None \<Rightarrow> Some None
      | Some a \<Rightarrow> (case N a of None \<Rightarrow> None
          | Some nd \<Rightarrow> if n_data nd = data then Some (Some a)
                      else list_foreach_find N (n_next nd) data))"

subsection \<open>List segments\<close>

text \<open>
  \<open>seg N c p ns q\<close>: the cell \<open>c\<close> holds \<open>p\<close>, from there the chain runs through the
  nodes and data \<open>ns\<close>, each node's \<open>previous\<close> being the cell that points to it, and the
  last cell, \<open>end_cell c ns\<close>, holds \<open>q\<close>.
\<close>

fun end_cell :: "cell \<Rightarrow> (addr \<times> ptr) list \<Rightarrow> cell" where
  "end_cell c [] = c"
| "end_cell c ((a, d) # ns) = end_cell (Next a) ns"

fun seg :: "(addr \<rightharpoonup> node) \<Rightarrow> cell \<Rightarrow> ptr \<Rightarrow> (addr \<times> ptr) list \<Rightarrow> ptr \<Rightarrow> bool" where
  "seg N c p [] q \<longleftrightarrow> p = q"
| "seg N c p ((a, d) # ns) q \<longleftrightarrow>
     p = Some a \<and>
     (case N a of None \<Rightarrow> False
      | Some nd \<Rightarrow> n_previous nd = Some c \<and> n_data nd = d \<and> seg N (Next a) (n_next nd) ns q)"

definition addrs :: "(addr \<times> ptr) list \<Rightarrow> addr set" where
  "addrs ns = fst ` set ns"

lemma addrs_simps [simp]:
  "addrs [] = {}" "addrs ((a, d) # ns) = insert a (addrs ns)" "addrs (xs @ ys) = addrs xs \<union> addrs ys"
  by (auto simp: addrs_def)

lemma addrs_fold [simp]: "fst ` set ns = addrs ns"
  by (simp add: addrs_def)

lemma end_cell_append [simp]: "end_cell c (xs @ ys) = end_cell (end_cell c xs) ys"
  by (induction c xs rule: end_cell.induct) auto

lemma end_cell_Next: "end_cell c ns = Next a \<Longrightarrow> c = Next a \<or> a \<in> addrs ns"
  by (induction c ns rule: end_cell.induct) auto

lemma end_cell_Head: "end_cell c ns = Head l \<Longrightarrow> ns = [] \<and> c = Head l"
  by (induction c ns rule: end_cell.induct) auto

lemma seg_cong:
  "(\<And>a. a \<in> addrs ns \<Longrightarrow> N' a = N a) \<Longrightarrow> seg N' c p ns q = seg N c p ns q"
  by (induction N c p ns q rule: seg.induct) (auto split: option.splits)

lemma seg_upd [simp]: "a \<notin> addrs ns \<Longrightarrow> seg (N(a := x)) c p ns q = seg N c p ns q"
  by (rule seg_cong) auto

lemma seg_append:
  "seg N c p (xs @ ys) q \<longleftrightarrow> (\<exists>r. seg N c p xs r \<and> seg N (end_cell c xs) r ys q)"
  by (induction N c p xs q rule: seg.induct) (auto split: option.splits)

lemma seg_dom: "seg N c p ns q \<Longrightarrow> addrs ns \<subseteq> dom N"
  by (induction N c p ns q rule: seg.induct) (auto split: option.splits)

text \<open>Re-targeting the \<open>previous\<close> of the first node moves the segment to another cell.\<close>

lemma seg_set_previous:
  assumes "seg N c p ((a, d) # ns) q" "N a = Some nd" "a \<notin> addrs ns"
  shows "seg (N(a \<mapsto> nd\<lparr>n_previous := Some c'\<rparr>)) c' p ((a, d) # ns) q"
  using assms by simp

subsection \<open>The representation of a list, and of a whole heap\<close>

definition list_rep :: "list_heap \<Rightarrow> addr \<Rightarrow> (addr \<times> ptr) list \<Rightarrow> bool" where
  "list_rep w l ns \<longleftrightarrow>
     (case hlists w l of None \<Rightarrow> False
      | Some L \<Rightarrow> l_tail L = Some (end_cell (Head l) ns) \<and>
                 seg (nodes w) (Head l) (l_head L) ns None \<and> distinct (map fst ns))"

text \<open>
  \<open>heap_rep w M\<close>: the live lists are those of \<open>M\<close>, each with its nodes and data, no node
  is shared, every live node is in some list, and the allocator is ahead of every address.
\<close>

definition heap_rep :: "list_heap \<Rightarrow> (addr \<rightharpoonup> (addr \<times> ptr) list) \<Rightarrow> bool" where
  "heap_rep w M \<longleftrightarrow>
     dom (hlists w) = dom M \<and>
     (\<forall>l ns. M l = Some ns \<longrightarrow> list_rep w l ns) \<and>
     (\<forall>l l' ns ns'. M l = Some ns \<longrightarrow> M l' = Some ns' \<longrightarrow> l \<noteq> l' \<longrightarrow> addrs ns \<inter> addrs ns' = {}) \<and>
     (\<forall>a. a \<in> dom (nodes w) \<longleftrightarrow> (\<exists>l ns. M l = Some ns \<and> a \<in> addrs ns)) \<and>
     (\<forall>a \<in> dom (nodes w) \<union> dom (hlists w). a < fresh w)"

definition same_outside :: "addr \<Rightarrow> addr set \<Rightarrow> list_heap \<Rightarrow> list_heap \<Rightarrow> bool" where
  "same_outside l A w w' \<longleftrightarrow>
     (\<forall>a. a \<notin> A \<longrightarrow> nodes w' a = nodes w a) \<and> (\<forall>l'. l' \<noteq> l \<longrightarrow> hlists w' l' = hlists w l')"

lemma list_repI:
  "hlists w l = Some L \<Longrightarrow> l_tail L = Some (end_cell (Head l) ns) \<Longrightarrow>
   seg (nodes w) (Head l) (l_head L) ns None \<Longrightarrow> distinct (map fst ns) \<Longrightarrow> list_rep w l ns"
  by (simp add: list_rep_def)

lemma list_repE:
  assumes "list_rep w l ns"
  obtains L where "hlists w l = Some L" "l_tail L = Some (end_cell (Head l) ns)"
    "seg (nodes w) (Head l) (l_head L) ns None" "distinct (map fst ns)"
  using assms by (auto simp: list_rep_def split: option.splits)

lemma list_rep_frame:
  assumes "list_rep w l' ns" "same_outside l A w w'" "l' \<noteq> l" "addrs ns \<inter> A = {}"
  shows "list_rep w' l' ns"
proof -
  have "seg (nodes w') c p ns q = seg (nodes w) c p ns q" for c p q
    using assms(2,4) by (intro seg_cong) (auto simp: same_outside_def)
  moreover have "hlists w' l' = hlists w l'"
    using assms(2,3) by (simp add: same_outside_def)
  ultimately show ?thesis
    using assms(1) by (auto simp: list_rep_def split: option.splits)
qed

lemma heap_rep_list: "heap_rep w M \<Longrightarrow> M l = Some ns \<Longrightarrow> list_rep w l ns"
  and heap_rep_lists: "heap_rep w M \<Longrightarrow> dom (hlists w) = dom M"
  and heap_rep_nodes: "heap_rep w M \<Longrightarrow> a \<in> dom (nodes w) \<longleftrightarrow> (\<exists>l ns. M l = Some ns \<and> a \<in> addrs ns)"
  and heap_rep_bound: "heap_rep w M \<Longrightarrow> a \<in> dom (nodes w) \<union> dom (hlists w) \<Longrightarrow> a < fresh w"
  by (simp_all only: heap_rep_def)

lemma heap_repI:
  assumes "dom (hlists w) = dom M"
    and "\<And>l ns. M l = Some ns \<Longrightarrow> list_rep w l ns"
    and "\<And>l l' ns ns'. M l = Some ns \<Longrightarrow> M l' = Some ns' \<Longrightarrow> l \<noteq> l' \<Longrightarrow> addrs ns \<inter> addrs ns' = {}"
    and "\<And>a. a \<in> dom (nodes w) \<longleftrightarrow> (\<exists>l ns. M l = Some ns \<and> a \<in> addrs ns)"
    and "\<And>a. a \<in> dom (nodes w) \<union> dom (hlists w) \<Longrightarrow> a < fresh w"
  shows "heap_rep w M"
  unfolding heap_rep_def by (intro conjI allI impI ballI) (fact assms)+

lemma heap_rep_disjoint:
  "heap_rep w M \<Longrightarrow> M l = Some ns \<Longrightarrow> M l' = Some ns' \<Longrightarrow> l \<noteq> l' \<Longrightarrow> addrs ns \<inter> addrs ns' = {}"
  by (simp only: heap_rep_def) metis

text \<open>
  The frame rule: an operation that turns the list at \<open>l\<close> from \<open>ns\<close> into \<open>ns'\<close>, takes its
  new nodes from unused addresses, frees the nodes it drops and touches nothing else turns
  the heap \<open>M\<close> into \<open>M(l \<mapsto> ns')\<close>.
\<close>

lemma heap_rep_update:
  assumes M: "heap_rep w M" "M l = Some ns"
    and rep: "list_rep w' l ns'"
    and out: "same_outside l (addrs ns \<union> addrs ns') w w'"
    and new: "addrs ns' - addrs ns \<subseteq> - dom (nodes w)"
    and dropped: "\<And>a. a \<in> addrs ns - addrs ns' \<Longrightarrow> nodes w' a = None"
    and bound: "\<And>a. a \<in> addrs ns' \<Longrightarrow> a < fresh w'" "fresh w \<le> fresh w'"
  shows "heap_rep w' (M(l \<mapsto> ns'))"
proof -
  have dj: "addrs ms \<inter> (addrs ns \<union> addrs ns') = {}" if "M k = Some ms" "k \<noteq> l" for k ms
  proof -
    have "addrs ms \<subseteq> dom (nodes w)"
      using that(1) heap_rep_nodes [OF M(1)] by fast
    with new have "addrs ms \<inter> (addrs ns' - addrs ns) = {}" by fast
    with heap_rep_disjoint [OF M(1) that(1) M(2) that(2)] show ?thesis by auto
  qed
  have others: "list_rep w' k ms" if "M k = Some ms" "k \<noteq> l" for k ms
    using heap_rep_list [OF M(1) that(1)] out that(2) dj [OF that] by (rule list_rep_frame)
  have "l \<in> dom (hlists w')" using rep by (auto simp: list_rep_def split: option.splits)
  then have hl: "dom (hlists w') = dom (M(l \<mapsto> ns'))"
    using out heap_rep_lists [OF M(1)] M(2) by (auto simp: same_outside_def) (metis domI domD)+
  have sub: "addrs ns' \<subseteq> dom (nodes w')"
    using rep by (auto elim!: list_repE dest!: seg_dom)
  have nodes: "a \<in> dom (nodes w') \<longleftrightarrow> (\<exists>k ms. (M(l \<mapsto> ns')) k = Some ms \<and> a \<in> addrs ms)" for a
  proof (cases "a \<in> addrs ns \<union> addrs ns'")
    case True
    then have "a \<notin> addrs ms" if "M k = Some ms" "k \<noteq> l" for k ms
      using dj [OF that] by fast
    then have "(\<exists>k ms. (M(l \<mapsto> ns')) k = Some ms \<and> a \<in> addrs ms) \<longleftrightarrow> a \<in> addrs ns'"
      by (metis fun_upd_other fun_upd_same option.inject)
    then show ?thesis using True sub dropped by (metis Diff_iff Un_iff domIff subsetD)
  next
    case False
    then have "nodes w' a = nodes w a" using out by (auto simp: same_outside_def)
    then have "a \<in> dom (nodes w') \<longleftrightarrow> (\<exists>k ms. M k = Some ms \<and> a \<in> addrs ms)"
      using heap_rep_nodes [OF M(1), of a] by (simp add: domIff)
    also have "\<dots> \<longleftrightarrow> (\<exists>k ms. (M(l \<mapsto> ns')) k = Some ms \<and> a \<in> addrs ms)"
      using False M(2) by (metis UnI1 UnI2 fun_upd_other fun_upd_same option.inject)
    finally show ?thesis .
  qed
  have bnd: "a < fresh w'" if "a \<in> dom (nodes w') \<union> dom (hlists w')" for a
  proof (cases "a \<in> addrs ns'")
    case True
    then show ?thesis by (rule bound(1))
  next
    case notin: False
    have "a \<in> dom (nodes w) \<union> dom (hlists w)"
    proof (cases "a \<in> dom (nodes w')")
      case True
      with notin dropped [of a] have "a \<notin> addrs ns" by (auto simp: domIff)
      with notin out have "nodes w' a = nodes w a" by (simp add: same_outside_def)
      with True show ?thesis by (simp add: domIff)
    next
      case False
      with that have "a \<in> dom (hlists w')" by blast
      with hl heap_rep_lists [OF M(1)] M(2) show ?thesis by auto
    qed
    then have "a < fresh w" using heap_rep_bound [OF M(1)] by blast
    with bound(2) show ?thesis by simp
  qed
  have dj2: "addrs ms \<inter> addrs ms' = {}"
    if "(M(l \<mapsto> ns')) k = Some ms" "(M(l \<mapsto> ns')) k' = Some ms'" "k \<noteq> k'" for k k' ms ms'
  proof -
    consider "k = l" | "k' = l" | "k \<noteq> l" "k' \<noteq> l" by blast
    then show ?thesis
      using that dj [of k ms] dj [of k' ms'] heap_rep_disjoint [OF M(1), of k ms k' ms']
      by cases auto
  qed
  have reps: "list_rep w' k ms" if "(M(l \<mapsto> ns')) k = Some ms" for k ms
    using that rep others [of k ms] by (cases "k = l") auto
  show ?thesis
    by (rule heap_repI) (fact hl, fact reps, fact dj2, fact nodes, fact bnd)
qed

subsection \<open>Correctness of the operations\<close>

lemma set_node_simps [simp]:
  "nodes (set_node a nd w) = (nodes w)(a \<mapsto> nd)" "hlists (set_node a nd w) = hlists w"
  "fresh (set_node a nd w) = fresh w" "answers (set_node a nd w) = answers w"
  "hlists (set_list l L w) = (hlists w)(l \<mapsto> L)" "nodes (set_list l L w) = nodes w"
  "fresh (set_list l L w) = fresh w" "answers (set_list l L w) = answers w"
  by (simp_all add: set_node_def set_list_def)

lemma same_outside_refl [simp]: "same_outside l A w w"
  by (simp add: same_outside_def)

text \<open>Writing through the last cell of a segment re-targets its end.\<close>

lemma store_end_cell:
  assumes "hlists w l = Some L" "seg (nodes w) (Head l) (l_head L) xs q0" "distinct (map fst xs)"
  obtains w1 L1 where "store_cell (Some (end_cell (Head l) xs)) q w = Some w1"
    "hlists w1 l = Some L1" "l_tail L1 = l_tail L" "seg (nodes w1) (Head l) (l_head L1) xs q"
    "same_outside l (addrs xs) w w1" "fresh w1 = fresh w"
proof (cases xs rule: rev_cases)
  case Nil
  with assms(1) show thesis
    by (intro that [of "set_list l (L\<lparr>l_head := q\<rparr>) w" "L\<lparr>l_head := q\<rparr>"])
       (auto simp: same_outside_def)
next
  case (snoc ys x)
  obtain a d where x: "x = (a, d)" by fastforce
  obtain nd where nd: "nodes w a = Some nd"
    and ys: "seg (nodes w) (Head l) (l_head L) ys (Some a)" "a \<notin> addrs ys"
      "n_previous nd = Some (end_cell (Head l) ys)" "n_data nd = d"
    using assms(2,3) by (auto simp: snoc x seg_append split: option.splits)
  show thesis
    by (rule that [of "set_node a (nd\<lparr>n_next := q\<rparr>) w" L])
       (use assms(1) nd ys in \<open>auto simp: snoc x same_outside_def seg_append\<close>)
qed

theorem list_remove_rep:
  assumes rep: "list_rep w l (xs @ (a, d) # ys)"
  obtains w' where "list_remove l (Some a) w = Some (d, w')" "list_rep w' l (xs @ ys)"
    "nodes w' a = None" "same_outside l (addrs (xs @ (a, d) # ys)) w w'" "fresh w' = fresh w"
proof -
  from rep obtain L nd where L: "hlists w l = Some L"
    and xs: "seg (nodes w) (Head l) (l_head L) xs (Some a)"
    and nd: "nodes w a = Some nd" "n_previous nd = Some (end_cell (Head l) xs)" "n_data nd = d"
    and ys: "seg (nodes w) (Next a) (n_next nd) ys None"
    and dist: "distinct (map fst (xs @ (a, d) # ys))"
    and tail: "l_tail L = Some (end_cell (Next a) ys)"
    by (auto elim!: list_repE simp: seg_append split: option.splits)
  obtain w1 L1 where w1: "store_cell (Some (end_cell (Head l) xs)) (n_next nd) w = Some w1"
      "hlists w1 l = Some L1" "l_tail L1 = l_tail L"
      "seg (nodes w1) (Head l) (l_head L1) xs (n_next nd)"
      "same_outside l (addrs xs) w w1" "fresh w1 = fresh w"
    by (rule store_end_cell [OF L xs, of "n_next nd"]) (use dist in simp_all)
  have keep: "nodes w1 b = nodes w b" if "b \<notin> addrs xs" for b
    using w1(5) that by (simp add: same_outside_def)
  show thesis
  proof (cases ys)
    case Nil
    define w' where "w' = (set_list l (L1\<lparr>l_tail := n_previous nd\<rparr>) w1)\<lparr>nodes := (nodes w1)(a := None)\<rparr>"
    have "list_remove l (Some a) w = Some (d, w')"
      using ys tail nd w1 dist keep [of a]
      by (simp add: Nil list_remove_def node_free_def w'_def set_node_def set_list_def)
    moreover have "list_rep w' l (xs @ ys)"
      using w1 dist nd ys by (auto simp: Nil w'_def list_rep_def)
    ultimately show thesis
      by (rule that) (use w1 in \<open>auto simp: w'_def same_outside_def\<close>)
  next
    case (Cons y zs)
    obtain b e where y: "y = (b, e)" by fastforce
    from ys dist obtain bd where bd: "n_next nd = Some b" "nodes w b = Some bd"
        "n_previous bd = Some (Next a)" "n_data bd = e" "seg (nodes w) (Next b) (n_next bd) zs None"
      by (auto simp: Cons y split: option.splits)
    define w' where "w' = (set_node b (bd\<lparr>n_previous := n_previous nd\<rparr>) w1)
       \<lparr>nodes := ((nodes w1)(b \<mapsto> bd\<lparr>n_previous := n_previous nd\<rparr>))(a := None)\<rparr>"
    have na: "l_tail L \<noteq> Some (Next a)"
      using tail dist end_cell_Next [of "Next b" zs a] by (auto simp: Cons y)
    have "list_remove l (Some a) w = Some (d, w')"
      using nd w1 dist keep [of a] keep [of b] bd na
      by (simp add: Cons y list_remove_def node_free_def w'_def set_node_def)
    moreover have "list_rep w' l (xs @ ys)"
    proof -
      have "seg (nodes w1) (Next b) (n_next bd) zs None"
        using bd(5) dist keep by (subst seg_cong [of zs _ "nodes w"]) (auto simp: Cons y)
      then show ?thesis
        using w1 dist nd tail bd by (auto simp: Cons y w'_def list_rep_def seg_append)
    qed
    ultimately show thesis
      by (rule that) (use w1 in \<open>auto simp: w'_def same_outside_def Cons y\<close>)
  qed
qed

lemma node_new_ok:
  assumes "will_succeed w"
  obtains w1 where "node_new w = (Some (fresh w), w1)" "nodes w1 = (nodes w)(fresh w \<mapsto> zero_node)"
    "hlists w1 = hlists w" "fresh w1 = Suc (fresh w)"
  by (cases rule: new_addr_cases [of w]) (use assms in \<open>auto simp: node_new_def\<close>)

lemma node_new_null: "\<not> will_succeed w \<Longrightarrow> fst (node_new w) = None"
  by (cases rule: new_addr_cases [of w]) (auto simp: node_new_def)

lemma list_rep_fresh: "list_rep w l ns \<Longrightarrow> nodes w a = None \<Longrightarrow> a \<notin> addrs ns"
  by (auto elim!: list_repE dest!: seg_dom)

lemma list_push_back_rep:
  assumes rep: "list_rep w l ns" and ok: "will_succeed w" and free: "nodes w (fresh w) = None"
  obtains w' where "list_push_back l d w = Some w'" "list_rep w' l (ns @ [(fresh w, d)])"
    "same_outside l (addrs (ns @ [(fresh w, d)])) w w'" "fresh w' = Suc (fresh w)"
proof -
  let ?a = "fresh w"
  obtain w1 where w1: "node_new w = (Some ?a, w1)" "nodes w1 = (nodes w)(?a \<mapsto> zero_node)"
    "hlists w1 = hlists w" "fresh w1 = Suc ?a" using ok by (rule node_new_ok)
  from rep obtain L where L: "hlists w l = Some L" "l_tail L = Some (end_cell (Head l) ns)"
    "seg (nodes w) (Head l) (l_head L) ns None" "distinct (map fst ns)" by (rule list_repE)
  note na = list_rep_fresh [OF rep free]
  define w2 where "w2 = set_node ?a (zero_node\<lparr>n_data := d\<rparr>) w1"
  have L2: "hlists w2 l = Some L" and S2: "seg (nodes w2) (Head l) (l_head L) ns None"
    using L w1 na by (simp_all add: w2_def)
  obtain w3 L3 where w3: "store_cell (Some (end_cell (Head l) ns)) (Some ?a) w2 = Some w3"
      "hlists w3 l = Some L3" "l_tail L3 = l_tail L"
      "seg (nodes w3) (Head l) (l_head L3) ns (Some ?a)"
      "same_outside l (addrs ns) w2 w3" "fresh w3 = fresh w2"
    by (rule store_end_cell [OF L2 S2 L(4), of "Some ?a"])
  have a3: "nodes w3 ?a = Some (zero_node\<lparr>n_data := d\<rparr>)"
    using w3(5) na by (simp add: same_outside_def w2_def)
  define w' where "w' = set_list l (L3\<lparr>l_tail := Some (Next ?a)\<rparr>)
    (set_node ?a (zero_node\<lparr>n_data := d, n_previous := l_tail L3\<rparr>) w3)"
  have "list_push_back l d w = Some w'"
    using w1 L2 w3 L(2) a3 by (simp add: list_push_back_def w2_def w'_def)
  moreover have "list_rep w' l (ns @ [(?a, d)])"
    using w3 L na by (simp add: list_rep_def w'_def seg_append zero_node_def)
  ultimately show thesis
    by (rule that) (use w3 w1 na in \<open>auto simp: w'_def w2_def same_outside_def\<close>)
qed

lemma list_push_front_rep:
  assumes rep: "list_rep w l ns" and ok: "will_succeed w" and free: "nodes w (fresh w) = None"
  obtains w' where "list_push_front l d w = Some w'" "list_rep w' l ((fresh w, d) # ns)"
    "same_outside l (addrs ((fresh w, d) # ns)) w w'" "fresh w' = Suc (fresh w)"
proof -
  let ?a = "fresh w"
  obtain w1 where w1: "node_new w = (Some ?a, w1)" "nodes w1 = (nodes w)(?a \<mapsto> zero_node)"
    "hlists w1 = hlists w" "fresh w1 = Suc ?a" using ok by (rule node_new_ok)
  from rep obtain L where L: "hlists w l = Some L" "l_tail L = Some (end_cell (Head l) ns)"
    "seg (nodes w) (Head l) (l_head L) ns None" "distinct (map fst ns)" by (rule list_repE)
  note na = list_rep_fresh [OF rep free]
  let ?nd = "zero_node\<lparr>n_data := d, n_next := l_head L, n_previous := Some (Head l)\<rparr>"
  show thesis
  proof (cases ns)
    case Nil
    define w' where "w' = set_list l (L\<lparr>l_tail := Some (Next ?a), l_head := Some ?a\<rparr>)
      (set_list l (L\<lparr>l_tail := Some (Next ?a)\<rparr>) (set_node ?a ?nd w1))"
    have "list_push_front l d w = Some w'"
      using w1 L by (simp add: list_push_front_def w'_def Nil)
    moreover have "list_rep w' l ((?a, d) # ns)"
      using L by (simp add: list_rep_def w'_def Nil zero_node_def)
    ultimately show thesis
      by (rule that) (use w1 in \<open>auto simp: w'_def same_outside_def Nil\<close>)
  next
    case (Cons y ys)
    obtain b e where y: "y = (b, e)" by fastforce
    from L(3) obtain bd where bd: "l_head L = Some b" "nodes w b = Some bd" "n_data bd = e"
        "n_previous bd = Some (Head l)" "seg (nodes w) (Next b) (n_next bd) ys None"
      by (auto simp: Cons y split: option.splits)
    define w' where "w' = set_list l (L\<lparr>l_head := Some ?a\<rparr>)
      (set_node b (bd\<lparr>n_previous := Some (Next ?a)\<rparr>) (set_node ?a ?nd w1))"
    have "list_push_front l d w = Some w'"
      using w1 L bd na by (auto simp: list_push_front_def w'_def Cons y)
    moreover have "list_rep w' l ((?a, d) # ns)"
      using L bd na w1 by (auto simp: list_rep_def w'_def Cons y zero_node_def)
    ultimately show thesis
      by (rule that) (use w1 in \<open>auto simp: w'_def same_outside_def Cons y\<close>)
  qed
qed

lemma list_push_before_rep:
  assumes rep: "list_rep w l (xs @ (b, e) # ys)" and ok: "will_succeed w"
    and free: "nodes w (fresh w) = None"
  obtains w' where "list_push_before l (Some b) d w = Some w'"
    "list_rep w' l (xs @ (fresh w, d) # (b, e) # ys)"
    "same_outside l (addrs (xs @ (fresh w, d) # (b, e) # ys)) w w'" "fresh w' = Suc (fresh w)"
proof -
  let ?a = "fresh w"
  obtain w1 where w1: "node_new w = (Some ?a, w1)" "nodes w1 = (nodes w)(?a \<mapsto> zero_node)"
    "hlists w1 = hlists w" "fresh w1 = Suc ?a" using ok by (rule node_new_ok)
  from rep obtain L bd where L: "hlists w l = Some L"
      "l_tail L = Some (end_cell (Next b) ys)"
    and xs: "seg (nodes w) (Head l) (l_head L) xs (Some b)"
    and bd: "nodes w b = Some bd" "n_previous bd = Some (end_cell (Head l) xs)" "n_data bd = e"
    and ys: "seg (nodes w) (Next b) (n_next bd) ys None"
    and dist: "distinct (map fst (xs @ (b, e) # ys))"
    by (auto elim!: list_repE simp: seg_append split: option.splits)
  have na: "?a \<notin> addrs xs" "?a \<noteq> b" "?a \<notin> addrs ys"
    using list_rep_fresh [OF rep free] by auto
  define nd where "nd = zero_node\<lparr>n_data := d, n_next := Some b, n_previous := n_previous bd\<rparr>"
  define w2 where "w2 = set_node ?a nd w1"
  have L2: "hlists w2 l = Some L" and S2: "seg (nodes w2) (Head l) (l_head L) xs (Some b)"
    using L w1 xs na by (simp_all add: w2_def)
  obtain w3 L3 where w3: "store_cell (Some (end_cell (Head l) xs)) (Some ?a) w2 = Some w3"
      "hlists w3 l = Some L3" "l_tail L3 = l_tail L"
      "seg (nodes w3) (Head l) (l_head L3) xs (Some ?a)"
      "same_outside l (addrs xs) w2 w3" "fresh w3 = fresh w2"
    by (rule store_end_cell [OF L2 S2, of "Some ?a"]) (use dist in simp_all)
  have keep: "nodes w3 c = nodes w2 c" if "c \<notin> addrs xs" for c
    using w3(5) that by (simp add: same_outside_def)
  have b3: "nodes w3 b = Some bd" and a3: "nodes w3 ?a = Some nd"
    using keep [of b] keep [of ?a] dist na bd w1 by (auto simp: w2_def)
  define w' where "w' = set_node b (bd\<lparr>n_previous := Some (Next ?a)\<rparr>) w3"
  have "list_push_before l (Some b) d w = Some w'"
    using w1 bd na w3 b3 by (simp add: list_push_before_def w2_def w'_def nd_def)
  moreover have "list_rep w' l (xs @ (?a, d) # (b, e) # ys)"
  proof -
    have "seg (nodes w3) (Next b) (n_next bd) ys None"
    proof (subst seg_cong [of ys _ "nodes w"])
      fix c assume c: "c \<in> addrs ys"
      then have "c \<notin> addrs xs" "c \<noteq> ?a" using dist na(3) by auto
      then show "nodes w3 c = nodes w c" using keep [of c] w1(2) by (simp add: w2_def)
    qed (fact ys)
    then show ?thesis
      using w3 L dist bd na a3 by (auto simp: w'_def list_rep_def seg_append nd_def zero_node_def)
  qed
  ultimately show thesis
    by (rule that) (use w1 w3 in \<open>auto simp: w'_def w2_def same_outside_def\<close>)
qed

subsection \<open>The operations on a whole heap\<close>

lemma heap_rep_free: "heap_rep w M \<Longrightarrow> nodes w (fresh w) = None"
  using heap_rep_bound by (metis UnI1 domIff less_irrefl)

lemma heap_rep_addr_bound: "heap_rep w M \<Longrightarrow> M l = Some ns \<Longrightarrow> a \<in> addrs ns \<Longrightarrow> a < fresh w"
  using heap_rep_bound heap_rep_nodes by (metis UnI1)

text \<open>
  The common step of the three insertions: the new list is the old one with the fresh node
  somewhere in it.
\<close>

lemma heap_rep_insert:
  assumes M: "heap_rep w M" "M l = Some ns"
    and w': "list_rep w' l ns'" "same_outside l (addrs ns') w w'" "fresh w' = Suc (fresh w)"
    and ns': "addrs ns' = insert (fresh w) (addrs ns)"
  shows "heap_rep w' (M(l \<mapsto> ns'))"
proof (rule heap_rep_update [OF M w'(1)])
  show "same_outside l (addrs ns \<union> addrs ns') w w'"
    using w'(2) ns' by (auto simp: same_outside_def)
  show "addrs ns' - addrs ns \<subseteq> - dom (nodes w)"
    using heap_rep_free [OF M(1)] by (auto simp: ns')
  show "\<And>a. a \<in> addrs ns' \<Longrightarrow> a < fresh w'"
    using heap_rep_addr_bound [OF M] by (auto simp: ns' w'(3) less_Suc_eq)
qed (use w' ns' in auto)

lemma heap_rep_remove:
  assumes M: "heap_rep w M" "M l = Some ns"
    and w': "list_rep w' l ns'" "same_outside l (addrs ns) w w'" "fresh w' = fresh w"
    and ns': "addrs ns = insert a (addrs ns')" "nodes w' a = None"
  shows "heap_rep w' (M(l \<mapsto> ns'))"
proof (rule heap_rep_update [OF M w'(1)])
  show "same_outside l (addrs ns \<union> addrs ns') w w'"
    using w'(2) ns' by (auto simp: same_outside_def)
  show "\<And>a. a \<in> addrs ns' \<Longrightarrow> a < fresh w'"
    using heap_rep_addr_bound [OF M] by (simp add: ns' w'(3))
qed (use w' ns' in auto)

text \<open>The operations on the whole heap.\<close>

lemma list_push_back_heap:
  assumes "heap_rep w M" "M l = Some ns" "will_succeed w"
  obtains w' where "list_push_back l d w = Some w'" "heap_rep w' (M(l \<mapsto> ns @ [(fresh w, d)]))" "fresh w' = Suc (fresh w)"
  by (rule list_push_back_rep [OF heap_rep_list [OF assms(1,2)] assms(3) heap_rep_free [OF assms(1)], of d])
     (use heap_rep_insert [OF assms(1,2)] that in fastforce)

lemma list_push_front_heap:
  assumes "heap_rep w M" "M l = Some ns" "will_succeed w"
  obtains w' where "list_push_front l d w = Some w'" "heap_rep w' (M(l \<mapsto> (fresh w, d) # ns))" "fresh w' = Suc (fresh w)"
  by (rule list_push_front_rep [OF heap_rep_list [OF assms(1,2)] assms(3) heap_rep_free [OF assms(1)], of d])
     (use heap_rep_insert [OF assms(1,2)] that in fastforce)

lemma list_push_before_heap:
  assumes "heap_rep w M" "M l = Some (xs @ (b, e) # ys)" "will_succeed w"
  obtains w' where "list_push_before l (Some b) d w = Some w'" "heap_rep w' (M(l \<mapsto> xs @ (fresh w, d) # (b, e) # ys))"
    "fresh w' = Suc (fresh w)"
  by (rule list_push_before_rep [OF heap_rep_list [OF assms(1,2)] assms(3) heap_rep_free [OF assms(1)], of d])
     (use heap_rep_insert [OF assms(1,2)] that in fastforce)

lemma list_remove_heap:
  assumes "heap_rep w M" "M l = Some (xs @ (a, d) # ys)"
  obtains w' where "list_remove l (Some a) w = Some (d, w')" "heap_rep w' (M(l \<mapsto> xs @ ys))" "nodes w' a = None"
    "fresh w' = fresh w"
proof -
  obtain w' where w': "list_remove l (Some a) w = Some (d, w')" "list_rep w' l (xs @ ys)"
    "nodes w' a = None" "same_outside l (addrs (xs @ (a, d) # ys)) w w'" "fresh w' = fresh w"
    by (rule list_remove_rep [OF heap_rep_list [OF assms]])
  have "heap_rep w' (M(l \<mapsto> xs @ ys))"
    by (rule heap_rep_remove [OF assms w'(2,4,5), of a]) (use w' in auto)
  with w' that show thesis by blast
qed

text \<open>Another object of the heap is allocated.\<close>

lemma heap_rep_other:
  assumes "heap_rep w M"
  shows "heap_rep (w\<lparr>answers := bs, fresh := Suc (fresh w)\<rparr>) M"
proof -
  have "list_rep (w\<lparr>answers := bs, fresh := Suc (fresh w)\<rparr>) l ns = list_rep w l ns" for l ns
    by (simp add: list_rep_def cong: option.case_cong)
  with assms show ?thesis by (auto simp: heap_rep_def less_Suc_eq)
qed

text \<open>Which answers of the allocator the operations use up.\<close>

lemma answers_set [simp]:
  "answers (set_node a nd w) = answers w" "answers (set_list l L w) = answers w"
  by (simp_all add: set_node_def set_list_def)

lemma answers_store_cell: "store_cell c p w = Some w' \<Longrightarrow> answers w' = answers w"
  by (induction c p w rule: store_cell.induct) (auto simp: bind_eq_Some_conv)

lemma answers_node_new: "node_new w = (p, w') \<Longrightarrow> answers w' = tl (answers w)"
  by (auto simp: node_new_def new_addr_def ask_def split: if_splits)

lemma answers_node_free: "node_free p w = Some w' \<Longrightarrow> answers w' = answers w"
  by (auto simp: node_free_def Let_def bind_eq_Some_conv split: option.splits)

lemma answers_list_push_back: "list_push_back l d w = Some w' \<Longrightarrow> answers w' = tl (answers w)"
  by (auto simp: list_push_back_def Let_def bind_eq_Some_conv split: prod.splits option.splits
      dest!: answers_store_cell answers_node_new)

lemma answers_list_push_front: "list_push_front l d w = Some w' \<Longrightarrow> answers w' = tl (answers w)"
  by (auto simp: list_push_front_def Let_def bind_eq_Some_conv split: prod.splits option.splits
      dest!: answers_node_new)

lemma answers_list_push_before: "list_push_before l q d w = Some w' \<Longrightarrow> answers w' = tl (answers w)"
  by (auto simp: list_push_before_def Let_def bind_eq_Some_conv split: prod.splits option.splits
      dest!: answers_store_cell answers_node_new answers_list_push_back)

lemma answers_list_remove: "list_remove l p w = Some (d, w') \<Longrightarrow> answers w' = answers w"
  by (auto simp: list_remove_def Let_def bind_eq_Some_conv split: option.splits if_splits
      dest!: answers_store_cell answers_node_free)

lemma fresh_list_remove: "list_remove l p w = Some (d, w') \<Longrightarrow> fresh w' = fresh w"
proof -
  have cell: "store_cell c p w = Some w' \<Longrightarrow> fresh w' = fresh w" for c p w w'
    by (induction c p w rule: store_cell.induct) (auto simp: set_node_def set_list_def bind_eq_Some_conv)
  have free: "node_free p w = Some w' \<Longrightarrow> fresh w' = fresh w" for p w w'
    by (auto simp: node_free_def set_node_def Let_def bind_eq_Some_conv split: option.splits)
  show "list_remove l p w = Some (d, w') \<Longrightarrow> fresh w' = fresh w"
    by (auto simp: list_remove_def set_node_def set_list_def Let_def bind_eq_Some_conv split: option.splits if_splits
        dest!: cell free)
qed

lemma fresh_list_pop_front: "list_pop_front l w = Some (d, w') \<Longrightarrow> fresh w' = fresh w"
  by (auto simp: list_pop_front_def bind_eq_Some_conv dest: fresh_list_remove)

lemma answers_list_pop_front: "list_pop_front l w = Some (d, w') \<Longrightarrow> answers w' = answers w"
  by (auto simp: list_pop_front_def bind_eq_Some_conv dest: answers_list_remove)

lemma list_new_heap:
  assumes M: "heap_rep w M" and ok: "will_succeed w"
  obtains w' where "list_new w = (Some (fresh w), w')" "heap_rep w' (M(fresh w \<mapsto> []))" "M (fresh w) = None"
proof -
  let ?l = "fresh w"
  let ?w = "w\<lparr>answers := tl (answers w), fresh := Suc ?l\<rparr>"
  note na = new_addr_ok [OF ok]
  have notin: "?l \<notin> dom (hlists w)" using heap_rep_bound [OF M] by blast
  then have Ml: "M ?l = None" using heap_rep_lists [OF M] by auto
  define w' where "w' = set_list ?l (zero_list\<lparr>l_tail := Some (Head ?l)\<rparr>) ?w"
  have same: "list_rep w' k ns = list_rep w k ns" if "k \<noteq> ?l" for k ns
  proof -
    have "nodes w' = nodes w" "hlists w' k = hlists w k" using that by (simp_all add: w'_def)
    then show ?thesis by (simp only: list_rep_def)
  qed
  have "heap_rep w' (M(?l \<mapsto> []))"
  proof (rule heap_repI)
    show "dom (hlists w') = dom (M(?l \<mapsto> []))"
      using heap_rep_lists [OF M] by (simp add: w'_def)
    show "list_rep w' k ns" if "(M(?l \<mapsto> [])) k = Some ns" for k ns
      using that heap_rep_list [OF M, of k ns] same [of k ns]
      by (cases "k = ?l") (auto simp: w'_def list_rep_def zero_list_def)
    show "addrs ns \<inter> addrs ns' = {}"
      if "(M(?l \<mapsto> [])) k = Some ns" "(M(?l \<mapsto> [])) k' = Some ns'" "k \<noteq> k'" for k k' ns ns'
      using that heap_rep_disjoint [OF M, of k ns k' ns'] by (auto split: if_splits)
    show "a \<in> dom (nodes w') \<longleftrightarrow> (\<exists>k ns. (M(?l \<mapsto> [])) k = Some ns \<and> a \<in> addrs ns)" for a
    proof -
      have "(\<exists>k ns. (M(?l \<mapsto> [])) k = Some ns \<and> a \<in> addrs ns) \<longleftrightarrow> (\<exists>k ns. M k = Some ns \<and> a \<in> addrs ns)"
        using Ml by (metis addrs_simps(1) empty_iff fun_upd_apply option.distinct(1) option.inject)
      then show ?thesis using heap_rep_nodes [OF M, of a] by (simp add: w'_def)
    qed
    show "a < fresh w'" if "a \<in> dom (nodes w') \<union> dom (hlists w')" for a
    proof -
      from that have "a = ?l \<or> a \<in> dom (nodes w) \<union> dom (hlists w)" by (auto simp: w'_def)
      then show ?thesis using heap_rep_bound [OF M, of a] by (auto simp: w'_def less_Suc_eq)
    qed
  qed
  moreover have "list_new w = (Some ?l, w')"
    by (simp add: list_new_def na w'_def)
  ultimately show thesis using Ml by (intro that [of w']) auto
qed

lemma list_pop_front_heap:
  assumes M: "heap_rep w M" "M l = Some ((a, d) # ns)"
  obtains w' where "list_pop_front l w = Some (d, w')" "heap_rep w' (M(l \<mapsto> ns))"
proof -
  from heap_rep_list [OF M] obtain L where L: "hlists w l = Some L" "l_head L = Some a"
    by (auto elim!: list_repE)
  obtain w' where "list_remove l (Some a) w = Some (d, w')" "list_rep w' l ns"
      "nodes w' a = None" "same_outside l (addrs ((a, d) # ns)) w w'" "fresh w' = fresh w"
    by (rule list_remove_rep [of w l "[]" a d ns]) (use heap_rep_list [OF M] in simp_all)
  moreover from this M have "heap_rep w' (M(l \<mapsto> ns))"
    by (intro heap_rep_remove [OF M, of w' ns a]) auto
  ultimately show thesis using L by (intro that) (auto simp: list_pop_front_def)
qed

lemma list_pop_front_empty:
  assumes "heap_rep w M" "M l = Some []"
  shows "list_pop_front l w = Some (None, w)"
proof -
  from heap_rep_list [OF assms] obtain L where "hlists w l = Some L" "l_head L = None"
    by (auto elim!: list_repE)
  then show ?thesis by (simp add: list_pop_front_def list_remove_def)
qed

text \<open>The drain loop stops at the end of the list, or after a node whose data is \<open>NULL\<close>.\<close>

fun after_null :: "(addr \<times> ptr) list \<Rightarrow> (addr \<times> ptr) list" where
  "after_null [] = []"
| "after_null ((a, None) # ns) = ns"
| "after_null ((a, Some d) # ns) = after_null ns"

lemma list_drain_heap:
  assumes "heap_rep w M" "M l = Some ns"
  shows "\<exists>w'. list_drain l w = Some w' \<and> heap_rep w' (M(l \<mapsto> after_null ns))"
  using assms
proof (induction ns arbitrary: w M)
  case Nil
  then have "list_drain l w = Some w" "M(l \<mapsto> after_null []) = M"
    by (auto simp: list_drain.simps list_pop_front_empty)
  with Nil show ?case by auto
next
  case (Cons x ns)
  obtain a d where x: "x = (a, d)" by fastforce
  obtain w1 where w1: "list_pop_front l w = Some (d, w1)" "heap_rep w1 (M(l \<mapsto> ns))"
    using list_pop_front_heap [of w M l a d ns] Cons.prems by (auto simp: x)
  show ?case
  proof (cases d)
    case None
    then have drain: "list_drain l w = Some w1" and rest: "after_null (x # ns) = ns"
      using w1(1) by (simp_all add: list_drain.simps [of l w] x)
    from drain w1(2) show ?thesis unfolding rest by blast
  next
    case (Some b)
    then have drain: "list_drain l w = list_drain l w1" and rest: "after_null (x # ns) = after_null ns"
      using w1(1) by (simp_all add: list_drain.simps [of l w] x)
    from Cons.IH [OF w1(2) fun_upd_same] show ?thesis
      unfolding drain rest fun_upd_upd .
  qed
qed

lemma list_foreach_find_seg:
  "seg N c p ns None \<Longrightarrow> list_foreach_find N p d = Some (map_option fst (List.find (\<lambda>x. snd x = d) ns))"
proof (induction ns arbitrary: c p)
  case Nil
  then show ?case by (simp add: list_foreach_find.simps)
next
  case (Cons x ns)
  obtain a e where x: "x = (a, e)" by fastforce
  from Cons.prems obtain nd where "p = Some a" "N a = Some nd" "n_data nd = e"
    "seg N (Next a) (n_next nd) ns None" by (auto simp: x split: option.splits)
  with Cons.IH [of "Next a" "n_next nd"] show ?case
    by (subst list_foreach_find.simps) (simp add: x)
qed

lemma seg_previous:
  "seg N c p (xs @ (a, d) # ys) q \<Longrightarrow> N a = Some nd \<Longrightarrow> n_previous nd = Some (end_cell c xs)"
  by (auto simp: seg_append split: option.splits)

lemma end_cell_snoc: "ns \<noteq> [] \<Longrightarrow> end_cell c ns = Next (fst (last ns))"
  by (induction c ns rule: end_cell.induct) (auto split: if_splits)

subsection \<open>The list as a queue of values\<close>

definition queue_rep :: "list_heap \<Rightarrow> addr \<Rightarrow> (addr \<times> ptr) list \<Rightarrow> bool" where
  "queue_rep w l ns \<longleftrightarrow> (\<exists>M. heap_rep w M \<and> M l = Some ns)"

definition list_find_node :: "addr \<Rightarrow> ptr \<Rightarrow> list_heap \<Rightarrow> ptr option" where
  "list_find_node l d w = do { L \<leftarrow> hlists w l; list_foreach_find (nodes w) (l_head L) d }"

interpretation list_queue: value_queue queue_rep will_succeed list_push_back list_find_node
  "\<lambda>l n. list_remove l (Some n)"
proof unfold_locales
  fix w l ns and d :: ptr
  assume "queue_rep w l ns" and ok: "will_succeed w"
  then obtain M where M: "heap_rep w M" "M l = Some ns" by (auto simp: queue_rep_def)
  obtain w' where w': "list_push_back l d w = Some w'" "heap_rep w' (M(l \<mapsto> ns @ [(fresh w, d)]))"
    by (rule list_push_back_heap [OF M ok])
  with w'(1) show "\<exists>w' n. list_push_back l d w = Some w' \<and> queue_rep w' l (ns @ [(n, d)])"
    by (auto simp: queue_rep_def intro!: exI [of _ "fresh w"])
next
  fix w l ns and d :: ptr
  assume "queue_rep w l ns"
  then show "list_find_node l d w = Some (map_option fst (List.find (\<lambda>x. snd x = d) ns))"
    by (auto simp: queue_rep_def list_find_node_def list_foreach_find_seg elim!: list_repE
        dest!: heap_rep_list)
next
  fix w l xs n and d :: ptr and ys
  assume "queue_rep w l (xs @ (n, d) # ys)"
  then obtain M where M: "heap_rep w M" "M l = Some (xs @ (n, d) # ys)" by (auto simp: queue_rep_def)
  obtain w' where w': "list_remove l (Some n) w = Some (d, w')" "heap_rep w' (M(l \<mapsto> xs @ ys))"
    by (rule list_remove_heap [OF M])
  with w'(1) show "\<exists>w'. list_remove l (Some n) w = Some (d, w') \<and> queue_rep w' l (xs @ ys)"
    by (auto simp: queue_rep_def)
qed

subsection \<open>Properties\<close>

definition empty_heap :: list_heap where
  "empty_heap = \<lparr>answers = [], fresh = 0, nodes = Map.empty, hlists = Map.empty\<rparr>"

lemma heap_rep_empty: "heap_rep empty_heap Map.empty"
  by (simp add: heap_rep_def empty_heap_def)

text \<open>A heap with one list at address 0 holding the values 7 and 9 (nodes 1 and 2).\<close>

definition sample_heap :: list_heap where
  "sample_heap = \<lparr>answers = [], fresh = 3,
     nodes = [1 \<mapsto> \<lparr>n_next = Some 2, n_previous = Some (Head 0), n_data = Some 7\<rparr>,
              2 \<mapsto> \<lparr>n_next = None, n_previous = Some (Next 1), n_data = Some 9\<rparr>],
     hlists = [0 \<mapsto> \<lparr>l_head = Some 1, l_tail = Some (Next 2)\<rparr>]\<rparr>"

lemma sample_heap_rep: "heap_rep sample_heap [0 \<mapsto> [(1, Some 7), (2, Some 9)]]"
  by (rule heap_repI) (auto simp: sample_heap_def list_rep_def split: if_splits)

lemma heap_rep_delete:
  assumes "heap_rep w (M(l \<mapsto> []))"
  shows "heap_rep (w\<lparr>hlists := (hlists w)(l := None)\<rparr>) (M(l := None))"
proof (rule heap_repI)
  let ?w = "w\<lparr>hlists := (hlists w)(l := None)\<rparr>"
  show "dom (hlists ?w) = dom (M(l := None))"
    using heap_rep_lists [OF assms] by auto
  show "list_rep ?w k ns" if k: "(M(l := None)) k = Some ns" for k ns
  proof -
    from k have "k \<noteq> l" "M k = Some ns" by (auto split: if_splits)
    with heap_rep_list [OF assms, of k ns] have "list_rep w k ns" by simp
    moreover have "nodes ?w = nodes w" "hlists ?w k = hlists w k" using \<open>k \<noteq> l\<close> by simp_all
    ultimately show ?thesis by (simp only: list_rep_def)
  qed
  show "addrs ns \<inter> addrs ns' = {}"
    if "(M(l := None)) k = Some ns" "(M(l := None)) k' = Some ns'" "k \<noteq> k'" for k k' ns ns'
    using that heap_rep_disjoint [OF assms, of k ns k' ns'] by (auto split: if_splits)
  show "a \<in> dom (nodes ?w) \<longleftrightarrow> (\<exists>k ns. (M(l := None)) k = Some ns \<and> a \<in> addrs ns)" for a
  proof -
    have "(\<exists>k ns. (M(l \<mapsto> [])) k = Some ns \<and> a \<in> addrs ns) \<longleftrightarrow>
          (\<exists>k ns. (M(l := None)) k = Some ns \<and> a \<in> addrs ns)"
      by (metis addrs_simps(1) empty_iff fun_upd_apply option.distinct(1) option.inject)
    then show ?thesis using heap_rep_nodes [OF assms, of a] by simp
  qed
  show "a < fresh ?w" if "a \<in> dom (nodes ?w) \<union> dom (hlists ?w)" for a
  proof -
    from that have "a \<in> dom (nodes w) \<union> dom (hlists w)" by (auto split: if_splits)
    then show ?thesis using heap_rep_bound [OF assms] by simp
  qed
qed

lemma ex_entry_upd:
  "(\<exists>k ms. (M(l \<mapsto> v)) k = Some ms \<and> P ms) \<longleftrightarrow> P v \<or> (\<exists>k ms. k \<noteq> l \<and> M k = Some ms \<and> P ms)"
  by (auto simp: fun_upd_apply split: if_splits)

lemma ex_entry:
  "M l = Some v \<Longrightarrow>
   (\<exists>k ms. M k = Some ms \<and> P ms) \<longleftrightarrow> P v \<or> (\<exists>k ms. k \<noteq> l \<and> M k = Some ms \<and> P ms)"
  by (metis option.inject)

lemma after_null_none: "\<forall>x \<in> set ns. snd x \<noteq> None \<Longrightarrow> after_null ns = []"
  by (induction ns rule: after_null.induct) auto

lemma after_null_sub: "addrs (after_null ns) \<subseteq> addrs ns"
  by (induction ns rule: after_null.induct) auto

text \<open>C20. Each of the three insertions, on a heap where every node belongs to exactly one list,
  returns a heap with the same lists except that the one inserted into has the new datum at
  the end, at the front, or right before the given node, in a node at an unused address;
  no other list is touched and no node is lost.\<close>

theorem list_insertions_refine:
  assumes M: "heap_rep w M" "M l = Some ns" and ok: "will_succeed w"
  shows "(\<exists>w'. list_push_back l d w = Some w' \<and> heap_rep w' (M(l \<mapsto> ns @ [(fresh w, d)]))) \<and>
         (\<exists>w'. list_push_front l d w = Some w' \<and> heap_rep w' (M(l \<mapsto> (fresh w, d) # ns))) \<and>
         (\<forall>xs b e ys. ns = xs @ (b, e) # ys \<longrightarrow>
            (\<exists>w'. list_push_before l (Some b) d w = Some w' \<and>
                  heap_rep w' (M(l \<mapsto> xs @ (fresh w, d) # (b, e) # ys))))"
proof (intro conjI allI impI)
  show "\<exists>w'. list_push_back l d w = Some w' \<and> heap_rep w' (M(l \<mapsto> ns @ [(fresh w, d)]))"
    by (rule list_push_back_heap [OF M ok]) blast
  show "\<exists>w'. list_push_front l d w = Some w' \<and> heap_rep w' (M(l \<mapsto> (fresh w, d) # ns))"
    by (rule list_push_front_heap [OF M ok]) blast
  show "\<exists>w'. list_push_before l (Some b) d w = Some w' \<and>
             heap_rep w' (M(l \<mapsto> xs @ (fresh w, d) # (b, e) # ys))"
    if "ns = xs @ (b, e) # ys" for xs b e ys
    by (rule list_push_before_heap [OF M(1) M(2) [unfolded that] ok]) blast
qed

theorem list_insertions_refine_witness:
  "\<exists>w'. list_push_before 0 (Some 2) (Some 8) sample_heap = Some w' \<and>
     heap_rep w' [0 \<mapsto> [(1, Some 7), (3, Some 8), (2, Some 9)]]"
proof -
  have "will_succeed sample_heap" by (simp add: will_succeed_def sample_heap_def)
  then have "\<forall>xs b e ys. [(1, Some 7), (2, Some 9)] = xs @ (b, e) # ys \<longrightarrow>
    (\<exists>w'. list_push_before 0 (Some b) (Some 8) sample_heap = Some w' \<and>
          heap_rep w' ([0 \<mapsto> [(1, Some 7), (2, Some 9)], 0 \<mapsto> xs @ (fresh sample_heap, Some 8) # (b, e) # ys]))"
    using list_insertions_refine [OF sample_heap_rep, of 0 _ "Some 8"] by simp
  from this [rule_format, of "[(1, Some 7)]" 2 "Some 9" "[]"] show ?thesis
    by (simp add: sample_heap_def)
qed

text \<open>C21. Removing a node that is in a list returns its datum, frees exactly that node and
  leaves the list without it and every other list unchanged, wherever in the list it is.\<close>

theorem list_remove_refines:
  assumes M: "heap_rep w M" "M l = Some (xs @ (a, d) # ys)"
  shows "\<exists>w'. list_remove l (Some a) w = Some (d, w') \<and> heap_rep w' (M(l \<mapsto> xs @ ys)) \<and>
              nodes w' a = None"
  by (rule list_remove_heap [OF M]) blast

theorem list_remove_refines_witness:
  "\<exists>w'. list_remove 0 (Some 2) sample_heap = Some (Some 9, w') \<and>
        heap_rep w' ([0 \<mapsto> [(1, Some 7)]]) \<and> nodes w' 2 = None"
  using list_remove_refines [OF sample_heap_rep, of 0 "[(1, Some 7)]" 2 "Some 9" "[]"] by simp

text \<open>C22. \<open>list_free\<close> always returns. When no datum is \<open>NULL\<close> it frees every node and the
  list itself and nothing else. In general it stops after the first node whose datum is
  \<open>NULL\<close>: the list is freed, and the nodes after that one stay allocated.\<close>

theorem list_free_refines:
  assumes M: "heap_rep w M" "M l = Some ns"
  shows "\<exists>w'. list_free (Some l) w = Some w' \<and> hlists w' l = None \<and>
           (\<forall>a. nodes w' a \<noteq> None \<longleftrightarrow>
                nodes w a \<noteq> None \<and> (a \<in> addrs ns \<longrightarrow> a \<in> addrs (after_null ns))) \<and>
           ((\<forall>x \<in> set ns. snd x \<noteq> None) \<longrightarrow> heap_rep w' (M(l := None)))"
proof -
  obtain w1 where w1: "list_drain l w = Some w1" "heap_rep w1 (M(l \<mapsto> after_null ns))"
    using list_drain_heap [OF M] by blast
  have "l \<in> dom (hlists w1)" using heap_rep_lists [OF w1(2)] by simp
  then obtain L where L: "hlists w1 l = Some L" by blast
  define w' where "w' = w1\<lparr>hlists := (hlists w1)(l := None)\<rparr>"
  have "list_free (Some l) w = Some w'"
    using w1(1) L by (simp add: list_free_def w'_def)
  moreover have "nodes w' a \<noteq> None \<longleftrightarrow>
      nodes w a \<noteq> None \<and> (a \<in> addrs ns \<longrightarrow> a \<in> addrs (after_null ns))" for a
  proof -
    have "nodes w' a \<noteq> None \<longleftrightarrow> (\<exists>k ms. (M(l \<mapsto> after_null ns)) k = Some ms \<and> a \<in> addrs ms)"
      using heap_rep_nodes [OF w1(2), of a] by (simp add: w'_def domIff)
    also have "\<dots> \<longleftrightarrow> (\<exists>k ms. M k = Some ms \<and> a \<in> addrs ms) \<and> (a \<in> addrs ns \<longrightarrow> a \<in> addrs (after_null ns))"
    proof -
      have "a \<notin> addrs ns" if "k \<noteq> l" "M k = Some ms" "a \<in> addrs ms" for k ms
        using that heap_rep_disjoint [OF M(1) that(2) M(2) that(1)] by blast
      then show ?thesis
        unfolding ex_entry_upd ex_entry [of M, OF M(2)] using after_null_sub [of ns] by blast
    qed
    finally show ?thesis using heap_rep_nodes [OF M(1), of a] by (simp add: domIff)
  qed
  moreover have "heap_rep w' (M(l := None))" if "\<forall>x \<in> set ns. snd x \<noteq> None"
    using heap_rep_delete [of w1 M l] w1(2) after_null_none [OF that] by (simp add: w'_def)
  ultimately show ?thesis by (intro exI [of _ w']) (simp add: w'_def)
qed

theorem list_free_refines_witness:
  "\<exists>w'. list_free (Some 0) sample_heap = Some w' \<and> heap_rep w' Map.empty"
  using list_free_refines [OF sample_heap_rep, of 0] by auto

text \<open>C23. The accessors of the header: head, tail, next, previous and data of a list are the
  neighbours in the abstract sequence, the ends being \<open>NULL\<close>.\<close>

theorem list_accessors_correct:
  assumes M: "heap_rep w M" "M l = Some ns"
  shows "list_head l w = Some (case ns of [] \<Rightarrow> None | x # _ \<Rightarrow> Some (fst x)) \<and>
         list_tail l w = Some (if ns = [] then None else Some (fst (last ns))) \<and>
         (\<forall>xs a d ys. ns = xs @ (a, d) # ys \<longrightarrow>
            node_data (Some a) w = Some d \<and>
            list_next l (Some a) w = Some (case ys of [] \<Rightarrow> None | x # _ \<Rightarrow> Some (fst x)) \<and>
            list_previous l (Some a) w = Some (if xs = [] then None else Some (fst (last xs))))"
proof -
  from heap_rep_list [OF M] obtain L where L: "hlists w l = Some L"
    "l_tail L = Some (end_cell (Head l) ns)" "seg (nodes w) (Head l) (l_head L) ns None"
    by (rule list_repE)
  have first: "p = (case us of [] \<Rightarrow> None | x # _ \<Rightarrow> Some (fst x))" if "seg N c p us None" for N c p us
    using that by (cases us) auto
  have tail: "list_tail l w = Some (if ns = [] then None else Some (fst (last ns)))"
    using L by (auto simp: list_tail_def end_cell_snoc)
  have "node_data (Some a) w = Some d \<and>
        list_next l (Some a) w = Some (case ys of [] \<Rightarrow> None | x # _ \<Rightarrow> Some (fst x)) \<and>
        list_previous l (Some a) w = Some (if xs = [] then None else Some (fst (last xs)))"
    if ns: "ns = xs @ (a, d) # ys" for xs a d ys
  proof -
    from L(3) obtain nd where nd: "nodes w a = Some nd" "n_data nd = d"
        "n_previous nd = Some (end_cell (Head l) xs)" "seg (nodes w) (Next a) (n_next nd) ys None"
      by (auto simp: ns seg_append split: option.splits)
    then show ?thesis
      using first [OF nd(4)] by (auto simp: node_data_def list_next_def list_previous_def end_cell_snoc)
  qed
  with L first [OF L(3)] tail show ?thesis by (simp add: list_head_def)
qed

theorem list_accessors_correct_witness:
  "list_tail 0 sample_heap = Some (Some 2) \<and> list_previous 0 (Some 2) sample_heap = Some (Some 1)"
  using list_accessors_correct [OF sample_heap_rep fun_upd_same,
      THEN conjunct2, THEN conjunct2, rule_format, of "[(1, Some 7)]" 2 "Some 9" "[]"]
    list_accessors_correct [OF sample_heap_rep fun_upd_same, THEN conjunct2, THEN conjunct1]
  by simp

end
