(* ===== verification/List_Test.thy ===== *)
theory List_Test
  imports Linked_List
begin

section \<open>The test program of the list (common/list-test.c)\<close>

text \<open>
  The program that exercises the list: it fills a list at the back, takes every node out and puts its
  item back in place while it walks over the list, empties the list, fills it at the front and
  prints the items while it empties it again. An item is a struct of one \<open>int\<close>;
  items and nodes come from the same allocator. \<open>None\<close> is undefined behaviour, as in \<open>Linked_List\<close>,
  which includes an item that could not be allocated: the program does not test for it.
\<close>

subsection \<open>The program\<close>

record test_state =
  test_heap :: list_heap
  items :: "addr \<rightharpoonup> int"
  printed :: "int list"

definition item_new :: "test_state \<Rightarrow> ptr \<times> test_state" where
  "item_new w =
     (case new_addr (test_heap w) of
        (None, h) \<Rightarrow> (None, w\<lparr>test_heap := h\<rparr>)
      | (Some a, h) \<Rightarrow> (Some a, w\<lparr>test_heap := h, items := (items w)(a \<mapsto> 0)\<rparr>))"

definition item_free :: "ptr \<Rightarrow> test_state \<Rightarrow> test_state option" where
  "item_free p w = do { I \<leftarrow> free_at (items w) p; Some (w\<lparr>items := I\<rparr>) }"

text \<open>The two loops that fill the list, with the values that the loop variable takes.\<close>

fun push_items ::
  "(addr \<Rightarrow> ptr \<Rightarrow> list_heap \<Rightarrow> list_heap option) \<Rightarrow> addr \<Rightarrow> int list \<Rightarrow> test_state \<Rightarrow> test_state option" where
  "push_items push l [] w = Some w"
| "push_items push l (i # is) w =
     (case item_new w of
        (None, w1) \<Rightarrow> None
      | (Some a, w1) \<Rightarrow> do {
          let w2 = w1\<lparr>items := (items w1)(a \<mapsto> i)\<rparr>;
          h \<leftarrow> push l (Some a) (test_heap w2);
          push_items push l is (w2\<lparr>test_heap := h\<rparr>) })"

text \<open>The body of \<open>list_foreach_safe\<close>; the next node is read before.\<close>

partial_function (option) bump_items :: "addr \<Rightarrow> ptr \<Rightarrow> test_state \<Rightarrow> test_state option" where
  "bump_items l node w =
     (case node of None \<Rightarrow> Some w
      | Some n \<Rightarrow> do {
          nd \<leftarrow> nodes (test_heap w) n;
          (item, h) \<leftarrow> list_remove l (Some n) (test_heap w);
          a \<leftarrow> item;
          v \<leftarrow> items w a;
          v1 \<leftarrow> c_int (v + 1);
          h1 \<leftarrow> list_push_before l (n_next nd) item h;
          bump_items l (n_next nd) (w\<lparr>test_heap := h1, items := (items w)(a \<mapsto> v1)\<rparr>) })"

partial_function (option) free_items :: "addr \<Rightarrow> test_state \<Rightarrow> test_state option" where
  "free_items l w =
     do { (item, h) \<leftarrow> list_pop_front l (test_heap w);
          let w1 = w\<lparr>test_heap := h\<rparr>;
          (case item of None \<Rightarrow> Some w1
           | Some a \<Rightarrow> do { w2 \<leftarrow> item_free item w1; free_items l w2 }) }"

partial_function (option) print_items :: "addr \<Rightarrow> test_state \<Rightarrow> test_state option" where
  "print_items l w =
     do { (item, h) \<leftarrow> list_pop_front l (test_heap w);
          let w1 = w\<lparr>test_heap := h\<rparr>;
          (case item of None \<Rightarrow> Some w1
           | Some a \<Rightarrow> do {
               v \<leftarrow> items w1 a;
               w2 \<leftarrow> item_free item (w1\<lparr>printed := printed w1 @ [v]\<rparr>);
               print_items l w2 }) }"

definition list_test_main :: "test_state \<Rightarrow> (int \<times> test_state) option" where
  "list_test_main w =
     (case list_new (test_heap w) of
        (None, h) \<Rightarrow> Some (-1, w\<lparr>test_heap := h\<rparr>)
      | (Some l, h) \<Rightarrow> do {
          w1 \<leftarrow> push_items list_push_back l (map int [0..<10]) (w\<lparr>test_heap := h\<rparr>);
          node \<leftarrow> list_head l (test_heap w1);
          w2 \<leftarrow> bump_items l node w1;
          w3 \<leftarrow> free_items l w2;
          w4 \<leftarrow> push_items list_push_front l (map int [0..<1000]) w3;
          w5 \<leftarrow> print_items l w4;
          h5 \<leftarrow> list_free (Some l) (test_heap w5);
          Some (0, w5\<lparr>test_heap := h5\<rparr>) })"

subsection \<open>The loops\<close>

text \<open>The list at \<open>l\<close> is all there is: its nodes \<open>ns\<close> with their items, whose values are \<open>vs\<close>.\<close>

definition test_inv :: "addr \<Rightarrow> (addr \<times> addr) list \<Rightarrow> int list \<Rightarrow> test_state \<Rightarrow> bool" where
  "test_inv l ns vs w \<longleftrightarrow> heap_rep (test_heap w) [l \<mapsto> map (apsnd Some) ns] \<and> answers (test_heap w) = [] \<and>
     map (items w) (map snd ns) = map Some vs \<and> dom (items w) = set (map snd ns) \<and> distinct (map snd ns) \<and>
     (\<forall>a \<in> dom (items w). a < fresh (test_heap w))"

lemma map_items_other [simp]: "a \<notin> snd ` set ns \<Longrightarrow> map (f(a := v) \<circ> snd) ns = map (f \<circ> snd) ns"
  by (auto simp: image_iff)

lemma test_invD:
  assumes "test_inv l ns vs w"
  shows "heap_rep (test_heap w) [l \<mapsto> map (apsnd Some) ns]" "answers (test_heap w) = []"
    "map (items w) (map snd ns) = map Some vs" "dom (items w) = set (map snd ns)" "distinct (map snd ns)"
    "\<And>a. a \<in> dom (items w) \<Longrightarrow> a < fresh (test_heap w)" "length ns = length vs"
  using assms by (auto simp: test_inv_def dest: map_eq_imp_length_eq)

text \<open>A new item, which is not in the list yet.\<close>

lemma item_new_inv:
  assumes inv: "test_inv l ns vs w"
  shows "\<exists>w1. item_new w = (Some (fresh (test_heap w)), w1) \<and>
     items w1 = (items w)(fresh (test_heap w) \<mapsto> 0) \<and> printed w1 = printed w \<and>
     heap_rep (test_heap w1) [l \<mapsto> map (apsnd Some) ns] \<and> answers (test_heap w1) = [] \<and>
     fresh (test_heap w1) = Suc (fresh (test_heap w)) \<and> fresh (test_heap w) \<notin> set (map snd ns)"
proof -
  note I = test_invD [OF inv]
  have "heap_rep (test_heap w\<lparr>answers := [], fresh := Suc (fresh (test_heap w))\<rparr>) [l \<mapsto> map (apsnd Some) ns]"
    by (rule heap_rep_other [OF I(1)])
  moreover have "fresh (test_heap w) \<notin> set (map snd ns)" using I(4,6) by blast
  ultimately show ?thesis using I(2) by (simp add: item_new_def new_addr_ok)
qed

lemma push_back_items:
  "test_inv l ns vs w \<Longrightarrow>
   \<exists>ns' w'. push_items list_push_back l is w = Some w' \<and> test_inv l ns' (vs @ is) w' \<and> printed w' = printed w"
proof (induction "is" arbitrary: ns vs w)
  case Nil
  then show ?case by auto
next
  case (Cons i "is")
  note I = test_invD [OF Cons.prems]
  let ?a = "fresh (test_heap w)"
  obtain w1 where w1: "item_new w = (Some ?a, w1)" "items w1 = (items w)(?a \<mapsto> 0)" "printed w1 = printed w"
    "heap_rep (test_heap w1) [l \<mapsto> map (apsnd Some) ns]" "answers (test_heap w1) = []" "fresh (test_heap w1) = Suc ?a"
    "?a \<notin> set (map snd ns)" using item_new_inv [OF Cons.prems] by blast
  obtain h where h: "list_push_back l (Some ?a) (test_heap w1) = Some h"
    "heap_rep h ([l \<mapsto> map (apsnd Some) ns, l \<mapsto> map (apsnd Some) ns @ [(fresh (test_heap w1), Some ?a)]])"
    "fresh h = Suc (fresh (test_heap w1))"
    by (rule list_push_back_heap [OF w1(4), of l "map (apsnd Some) ns" "Some ?a"]) (use w1(5) in simp_all)
  have "test_inv l (ns @ [(fresh (test_heap w1), ?a)]) (vs @ [i]) (w1\<lparr>items := (items w1)(?a \<mapsto> i), test_heap := h\<rparr>)"
    unfolding test_inv_def
    using I w1 h answers_list_push_back [OF h(1)] by (auto simp: less_Suc_eq)
  from Cons.IH [OF this] show ?case using w1(1,3) h(1) by simp
qed

lemma push_front_items:
  "test_inv l ns vs w \<Longrightarrow>
   \<exists>ns' w'. push_items list_push_front l is w = Some w' \<and> test_inv l ns' (rev is @ vs) w' \<and> printed w' = printed w"
proof (induction "is" arbitrary: ns vs w)
  case Nil
  then show ?case by auto
next
  case (Cons i "is")
  note I = test_invD [OF Cons.prems]
  let ?a = "fresh (test_heap w)"
  obtain w1 where w1: "item_new w = (Some ?a, w1)" "items w1 = (items w)(?a \<mapsto> 0)" "printed w1 = printed w"
    "heap_rep (test_heap w1) [l \<mapsto> map (apsnd Some) ns]" "answers (test_heap w1) = []" "fresh (test_heap w1) = Suc ?a"
    "?a \<notin> set (map snd ns)" using item_new_inv [OF Cons.prems] by blast
  obtain h where h: "list_push_front l (Some ?a) (test_heap w1) = Some h"
    "heap_rep h ([l \<mapsto> map (apsnd Some) ns, l \<mapsto> (fresh (test_heap w1), Some ?a) # map (apsnd Some) ns])"
    "fresh h = Suc (fresh (test_heap w1))"
    by (rule list_push_front_heap [OF w1(4), of l "map (apsnd Some) ns" "Some ?a"]) (use w1(5) in simp_all)
  have "test_inv l ((fresh (test_heap w1), ?a) # ns) (i # vs) (w1\<lparr>items := (items w1)(?a \<mapsto> i), test_heap := h\<rparr>)"
    unfolding test_inv_def
    using I w1 h answers_list_push_front [OF h(1)] by (auto simp: less_Suc_eq)
  from Cons.IH [OF this] show ?case using w1(1,3) h(1) by simp
qed

lemma next_node:
  assumes "heap_rep w M" "M l = Some (xs @ (a, d) # ys)"
  shows "\<exists>nd. nodes w a = Some nd \<and> n_next nd = (case ys of [] \<Rightarrow> None | y # _ \<Rightarrow> Some (fst y))"
proof -
  obtain L :: list_t where L: "seg (nodes w) (Head l) (l_head L) (xs @ (a, d) # ys) None"
    using heap_rep_list [OF assms] by (auto elim!: list_repE)
  have first: "p = (case us of [] \<Rightarrow> None | x # _ \<Rightarrow> Some (fst x))" if "seg N c p us None" for N c p us
    using that by (cases us) auto
  show ?thesis using L first by (auto simp: seg_append split: option.splits)
qed

text \<open>An item is put back in front of the node that was next.\<close>

lemma put_back:
  assumes M: "heap_rep h [l \<mapsto> xs @ ys]" and ok: "answers h = []" and q: "q = (case ys of [] \<Rightarrow> None | y # _ \<Rightarrow> Some (fst y))"
  shows "\<exists>h'. list_push_before l q d h = Some h' \<and> heap_rep h' [l \<mapsto> xs @ (fresh h, d) # ys] \<and> fresh h' = Suc (fresh h) \<and> answers h' = []"
proof (cases ys)
  case Nil
  obtain h' where "list_push_back l d h = Some h'" "heap_rep h' ([l \<mapsto> xs @ ys, l \<mapsto> (xs @ ys) @ [(fresh h, d)]])" "fresh h' = Suc (fresh h)"
    by (rule list_push_back_heap [OF M, of l "xs @ ys" d]) (use ok in simp_all)
  with Nil q ok answers_list_push_back show ?thesis by (force simp: list_push_before_def)
next
  case (Cons y zs)
  obtain b e where y: "y = (b, e)" by fastforce
  obtain h' where "list_push_before l (Some b) d h = Some h'"
    "heap_rep h' ([l \<mapsto> xs @ ys, l \<mapsto> xs @ (fresh h, d) # (b, e) # zs])" "fresh h' = Suc (fresh h)"
    by (rule list_push_before_heap [OF M, of l xs b e zs d]) (use ok Cons y in simp_all)
  with Cons y q ok answers_list_push_before show ?thesis by force
qed

lemma bump_items_runs:
  "test_inv l (ds @ rs) (us @ vs) w \<Longrightarrow> length ds = length us \<Longrightarrow> \<forall>v \<in> set vs. int_ok (v + 1) \<Longrightarrow>
   node = (case rs of [] \<Rightarrow> None | x # _ \<Rightarrow> Some (fst x)) \<Longrightarrow>
   \<exists>ns' w'. bump_items l node w = Some w' \<and> test_inv l ns' (us @ map (\<lambda>v. v + 1) vs) w' \<and> printed w' = printed w"
proof (induction rs arbitrary: ds us vs w node)
  case Nil
  then have "vs = []" using test_invD(7) [OF Nil.prems(1)] by simp
  with Nil show ?case by (auto simp: bump_items.simps)
next
  case (Cons r rs)
  obtain n a where r: "r = (n, a)" by fastforce
  note I = test_invD [OF Cons.prems(1)]
  obtain v vs' where vs: "vs = v # vs'" using I(7) Cons.prems(2) by (cases vs) auto
  let ?D = "map (apsnd Some) ds" and ?R = "map (apsnd Some) rs"
  have M: "heap_rep (test_heap w) [l \<mapsto> ?D @ (n, Some a) # ?R]" using I(1) r by simp
  have items: "map (items w \<circ> snd) ds = map Some us" "items w a = Some v" "map (items w \<circ> snd) rs = map Some vs'"
    using I(3) Cons.prems(2) r vs by simp_all
  obtain nd where nd: "nodes (test_heap w) n = Some nd" "n_next nd = (case ?R of [] \<Rightarrow> None | y # _ \<Rightarrow> Some (fst y))"
    using next_node [OF M, of l ?D n "Some a" ?R] by auto
  obtain h where h: "list_remove l (Some n) (test_heap w) = Some (Some a, h)"
    "heap_rep h ([l \<mapsto> ?D @ (n, Some a) # ?R, l \<mapsto> ?D @ ?R])" "fresh h = fresh (test_heap w)"
    by (rule list_remove_heap [OF M, of l ?D n "Some a" ?R]) simp_all
  have M1: "heap_rep h [l \<mapsto> ?D @ ?R]" "answers h = []" using h(2) answers_list_remove [OF h(1)] I(2) by simp_all
  obtain h1 where h1: "list_push_before l (n_next nd) (Some a) h = Some h1"
    "heap_rep h1 [l \<mapsto> ?D @ (fresh h, Some a) # ?R]" "fresh h1 = Suc (fresh h)" "answers h1 = []"
    using put_back [OF M1 nd(2)] by blast
  let ?w = "w\<lparr>test_heap := h1, items := (items w)(a \<mapsto> v + 1)\<rparr>"
  have a: "a \<notin> snd ` set ds" "a \<notin> snd ` set rs" using I(5) r by auto
  have "test_inv l ((ds @ [(fresh h, a)]) @ rs) ((us @ [v + 1]) @ vs') ?w"
    unfolding test_inv_def using I(4-6) r h1(2-4) h(3) items a by (auto simp: less_Suc_eq)
  moreover have "length (ds @ [(fresh h, a)]) = length (us @ [v + 1])" "\<forall>v \<in> set vs'. int_ok (v + 1)"
    using Cons.prems(2,3) vs by simp_all
  moreover have "n_next nd = (case rs of [] \<Rightarrow> None | x # _ \<Rightarrow> Some (fst x))" using nd(2) by (cases rs) simp_all
  ultimately obtain ns' w' where w': "bump_items l (n_next nd) ?w = Some w'"
    "test_inv l ns' ((us @ [v + 1]) @ map (\<lambda>v. v + 1) vs') w'" "printed w' = printed ?w"
    using Cons.IH by blast
  have "bump_items l node w = bump_items l (n_next nd) ?w"
    using Cons.prems(3,4) r vs nd(1) h(1) h1(1) items(2) by (simp add: bump_items.simps [of l "Some n"])
  with w' vs show ?case by (intro exI [of _ ns'] exI [of _ w']) simp
qed

text \<open>The first item is taken out.\<close>

lemma pop_item:
  assumes inv: "test_inv l ((n, a) # ns) (v # vs) w"
  shows "\<exists>h. list_pop_front l (test_heap w) = Some (Some a, h) \<and> items w a = Some v \<and>
     test_inv l ns vs (w\<lparr>test_heap := h, items := (items w)(a := None)\<rparr>)"
proof -
  note I = test_invD [OF inv]
  obtain h where h: "list_pop_front l (test_heap w) = Some (Some a, h)"
    "heap_rep h ([l \<mapsto> map (apsnd Some) ((n, a) # ns), l \<mapsto> map (apsnd Some) ns])"
    by (rule list_pop_front_heap [OF I(1), of l n "Some a" "map (apsnd Some) ns"]) simp_all
  have "a \<notin> snd ` set ns" using I(5) by simp
  then have "test_inv l ns vs (w\<lparr>test_heap := h, items := (items w)(a := None)\<rparr>)"
    unfolding test_inv_def
    using I h answers_list_pop_front [OF h(1)] fresh_list_pop_front [OF h(1)] by auto
  with h(1) I(3) show ?thesis by auto
qed

lemma pop_none: "test_inv l [] [] w \<Longrightarrow> list_pop_front l (test_heap w) = Some (None, test_heap w)"
  using list_pop_front_empty test_invD(1) by fastforce

lemma free_items_runs:
  "test_inv l ns vs w \<Longrightarrow> \<exists>w'. free_items l w = Some w' \<and> test_inv l [] [] w' \<and> printed w' = printed w"
proof (induction ns arbitrary: vs w)
  case Nil
  then have "vs = []" using test_invD(7) [OF Nil] by simp
  with Nil show ?case by (auto simp: free_items.simps pop_none)
next
  case (Cons x ns)
  obtain n a v vs' where x: "x = (n, a)" "vs = v # vs'" using test_invD(7) [OF Cons.prems] by (cases x; cases vs) auto
  obtain h where h: "list_pop_front l (test_heap w) = Some (Some a, h)" "items w a = Some v"
    "test_inv l ns vs' (w\<lparr>test_heap := h, items := (items w)(a := None)\<rparr>)" using pop_item Cons.prems x by blast
  have "free_items l w = free_items l (w\<lparr>test_heap := h, items := (items w)(a := None)\<rparr>)"
    using h(1,2) by (subst free_items.simps) (simp add: item_free_def)
  with Cons.IH [OF h(3)] show ?case by simp
qed

lemma print_items_runs:
  "test_inv l ns vs w \<Longrightarrow> \<exists>w'. print_items l w = Some w' \<and> test_inv l [] [] w' \<and> printed w' = printed w @ vs"
proof (induction ns arbitrary: vs w)
  case Nil
  then have "vs = []" using test_invD(7) [OF Nil] by simp
  with Nil show ?case by (auto simp: print_items.simps pop_none)
next
  case (Cons x ns)
  obtain n a v vs' where x: "x = (n, a)" "vs = v # vs'" using test_invD(7) [OF Cons.prems] by (cases x; cases vs) auto
  obtain h where h: "list_pop_front l (test_heap w) = Some (Some a, h)" "items w a = Some v"
    "test_inv l ns vs' (w\<lparr>test_heap := h, items := (items w)(a := None)\<rparr>)" using pop_item Cons.prems x by blast
  let ?w = "w\<lparr>test_heap := h, printed := printed w @ [v], items := (items w)(a := None)\<rparr>"
  have "test_inv l ns vs' ?w" using h(3) by (simp add: test_inv_def)
  moreover have "print_items l w = print_items l ?w"
    using h(1,2) by (subst print_items.simps) (simp add: item_free_def)
  ultimately show ?case using Cons.IH [of vs' ?w] x(2) by simp
qed

subsection \<open>The run\<close>

text \<open>C19.
  The test program passes. When every allocation succeeds it ends normally and returns 0; it prints the values of the items
  pushed at the front in the order 999 to 0; and every node, every item and the list have been freed, each once.
\<close>

theorem list_test_passes:
  assumes "heap_rep (test_heap w) Map.empty" "answers (test_heap w) = []" "items w = Map.empty"
  shows "\<exists>w'. list_test_main w = Some (0, w') \<and> printed w' = printed w @ rev (map int [0..<1000]) \<and>
     items w' = Map.empty \<and> heap_rep (test_heap w') Map.empty"
proof -
  let ?l = "fresh (test_heap w)"
  obtain h where h: "list_new (test_heap w) = (Some ?l, h)" "heap_rep h (Map.empty(?l \<mapsto> []))"
    by (rule list_new_heap [OF assms(1)]) (use assms(2) in simp_all)
  have "answers h = []" using h(1) assms(2) by (auto simp: list_new_def new_addr_ok set_list_def)
  then have "test_inv ?l [] [] (w\<lparr>test_heap := h\<rparr>)" using h(2) assms(3) by (simp add: test_inv_def)
  from push_back_items [OF this, of "map int [0..<10]"]
  obtain ns1 w1 where w1: "push_items list_push_back ?l (map int [0..<10]) (w\<lparr>test_heap := h\<rparr>) = Some w1"
    "test_inv ?l ([] @ ns1) ([] @ map int [0..<10]) w1" "printed w1 = printed w" by auto
  have head: "list_head ?l (test_heap w1) = Some (case ns1 of [] \<Rightarrow> None | x # _ \<Rightarrow> Some (fst x))"
  proof -
    obtain L where "hlists (test_heap w1) ?l = Some L" "seg (nodes (test_heap w1)) (Head ?l) (l_head L) (map (apsnd Some) ns1) None"
      using heap_rep_list [OF test_invD(1) [OF w1(2)], of ?l] by (auto elim!: list_repE)
    then show ?thesis by (cases ns1) (auto simp: list_head_def)
  qed
  have "\<forall>v \<in> set (map int [0..<10]). int_ok (v + 1)" by (auto simp: int_ok_def)
  from bump_items_runs [OF w1(2) _ this refl]
  obtain ns2 w2 where w2: "bump_items ?l (case ns1 of [] \<Rightarrow> None | x # _ \<Rightarrow> Some (fst x)) w1 = Some w2"
    "test_inv ?l ns2 ([] @ map (\<lambda>v. v + 1) (map int [0..<10])) w2" "printed w2 = printed w1" by auto
  obtain w3 where w3: "free_items ?l w2 = Some w3" "test_inv ?l [] [] w3" "printed w3 = printed w2"
    using free_items_runs [OF w2(2)] by blast
  from push_front_items [OF w3(2), of "map int [0..<1000]"]
  obtain ns4 w4 where w4: "push_items list_push_front ?l (map int [0..<1000]) w3 = Some w4"
    "test_inv ?l ns4 (rev (map int [0..<1000])) w4" "printed w4 = printed w3" by auto
  obtain w5 where w5: "print_items ?l w4 = Some w5" "test_inv ?l [] [] w5" "printed w5 = printed w4 @ rev (map int [0..<1000])"
    using print_items_runs [OF w4(2)] by blast
  note I5 = test_invD [OF w5(2)]
  obtain h6 where h6: "list_drain ?l (test_heap w5) = Some h6" "heap_rep h6 (Map.empty(?l \<mapsto> []))"
    using list_drain_heap [OF I5(1), of ?l "[]"] by auto
  have "?l \<in> dom (hlists h6)" using heap_rep_lists [OF h6(2)] by simp
  then obtain L where "hlists h6 ?l = Some L" by blast
  then have free: "list_free (Some ?l) (test_heap w5) = Some (h6\<lparr>hlists := (hlists h6)(?l := None)\<rparr>)"
    using h6(1) by (simp add: list_free_def)
  have "heap_rep (h6\<lparr>hlists := (hlists h6)(?l := None)\<rparr>) Map.empty"
    using heap_rep_delete [OF h6(2)] by simp
  moreover have "items w5 = Map.empty" using I5(4) by simp
  moreover have "list_test_main w = Some (0, w5\<lparr>test_heap := h6\<lparr>hlists := (hlists h6)(?l := None)\<rparr>\<rparr>)"
    using h(1) w1(1) head w2(1) w3(1) w4(1) w5(1) free by (simp only: list_test_main_def) simp
  ultimately show ?thesis using w1(3) w2(3) w3(3) w4(3) w5(3) by simp
qed

theorem list_test_passes_witness:
  "\<exists>w'. list_test_main \<lparr>test_heap = empty_heap, items = Map.empty, printed = []\<rparr> = Some (0, w') \<and> hd (printed w') = 999"
proof -
  have "hd (rev (map int [0..<1000])) = 999" by (simp add: hd_rev last_map)
  then show ?thesis
    using list_test_passes [of "\<lparr>test_heap = empty_heap, items = Map.empty, printed = []\<rparr>"] heap_rep_empty
    by (auto simp: empty_heap_def)
qed

end
