(* ===== verification/Reference.thy ===== *)
theory Reference
  imports Locks "HOL-Library.Word"
begin

section \<open>Reference counting and atomics (reference.h, atomic.h)\<close>

text \<open>
  A \<open>reference_t\<close> holds a pointer and two counts. The object is given to \<open>free_fn\<close> when the
  strong count reaches 0; the struct itself stays until the weak count is 0 as well. The
  session keeps one strong reference to itself and every DNS request a weak one. A call of
  \<open>free_fn\<close> is returned as the list of its argument. \<open>run_refs\<close> runs a sequence of operations;
  \<open>balanced\<close> says when a sequence takes back only what was given.
\<close>

subsection \<open>Data and operations\<close>

record ref =
  ref_ptr :: ptr
  refcnt :: int
  weak_refcnt :: int
  free_fn :: bool

record ref_heap = lock_heap +
  refs :: "addr \<rightharpoonup> ref"

definition reference_new :: "ptr \<Rightarrow> bool \<Rightarrow> 'm ref_heap_scheme \<Rightarrow> ptr \<times> 'm ref_heap_scheme" where
  "reference_new p fn w =
     (case new_addr w of
        (None, w1) \<Rightarrow> (None, w1)
      | (Some a, w1) \<Rightarrow>
          (Some a, w1\<lparr>refs := (refs w1)(a \<mapsto> \<lparr>ref_ptr = p, refcnt = 1, weak_refcnt = 0, free_fn = fn\<rparr>)\<rparr>))"

definition reference_dec :: "ptr \<Rightarrow> 'm ref_heap_scheme \<Rightarrow> ((int \<times> ptr list) \<times> 'm ref_heap_scheme) option" where
  "reference_dec p w =
     (case p of None \<Rightarrow> Some ((0, []), w)
      | Some a \<Rightarrow> do {
          r \<leftarrow> refs w a;
          n \<leftarrow> c_int (refcnt r - 1);
          let r1 = r\<lparr>refcnt := n\<rparr>;
          if n = 0
          then (let calls = (if free_fn r1 then [ref_ptr r1] else []);
                    r2 = r1\<lparr>ref_ptr := None\<rparr>
                in if weak_refcnt r2 = 0
                   then Some ((0, calls), w\<lparr>refs := (refs w)(a := None)\<rparr>)
                   else Some ((0, calls), w\<lparr>refs := (refs w)(a \<mapsto> r2)\<rparr>))
          else Some ((n, []), w\<lparr>refs := (refs w)(a \<mapsto> r1)\<rparr>) })"

definition reference_weak_dec :: "ptr \<Rightarrow> 'm ref_heap_scheme \<Rightarrow> (int \<times> 'm ref_heap_scheme) option" where
  "reference_weak_dec p w =
     (case p of None \<Rightarrow> Some (0, w)
      | Some a \<Rightarrow> do {
          r \<leftarrow> refs w a;
          n \<leftarrow> c_int (weak_refcnt r - 1);
          let r1 = r\<lparr>weak_refcnt := n\<rparr>;
          if n = 0
          then (if ref_ptr r1 = None
                then Some (0, w\<lparr>refs := (refs w)(a := None)\<rparr>)
                else Some (0, w\<lparr>refs := (refs w)(a \<mapsto> r1)\<rparr>))
          else Some (n, w\<lparr>refs := (refs w)(a \<mapsto> r1)\<rparr>) })"

definition reference_inc :: "ptr \<Rightarrow> 'm ref_heap_scheme \<Rightarrow> (int \<times> 'm ref_heap_scheme) option" where
  "reference_inc p w =
     (case p of None \<Rightarrow> Some (0, w)
      | Some a \<Rightarrow> do {
          r \<leftarrow> refs w a;
          n \<leftarrow> c_int (refcnt r + 1);
          Some (n, w\<lparr>refs := (refs w)(a \<mapsto> r\<lparr>refcnt := n\<rparr>)\<rparr>) })"

definition reference_weak_inc :: "ptr \<Rightarrow> 'm ref_heap_scheme \<Rightarrow> (int \<times> 'm ref_heap_scheme) option" where
  "reference_weak_inc p w =
     (case p of None \<Rightarrow> Some (0, w)
      | Some a \<Rightarrow> do {
          r \<leftarrow> refs w a;
          n \<leftarrow> c_int (weak_refcnt r + 1);
          Some (n, w\<lparr>refs := (refs w)(a \<mapsto> r\<lparr>weak_refcnt := n\<rparr>)\<rparr>) })"

definition reference_get :: "ptr \<Rightarrow> 'm ref_heap_scheme \<Rightarrow> ptr option" where
  "reference_get p w =
     (case p of None \<Rightarrow> Some None
      | Some a \<Rightarrow> do { r \<leftarrow> refs w a; Some (ref_ptr r) })"

text \<open>
  \<open>atomic_inc\<close> and \<open>atomic_dec\<close> on a \<open>long\<close>: the GCC builtins are atomic and wrap; the
  returned value is the new one.
\<close>

definition atomic_inc :: "64 word \<Rightarrow> 64 word \<times> 64 word" where
  "atomic_inc v = (v + 1, v + 1)"

definition atomic_dec :: "64 word \<Rightarrow> 64 word \<times> 64 word" where
  "atomic_dec v = (v - 1, v - 1)"

subsection \<open>Sequences of operations\<close>

datatype ref_op = Inc | Dec | Weak_inc | Weak_dec

primrec run_refs :: "addr \<Rightarrow> ref_op list \<Rightarrow> 'm ref_heap_scheme \<Rightarrow> (ptr list \<times> 'm ref_heap_scheme) option" where
  "run_refs a [] w = Some ([], w)"
| "run_refs a (x # xs) w = do {
     (calls, w1) \<leftarrow> (case x of
         Inc \<Rightarrow> do { (n, w1) \<leftarrow> reference_inc (Some a) w; Some ([], w1) }
       | Dec \<Rightarrow> do { ((n, calls), w1) \<leftarrow> reference_dec (Some a) w; Some (calls, w1) }
       | Weak_inc \<Rightarrow> do { (n, w1) \<leftarrow> reference_weak_inc (Some a) w; Some ([], w1) }
       | Weak_dec \<Rightarrow> do { (n, w1) \<leftarrow> reference_weak_dec (Some a) w; Some ([], w1) });
     (calls', w2) \<leftarrow> run_refs a xs w1;
     Some (calls @ calls', w2) }"

text \<open>
  Who holds what: \<open>balanced s k xs\<close> with \<open>s\<close> strong and \<open>k\<close> weak holders; a strong reference
  is only taken while there is one, nothing is done once there are no holders.
\<close>

fun balanced :: "nat \<Rightarrow> nat \<Rightarrow> ref_op list \<Rightarrow> bool" where
  "balanced s k [] \<longleftrightarrow> True"
| "balanced s k (Inc # xs) \<longleftrightarrow> 0 < s \<and> s + 1 < 2 ^ 31 \<and> balanced (s + 1) k xs"
| "balanced s k (Dec # xs) \<longleftrightarrow> 0 < s \<and> balanced (s - 1) k xs"
| "balanced s k (Weak_inc # xs) \<longleftrightarrow> 0 < s + k \<and> k + 1 < 2 ^ 31 \<and> balanced s (k + 1) xs"
| "balanced s k (Weak_dec # xs) \<longleftrightarrow> 0 < k \<and> balanced s (k - 1) xs"

fun holders :: "nat \<Rightarrow> nat \<Rightarrow> ref_op list \<Rightarrow> nat \<times> nat" where
  "holders s k [] = (s, k)"
| "holders s k (Inc # xs) = holders (s + 1) k xs"
| "holders s k (Dec # xs) = holders (s - 1) k xs"
| "holders s k (Weak_inc # xs) = holders s (k + 1) xs"
| "holders s k (Weak_dec # xs) = holders s (k - 1) xs"

text \<open>The reference at \<open>a\<close> with \<open>s\<close> strong and \<open>k\<close> weak holders of the object \<open>p\<close>.\<close>

definition ref_rep :: "addr \<Rightarrow> addr \<Rightarrow> bool \<Rightarrow> nat \<Rightarrow> nat \<Rightarrow> 'm ref_heap_scheme \<Rightarrow> bool" where
  "ref_rep a p fn s k w \<longleftrightarrow> int s < 2 ^ 31 \<and> int k < 2 ^ 31 \<and>
     refs w a = (if s + k = 0 then None
                 else Some \<lparr>ref_ptr = (if s = 0 then None else Some p), refcnt = int s,
                            weak_refcnt = int k, free_fn = fn\<rparr>)"

lemma ref_inc_step:
  assumes "ref_rep a p fn s k w" "0 < s" "s + 1 < 2 ^ 31"
  shows "\<exists>w'. reference_inc (Some a) w = Some (int s + 1, w') \<and> ref_rep a p fn (s + 1) k w'"
  using assms by (auto simp: ref_rep_def reference_inc_def int_ok_def)

lemma ref_weak_inc_step:
  assumes "ref_rep a p fn s k w" "0 < s + k" "k + 1 < 2 ^ 31"
  shows "\<exists>w'. reference_weak_inc (Some a) w = Some (int k + 1, w') \<and> ref_rep a p fn s (k + 1) w'"
  using assms by (auto simp: ref_rep_def reference_weak_inc_def int_ok_def)

lemma ref_dec_step:
  assumes "ref_rep a p fn s k w" "0 < s"
  shows "\<exists>w'. reference_dec (Some a) w =
      Some ((int s - 1, if s = 1 \<and> fn then [Some p] else []), w') \<and> ref_rep a p fn (s - 1) k w'"
  using assms by (cases "s = 1") (auto simp: ref_rep_def reference_dec_def int_ok_def Let_def of_nat_diff)

lemma ref_weak_dec_step:
  assumes "ref_rep a p fn s k w" "0 < k"
  shows "\<exists>w'. reference_weak_dec (Some a) w = Some (int k - 1, w') \<and> ref_rep a p fn s (k - 1) w'"
  using assms by (cases "k = 1") (auto simp: ref_rep_def reference_weak_dec_def int_ok_def Let_def of_nat_diff)

lemma ref_get_rep:
  assumes "ref_rep a p fn s k w" "0 < s + k"
  shows "reference_get (Some a) w = Some (if s = 0 then None else Some p)"
  using assms by (auto simp: ref_rep_def reference_get_def)

lemma holders_mono: "s = 0 \<Longrightarrow> balanced s k xs \<Longrightarrow> fst (holders s k xs) = 0"
  by (induction s k xs rule: holders.induct) auto

text \<open>C28. Any balanced sequence of strong and weak operations on a reference runs without
  touching freed memory; the object is handed to \<open>free_fn\<close> exactly once, when the last
  strong holder goes, and never again; the struct is freed when the last holder of either
  kind goes and not before.\<close>

theorem references_freed_once:
  assumes "ref_rep a p fn s k w" "balanced s k xs" "0 < s" and "holders s k xs = (s', k')"
  shows "\<exists>w'. run_refs a xs w = Some (if s' = 0 \<and> fn then [Some p] else [], w') \<and>
           (refs w' a = None \<longleftrightarrow> s' + k' = 0) \<and>
           (0 < s' + k' \<longrightarrow> reference_get (Some a) w' = Some (if s' = 0 then None else Some p))"
proof -
  have "\<exists>w'. run_refs a xs w = Some (if 0 < s \<and> fst (holders s k xs) = 0 \<and> fn then [Some p] else [], w') \<and>
             ref_rep a p fn (fst (holders s k xs)) (snd (holders s k xs)) w'"
    if "ref_rep a p fn s k w" "balanced s k xs" for s k w
    using that
  proof (induction s k xs arbitrary: w rule: balanced.induct)
    case (2 s k xs)
    then obtain w1 where "reference_inc (Some a) w = Some (int s + 1, w1)" "ref_rep a p fn (s + 1) k w1"
      using ref_inc_step by fastforce
    with 2 show ?case by fastforce
  next
    case (3 s k xs)
    then obtain w1 where w1: "reference_dec (Some a) w =
        Some ((int s - 1, if s = 1 \<and> fn then [Some p] else []), w1)" "ref_rep a p fn (s - 1) k w1"
      using ref_dec_step by fastforce
    have "fst (holders (s - 1) k xs) = 0" if "s = 1" using that 3 holders_mono by simp
    with 3 w1 show ?case by (cases "s = 1") fastforce+
  next
    case (4 s k xs)
    then obtain w1 where "reference_weak_inc (Some a) w = Some (int k + 1, w1)" "ref_rep a p fn s (k + 1) w1"
      using ref_weak_inc_step by fastforce
    with 4 show ?case by fastforce
  next
    case (5 s k xs)
    then obtain w1 where "reference_weak_dec (Some a) w = Some (int k - 1, w1)" "ref_rep a p fn s (k - 1) w1"
      using ref_weak_dec_step by fastforce
    with 5 show ?case by fastforce
  qed auto
  from this [OF assms(1,2)] obtain w' where
    "run_refs a xs w = Some (if s' = 0 \<and> fn then [Some p] else [], w')" "ref_rep a p fn s' k' w'"
    using assms(3,4) by auto
  then show ?thesis by (intro exI [of _ w']) (auto simp: ref_rep_def reference_get_def)
qed

definition sample_refs :: ref_heap where
  "sample_refs = \<lparr>answers = [], fresh = 10, rwlocks = Map.empty, mutexes = Map.empty,
     refs = [5 \<mapsto> \<lparr>ref_ptr = Some 7, refcnt = 1, weak_refcnt = 0, free_fn = True\<rparr>]\<rparr>"

lemma references_freed_once_witness:
  "\<exists>w'. run_refs 5 [Weak_inc, Weak_inc, Dec, Weak_dec, Weak_dec] sample_refs = Some ([Some 7], w') \<and>
        refs w' 5 = None"
  using references_freed_once [of 5 7 True 1 0 sample_refs "[Weak_inc, Weak_inc, Dec, Weak_dec, Weak_dec]" 0 0]
  by (auto simp: ref_rep_def sample_refs_def)

end
