(* ===== verification/Joke.thy ===== *)
theory Joke
  imports Reference "HOL-Library.Sublist"
begin

section \<open>C strings and the substitution of the name in the joke (session.c)\<close>

text \<open>
  \<open>joke_create\<close> replaces every occurrence of a token by another string: a first loop
  computes the length of the result, a second one fills a buffer of that length. Both are
  modelled with their positions, the arithmetic of \<open>int\<close> and the bounds of the buffer; a
  cell that was not written is \<open>None\<close>. \<open>replace_all\<close> is the reference definition:
  leftmost occurrences that do not overlap. \<open>strs\<close> is the heap of the C strings the
  program owns, without their terminating NUL.
\<close>

subsection \<open>Strings\<close>

definition nul :: char where
  "nul = CHR 0x00"

definition c_string :: "string \<Rightarrow> bool" where
  "c_string s \<longleftrightarrow> nul \<notin> set s"

text \<open>The standard \<open>strstr\<close>, as the offset of the first occurrence.\<close>

fun strstr :: "string \<Rightarrow> string \<Rightarrow> nat option" where
  "strstr t [] = (if t = [] then Some 0 else None)"
| "strstr t (c # cs) = (if prefix t (c # cs) then Some 0 else map_option Suc (strstr t cs))"

record str_heap = ref_heap +
  strs :: "addr \<rightharpoonup> string"

definition free_str :: "ptr \<Rightarrow> 'm str_heap_scheme \<Rightarrow> 'm str_heap_scheme option" where
  "free_str p w = do { S \<leftarrow> free_at (strs w) p; Some (w\<lparr>strs := S\<rparr>) }"

text \<open>\<open>strdup\<close> copies up to the first NUL.\<close>

definition strdup :: "string \<Rightarrow> 'm str_heap_scheme \<Rightarrow> ptr \<times> 'm str_heap_scheme" where
  "strdup s w =
     (case new_addr w of
        (None, w1) \<Rightarrow> (None, w1)
      | (Some a, w1) \<Rightarrow> (Some a, w1\<lparr>strs := (strs w1)(a \<mapsto> takeWhile (\<lambda>c. c \<noteq> nul) s)\<rparr>))"

subsection \<open>\<open>joke_create\<close>\<close>

text \<open>The first loop: the position \<open>n\<close> in the text and the length so far.\<close>

partial_function (option) joke_length ::
  "string \<Rightarrow> string \<Rightarrow> nat \<Rightarrow> nat \<Rightarrow> nat \<Rightarrow> int \<Rightarrow> int option" where
  "joke_length joke token tlen sess_tlen n len =
     (if n = length joke then Some len
      else if length joke < n then None
      else (case strstr token (drop n joke) of
              None \<Rightarrow> Some len
            | Some k \<Rightarrow> do {
                len1 \<leftarrow> c_int (len - int tlen);
                len2 \<leftarrow> c_int (len1 + int sess_tlen);
                joke_length joke token tlen sess_tlen (n + k + tlen) len2 }))"

text \<open>Writing characters one after the other, each within the buffer.\<close>

fun store_chars :: "char option list \<Rightarrow> nat \<Rightarrow> string \<Rightarrow> (char option list \<times> nat) option" where
  "store_chars buf i [] = Some (buf, i)"
| "store_chars buf i (c # cs) =
     (if i < length buf then store_chars (buf[i := Some c]) (Suc i) cs else None)"

text \<open>The second loop: the text before the occurrence, the new token, skip the old one.\<close>

partial_function (option) joke_fill ::
  "string \<Rightarrow> string \<Rightarrow> nat \<Rightarrow> string \<Rightarrow> nat \<Rightarrow> nat \<Rightarrow> char option list \<Rightarrow> nat \<Rightarrow>
   (nat \<times> char option list \<times> nat) option" where
  "joke_fill joke token tlen sess_token sess_tlen p buf i =
     (if p = length joke then Some (p, buf, i)
      else if length joke < p then None
      else (case strstr token (drop p joke) of
              None \<Rightarrow> Some (p, buf, i)
            | Some k \<Rightarrow> do {
                (buf1, i1) \<leftarrow> store_chars buf i (take k (drop p joke));
                (buf2, i2) \<leftarrow> (if sess_tlen \<le> length sess_token
                              then store_chars buf1 i1 (take sess_tlen sess_token) else None);
                joke_fill joke token tlen sess_token sess_tlen (p + k + tlen) buf2 i2 }))"

text \<open>The text a buffer holds as a C string: up to its first NUL, every cell written.\<close>

fun buffer_string :: "char option list \<Rightarrow> string option" where
  "buffer_string [] = None"
| "buffer_string (None # cs) = None"
| "buffer_string (Some c # cs) = (if c = nul then Some [] else map_option (Cons c) (buffer_string cs))"

text \<open>\<open>malloc\<close> takes the length as a \<open>size_t\<close>; the result is the filled buffer.\<close>

definition size_of_int :: "int \<Rightarrow> nat" where
  "size_of_int x = nat (x mod 2 ^ 64)"

definition joke_buffer ::
  "string \<Rightarrow> nat \<Rightarrow> string \<Rightarrow> nat \<Rightarrow> string \<Rightarrow> nat \<Rightarrow> bool \<Rightarrow> char option list option option" where
  "joke_buffer joke len token tlen sess_token sess_tlen malloc_ok =
     do { new_len \<leftarrow> joke_length joke token tlen sess_tlen 0 (int len);
          new_len1 \<leftarrow> c_int (new_len + 1);
          if \<not> malloc_ok then Some None
          else do {
            (p, buf, i) \<leftarrow> joke_fill joke token tlen sess_token sess_tlen 0
                            (replicate (size_of_int new_len1) None) 0;
            (buf1, i1) \<leftarrow> store_chars buf i (drop p joke);
            (buf2, i2) \<leftarrow> store_chars buf1 i1 [nul];
            Some (Some buf2) } }"

definition joke_create ::
  "string \<Rightarrow> nat \<Rightarrow> string \<Rightarrow> nat \<Rightarrow> string \<Rightarrow> nat \<Rightarrow> 'm str_heap_scheme \<Rightarrow>
   (ptr \<times> 'm str_heap_scheme) option" where
  "joke_create joke len token tlen sess_token sess_tlen w =
     (let (a, w1) = new_addr w
      in do { b \<leftarrow> joke_buffer joke len token tlen sess_token sess_tlen (a \<noteq> None);
              (case (a, b) of
                 (Some p, Some buf) \<Rightarrow> do { s \<leftarrow> buffer_string buf; Some (Some p, w1\<lparr>strs := (strs w1)(p \<mapsto> s)\<rparr>) }
               | _ \<Rightarrow> Some (None, w1)) })"

subsection \<open>The reference definition\<close>

function replace_all :: "string \<Rightarrow> string \<Rightarrow> string \<Rightarrow> string" where
  "replace_all t r [] = []"
| "replace_all t r (c # cs) =
     (if t \<noteq> [] \<and> prefix t (c # cs) then r @ replace_all t r (drop (length t) (c # cs))
      else c # replace_all t r cs)"
  by pat_completeness auto
termination
  by (relation "measure (\<lambda>(t, r, s). length s)") (auto simp: Suc_le_eq)

lemma strstr_Some:
  "strstr t s = Some k \<Longrightarrow> k + length t \<le> length s \<and> prefix t (drop k s)"
proof (induction t s arbitrary: k rule: strstr.induct)
  case (2 t c cs)
  then show ?case by (auto split: if_splits dest: prefix_length_le)
qed (auto split: if_splits)

lemma strstr_first: "strstr t s = Some k \<Longrightarrow> j < k \<Longrightarrow> \<not> prefix t (drop j s)"
proof (induction t s arbitrary: k j rule: strstr.induct)
  case (2 t c cs)
  then show ?case by (cases j) (auto split: if_splits)
qed (auto split: if_splits)

lemma replace_all_none: "strstr t s = None \<Longrightarrow> replace_all t r s = s"
  by (induction t r s rule: replace_all.induct) (auto split: if_splits)

lemma replace_all_some:
  "strstr t s = Some k \<Longrightarrow> t \<noteq> [] \<Longrightarrow>
   replace_all t r s = take k s @ r @ replace_all t r (drop (k + length t) s)"
proof (induction t s arbitrary: k rule: strstr.induct)
  case (2 t c cs)
  then show ?case by (cases "prefix t (c # cs)") auto
qed (auto split: if_splits)

lemma replace_all_length_le:
  "length t \<le> length r \<Longrightarrow> length s \<le> length (replace_all t r s)"
proof (induction t r s rule: replace_all.induct)
  case (2 t r c cs)
  then show ?case by (auto dest: prefix_length_le)
qed simp

lemma replace_all_length_ge:
  "length r \<le> length t \<Longrightarrow> length (replace_all t r s) \<le> length s"
proof (induction t r s rule: replace_all.induct)
  case (2 t r c cs)
  show ?case
  proof (cases "t \<noteq> [] \<and> prefix t (c # cs)")
    case True
    then have "length t \<le> Suc (length cs)" by (auto dest: prefix_length_le)
    with True 2 show ?thesis by auto
  qed (use 2 in auto)
qed simp

lemma joke_length_correct:
  assumes t: "t \<noteq> []"
  shows "n \<le> length joke \<Longrightarrow> int (length joke - n) \<le> len \<Longrightarrow> len < 2 ^ 31 \<Longrightarrow>
     len - int (length joke - n) + int (length (replace_all t r (drop n joke))) < 2 ^ 31 \<Longrightarrow>
     joke_length joke t (length t) (length r) n len =
       Some (len - int (length joke - n) + int (length (replace_all t r (drop n joke))))"
proof (induction "length joke - n" arbitrary: n len rule: less_induct)
  case less
  note len = less.prems
  show ?case
  proof (cases "strstr t (drop n joke)")
    case None
    with less show ?thesis
      by (cases "n = length joke") (subst joke_length.simps, simp add: replace_all_none)+
  next
    case (Some k)
    let ?m = "n + k + length t"
    let ?len = "len - int (length t) + int (length r)"
    let ?rest = "replace_all t r (drop ?m joke)"
    have k: "k + length t \<le> length joke - n" using strstr_Some [OF Some] by simp
    have "0 < length t" using t by simp
    with k have m: "?m \<le> length joke" "length joke - ?m < length joke - n" using len(1) by linarith+
    have all: "length (replace_all t r (drop n joke)) = k + length r + length ?rest"
      using replace_all_some [OF Some t, of r] k by (simp add: add_ac)
    have bound: "?len < 2 ^ 31"
    proof (cases "length t \<le> length r")
      case True
      then have "length joke - ?m \<le> length ?rest"
        using replace_all_length_le [OF True, of "drop ?m joke"] by simp
      then show ?thesis using len(4) all k by linarith
    next
      case False
      then show ?thesis using len(3) by linarith
    qed
    have ok: "int_ok (len - int (length t))" "int_ok ?len"
      using bound len(2,3) k by (simp_all add: int_ok_def)
    have n: "n < length joke" using m len(1) by linarith
    have "joke_length joke t (length t) (length r) n len = joke_length joke t (length t) (length r) ?m ?len"
      using n ok Some by (subst joke_length.simps) simp
    also have "\<dots> = Some (?len - int (length joke - ?m) + int (length ?rest))"
      by (rule less.hyps) (use m bound len k all in linarith)+
    finally show ?thesis using all k by simp
  qed
qed

lemma store_chars_append:
  "i + length cs \<le> length buf \<Longrightarrow>
   store_chars buf i cs = Some (take i buf @ map Some cs @ drop (i + length cs) buf, i + length cs)"
proof (induction buf i cs rule: store_chars.induct)
  case (2 buf i c cs)
  then have "take (Suc i) (buf[i := Some c]) = take i buf @ [Some c]"
    by (simp add: take_Suc_conv_app_nth)
  with 2 show ?case by simp
qed simp

text \<open>The buffer while it is filled: the cells written so far, then unwritten ones.\<close>

lemma store_chars_fill:
  "length cs \<le> u \<Longrightarrow> store_chars (map Some xs @ replicate u None) (length xs) cs =
     Some (map Some (xs @ cs) @ replicate (u - length cs) None, length xs + length cs)"
  by (simp add: store_chars_append)

lemma joke_fill_correct:
  assumes t: "t \<noteq> []"
  shows "p \<le> length joke \<Longrightarrow> length (replace_all t r (drop p joke)) \<le> u \<Longrightarrow>
     \<exists>p' ys. joke_fill joke t (length t) r (length r) p (map Some xs @ replicate u None) (length xs) =
        Some (p', map Some (xs @ ys) @ replicate (u - length ys) None, length xs + length ys) \<and>
      p' \<le> length joke \<and> replace_all t r (drop p joke) = ys @ drop p' joke"
proof (induction "length joke - p" arbitrary: p xs u rule: less_induct)
  case less
  show ?case
  proof (cases "strstr t (drop p joke)")
    case None
    with less.prems show ?thesis
      by (intro exI [of _ p] exI [of _ "[]"], cases "p = length joke")
         (subst joke_fill.simps, simp add: replace_all_none)+
  next
    case (Some k)
    let ?m = "p + k + length t" and ?pre = "take k (drop p joke)"
    have k: "k + length t \<le> length joke - p" using strstr_Some [OF Some] by simp
    have "0 < length t" using t by simp
    with k have m: "?m \<le> length joke" "length joke - ?m < length joke - p" "p < length joke"
      using less.prems(1) by linarith+
    have lpre: "length ?pre = k" using k by simp
    have all: "replace_all t r (drop p joke) = ?pre @ r @ replace_all t r (drop ?m joke)"
      using replace_all_some [OF Some t, of r] by (simp add: add_ac)
    then have u: "k + length r + length (replace_all t r (drop ?m joke)) \<le> u"
      using less.prems(2) lpre by simp
    then have u': "length (replace_all t r (drop ?m joke)) \<le> u - k - length r" by linarith
    have s1: "store_chars (map Some xs @ replicate u None) (length xs) ?pre =
        Some (map Some (xs @ ?pre) @ replicate (u - k) None, length (xs @ ?pre))"
      using store_chars_fill [of ?pre u xs] u lpre by simp
    have s2: "store_chars (map Some (xs @ ?pre) @ replicate (u - k) None) (length (xs @ ?pre)) r =
        Some (map Some (xs @ ?pre @ r) @ replicate (u - k - length r) None, length (xs @ ?pre @ r))"
      using store_chars_fill [of r "u - k" "xs @ ?pre"] u lpre by simp
    obtain p' ys where IH: "joke_fill joke t (length t) r (length r) ?m
          (map Some (xs @ ?pre @ r) @ replicate (u - k - length r) None) (length (xs @ ?pre @ r)) =
        Some (p', map Some ((xs @ ?pre @ r) @ ys) @ replicate (u - k - length r - length ys) None,
              length (xs @ ?pre @ r) + length ys)"
      "p' \<le> length joke" "replace_all t r (drop ?m joke) = ys @ drop p' joke"
      using less.hyps [OF m(2,1), of "u - k - length r" "xs @ ?pre @ r"] u' by blast
    have "joke_fill joke t (length t) r (length r) p (map Some xs @ replicate u None) (length xs) =
        Some (p', map Some (xs @ (?pre @ r @ ys)) @ replicate (u - length (?pre @ r @ ys)) None,
              length xs + length (?pre @ r @ ys))"
      using m(3) Some s1 s2 IH(1) lpre by (subst joke_fill.simps) (simp add: add_ac)
    then show ?thesis using IH(2,3) all by (intro exI [of _ p'] exI [of _ "?pre @ r @ ys"]) simp
  qed
qed

lemma joke_buffer_correct:
  assumes t: "t \<noteq> []" and joke: "length joke < 2 ^ 31"
    and result: "length (replace_all t r joke) < 2 ^ 31 - 1"
  shows "joke_buffer joke (length joke) t (length t) r (length r) ok =
     Some (if ok then Some (map Some (replace_all t r joke @ [nul])) else None)"
proof -
  let ?R = "replace_all t r joke"
  have len: "joke_length joke t (length t) (length r) 0 (int (length joke)) = Some (int (length ?R))"
    using joke_length_correct [OF t, of 0 joke "int (length joke)" r] joke result by simp
  have c: "int_ok (int (length ?R) + 1)" using result by (simp add: int_ok_def)
  have size: "size_of_int (int (length ?R) + 1) = Suc (length ?R)"
    using result by (simp add: size_of_int_def)
  obtain p ys where f: "joke_fill joke t (length t) r (length r) 0 (replicate (Suc (length ?R)) None) 0 =
      Some (p, map Some ys @ replicate (Suc (length ?R) - length ys) None, length ys)"
    "p \<le> length joke" "?R = ys @ drop p joke"
    using joke_fill_correct [OF t, of 0 joke r "Suc (length ?R)" "[]"] by auto
  let ?u = "Suc (length ?R) - length ys"
  have u: "?u = Suc (length (drop p joke))" using f(3) by simp
  have s1: "store_chars (map Some ys @ replicate ?u None) (length ys) (drop p joke) =
      Some (map Some ?R @ [None], length ?R)"
    using store_chars_fill [of "drop p joke" ?u ys] f(3) by (simp add: u)
  have s2: "store_chars (map Some ?R @ [None]) (length ?R) [nul] =
      Some (map Some (?R @ [nul]), Suc (length ?R))"
    using store_chars_fill [of "[nul]" 1 ?R] by simp
  show ?thesis
    using len c f(1) s1 s2 size by (simp add: joke_buffer_def del: store_chars.simps)
qed

lemma buffer_string_of: "c_string s \<Longrightarrow> buffer_string (map Some (s @ [nul])) = Some s"
  by (induction s) (auto simp: c_string_def)

lemma replace_all_c_string: "c_string s \<Longrightarrow> c_string r \<Longrightarrow> c_string (replace_all t r s)"
proof (induction t r s rule: replace_all.induct)
  case (2 t r c cs)
  show ?case
  proof (cases "t \<noteq> [] \<and> prefix t (c # cs)")
    case True
    have "set (drop (length t) (c # cs)) \<subseteq> set (c # cs)" by (rule set_drop_subset)
    then have "c_string (drop (length t) (c # cs))" using 2(3) by (auto simp: c_string_def)
    with True 2 show ?thesis by (simp add: c_string_def)
  qed (use 2 in \<open>auto simp: c_string_def\<close>)
qed (simp add: c_string_def)

text \<open>C29. For a non-empty token \<open>joke_create\<close> ends, stays within the buffer it computed the
  length of, and returns the text with every (leftmost, non-overlapping) occurrence of the
  token replaced, as a new string; with no memory it returns \<open>NULL\<close>. Nothing else changes.
  Texts and results are bounded by what fits an \<open>int\<close>.\<close>

theorem joke_create_correct:
  assumes token: "token \<noteq> []" and strings: "c_string joke" "c_string r"
    and sizes: "length joke < 2 ^ 31" "length (replace_all token r joke) < 2 ^ 31 - 1"
  shows "joke_create joke (length joke) token (length token) r (length r) w =
     Some (if will_succeed w
           then (Some (fresh w), w\<lparr>answers := tl (answers w), fresh := Suc (fresh w),
                   strs := (strs w)(fresh w \<mapsto> replace_all token r joke)\<rparr>)
           else (None, w\<lparr>answers := tl (answers w)\<rparr>))"
  using joke_buffer_correct [OF token sizes] buffer_string_of [OF replace_all_c_string [OF strings]]
  by (cases rule: new_addr_cases [of w]) (simp_all add: joke_create_def)

definition no_strings :: str_heap where
  "no_strings = \<lparr>answers = [], fresh = 3, rwlocks = Map.empty, mutexes = Map.empty,
     refs = Map.empty, strs = Map.empty\<rparr>"

lemma joke_create_correct_witness:
  "\<exists>w'. joke_create ''ab-ab'' 5 ''ab'' 2 ''xyz'' 3 no_strings = Some (Some 3, w') \<and>
        strs w' 3 = Some ''xyz-xyz''"
proof -
  have n: "length ''ab-ab'' = 5" "length ''ab'' = 2" "length ''xyz'' = 3" by simp_all
  have "joke_create ''ab-ab'' (length ''ab-ab'') ''ab'' (length ''ab'') ''xyz'' (length ''xyz'') no_strings =
      Some (if will_succeed no_strings
        then (Some (fresh no_strings), no_strings\<lparr>answers := tl (answers no_strings),
                fresh := Suc (fresh no_strings),
                strs := (strs no_strings)(fresh no_strings \<mapsto> replace_all ''ab'' ''xyz'' ''ab-ab'')\<rparr>)
        else (None, no_strings\<lparr>answers := tl (answers no_strings)\<rparr>))"
    by (rule joke_create_correct) (simp_all add: c_string_def nul_def)
  then show ?thesis unfolding n by (simp add: no_strings_def)
qed

end
