(* ===== verification/Libraries.thy ===== *)
theory Libraries
  imports Joke
begin

section \<open>The libraries the program uses, as parameters\<close>

text \<open>
  libevent's buffers and DNS resolver, http\_parser, jansson and the clock are not part of
  the repository. They are the fields of one record, \<open>lib\<close>, which the definitions that use
  them take as an argument; \<open>'e\<close> is the state of these libraries, \<open>'p\<close> the state of one
  http\_parser. What is relied on is stated by predicates (\<open>evbuffer_laws\<close> here,
  \<open>parser_laws\<close> in the theory of the HTTP engine), which are hypotheses of the properties that need
  them. The constructors of opaque objects (sockets, bufferevents, listeners, evbuffers)
  are treated as allocations: a new handle or \<open>NULL\<close>, as the environment answers.
\<close>

subsection \<open>Types\<close>

text \<open>The three kinds of buffers: of a bufferevent, and the body of a message.\<close>

datatype evbuf = Input addr | Output addr | Body addr

datatype family = AF_INET | AF_INET6 | AF_OTHER

record sockaddr =
  sa_family :: family
  sa_address :: string
  sa_port :: nat

text \<open>What a DNS resolution delivers: an error code or the list of addresses found.\<close>

datatype gai_result = Gai_error int | Gai_addrs "sockaddr list"

text \<open>\<open>evdns_getaddrinfo\<close> queues the request, or it calls back before it returns.\<close>

datatype gai_answer = Gai_pending | Gai_now gai_result

record tm =
  tm_wday :: nat
  tm_mday :: nat
  tm_mon :: nat
  tm_year :: int
  tm_hour :: nat
  tm_min :: nat
  tm_sec :: nat

datatype http_parser_type = HTTP_REQUEST | HTTP_RESPONSE
datatype http_errno = HPE_OK | HPE_PAUSED | HPE_OTHER

text \<open>
  A run of \<open>http_parser_execute\<close>: it calls back, and continues with what the callback
  answered (the returned value and whether it paused the parser), or it returns how many
  bytes it consumed.
\<close>

datatype parser_cb = On_message_begin | On_headers_complete | On_body string | On_message_complete

datatype 'p prun = Returns nat http_errno 'p | Calls parser_cb "int \<times> bool \<Rightarrow> 'p prun"

record ('e, 'p) lib =
  evbuffer_add :: "evbuf \<Rightarrow> string \<Rightarrow> 'e \<Rightarrow> int \<times> 'e"
  evbuffer_add_printf :: "evbuf \<Rightarrow> string \<Rightarrow> 'e \<Rightarrow> int \<times> 'e"
  evbuffer_add_reference :: "evbuf \<Rightarrow> string \<Rightarrow> 'e \<Rightarrow> int \<times> 'e"
  evbuffer_drain :: "evbuf \<Rightarrow> nat \<Rightarrow> 'e \<Rightarrow> int \<times> 'e"
  evbuffer_get_length :: "evbuf \<Rightarrow> 'e \<Rightarrow> nat"
  evbuffer_ptr_set :: "evbuf \<Rightarrow> nat \<Rightarrow> 'e \<Rightarrow> int"
  evbuffer_peek :: "evbuf \<Rightarrow> nat \<Rightarrow> 'e \<Rightarrow> string list"
  evbuffer_pullup :: "evbuf \<Rightarrow> 'e \<Rightarrow> string option"
  bufferevent_read :: "addr \<Rightarrow> nat \<Rightarrow> 'e \<Rightarrow> string \<times> 'e"
  bufferevent_write :: "addr \<Rightarrow> string \<Rightarrow> 'e \<Rightarrow> int \<times> 'e"
  bufferevent_flush :: "addr \<Rightarrow> 'e \<Rightarrow> int \<times> 'e"
  bufferevent_socket_connect :: "addr \<Rightarrow> sockaddr \<Rightarrow> 'e \<Rightarrow> int \<times> 'e"
  bufferevent_getwatermark :: "addr \<Rightarrow> 'e \<Rightarrow> nat"
  http_parser_init :: "http_parser_type \<Rightarrow> 'p"
  http_parser_execute :: "'p \<Rightarrow> string \<Rightarrow> 'p prun"
  http_parser_unpause :: "'p \<Rightarrow> 'p"
  json_loadb :: "string \<Rightarrow> bool"
  json_unpack :: "string \<Rightarrow> string list list \<Rightarrow> string list option"
  evdns_getaddrinfo :: "string \<Rightarrow> 'e \<Rightarrow> gai_answer \<times> 'e"
  gmtime :: "'e \<Rightarrow> tm option"

subsection \<open>What is documented of the buffers\<close>

text \<open>
  \<open>C b e\<close>: the bytes in the buffer \<open>b\<close>. A successful addition appends, a successful drain
  removes from the front, the length is the number of bytes, and the chunks of
  \<open>evbuffer_peek\<close> are the bytes from the given position, which must lie in the buffer. No
  operation on one buffer changes another.
\<close>

definition appends :: "(evbuf \<Rightarrow> 'e \<Rightarrow> string) \<Rightarrow> (evbuf \<Rightarrow> string \<Rightarrow> 'e \<Rightarrow> int \<times> 'e) \<Rightarrow> bool" where
  "appends C f \<longleftrightarrow> (\<forall>b s e r e'. f b s e = (r, e') \<longrightarrow>
     (0 \<le> r \<longrightarrow> C b e' = C b e @ s) \<and> (\<forall>b'. b' \<noteq> b \<longrightarrow> C b' e' = C b' e))"

definition evbuffer_laws :: "('e, 'p) lib \<Rightarrow> (evbuf \<Rightarrow> 'e \<Rightarrow> string) \<Rightarrow> bool" where
  "evbuffer_laws L C \<longleftrightarrow>
     appends C (evbuffer_add L) \<and> appends C (evbuffer_add_printf L) \<and>
     appends C (evbuffer_add_reference L) \<and>
     (\<forall>b n e r e'. evbuffer_drain L b n e = (r, e') \<longrightarrow>
        (0 \<le> r \<longrightarrow> C b e' = drop n (C b e)) \<and> (\<forall>b'. b' \<noteq> b \<longrightarrow> C b' e' = C b' e)) \<and>
     (\<forall>b e. evbuffer_get_length L b e = length (C b e)) \<and>
     (\<forall>b n e. 0 \<le> evbuffer_ptr_set L b n e \<longleftrightarrow> n \<le> length (C b e)) \<and>
     (\<forall>b n e. n \<le> length (C b e) \<longrightarrow> concat (evbuffer_peek L b n e) = drop n (C b e))"

lemma appendsD:
  "appends C f \<Longrightarrow> f b s e = (r, e') \<Longrightarrow> 0 \<le> r \<Longrightarrow> C b e' = C b e @ s"
  "appends C f \<Longrightarrow> f b s e = (r, e') \<Longrightarrow> b' \<noteq> b \<Longrightarrow> C b' e' = C b' e"
  by (auto simp: appends_def)

lemma evbuffer_lawsD:
  assumes "evbuffer_laws L C"
  shows "appends C (evbuffer_add L)" "appends C (evbuffer_add_printf L)"
    "appends C (evbuffer_add_reference L)" "evbuffer_get_length L b e = length (C b e)"
  using assms by (auto simp: evbuffer_laws_def)

text \<open>
  Buffers as lists of bytes, a parser that reads nothing, and a resolver that always queues:
  a library to evaluate concrete runs with.
\<close>

definition list_add :: "evbuf \<Rightarrow> string \<Rightarrow> (evbuf \<Rightarrow> string) \<Rightarrow> int \<times> (evbuf \<Rightarrow> string)" where
  "list_add b s e = (0, e(b := e b @ s))"

definition list_lib :: "(evbuf \<Rightarrow> string, unit) lib" where
  "list_lib = \<lparr>evbuffer_add = list_add, evbuffer_add_printf = list_add, evbuffer_add_reference = list_add,
     evbuffer_drain = (\<lambda>b n e. (0, e(b := drop n (e b)))), evbuffer_get_length = (\<lambda>b e. length (e b)),
     evbuffer_ptr_set = (\<lambda>b n e. if n \<le> length (e b) then 0 else -1),
     evbuffer_peek = (\<lambda>b n e. if n < length (e b) then [drop n (e b)] else []),
     evbuffer_pullup = (\<lambda>b e. Some (e b)),
     bufferevent_read = (\<lambda>b n e. (take n (e (Input b)), e(Input b := drop n (e (Input b))))),
     bufferevent_write = (\<lambda>b s e. list_add (Output b) s e), bufferevent_flush = (\<lambda>b e. (0, e)),
     bufferevent_socket_connect = (\<lambda>b sa e. (0, e)),
     bufferevent_getwatermark = (\<lambda>b e. 0), http_parser_init = (\<lambda>t. ()),
     http_parser_execute = (\<lambda>p s. Returns (length s) HPE_OK ()), http_parser_unpause = (\<lambda>p. p),
     json_loadb = (\<lambda>s. True), json_unpack = (\<lambda>s fs. Some (map (\<lambda>f. ''x'') fs)),
     evdns_getaddrinfo = (\<lambda>s e. (Gai_pending, e)),
     gmtime = (\<lambda>e. Some \<lparr>tm_wday = 4, tm_mday = 1, tm_mon = 0, tm_year = 1970, tm_hour = 0,
                        tm_min = 0, tm_sec = 0\<rparr>)\<rparr>"

lemma list_lib_laws: "evbuffer_laws list_lib (\<lambda>b e. e b)"
  by (auto simp: evbuffer_laws_def list_lib_def appends_def list_add_def)

end
