(* ===== verification/Tcp_Socket.thy ===== *)
theory Tcp_Socket
  imports Libraries
begin

unbundle bit_operations_syntax

section \<open>IO channels over TCP sockets (io\_channel.h, io\_service.h, tcp\_socket.c)\<close>

text \<open>
  An \<open>io_channel_t\<close> is always the \<open>parent\<close> of a \<open>tcp_socket_t\<close>, so one record holds both;
  the only table of operations is \<open>tcp_socket_ops\<close>, so \<open>channel_free\<close> and the like are the
  TCP operation on a channel that must be live. The union of \<open>bev\<close> and \<open>listener\<close> is one
  field, \<open>ch_io\<close>, read as the flag \<open>listen\<close> says. The heap keeps the open sockets (\<open>fds\<close>) and
  the libevent objects the program owns with what it gave them: the socket and the argument
  of the callbacks. Freeing a bufferevent or a listener closes its socket, since they are
  created with the CLOSE\_ON\_FREE options.
\<close>

subsection \<open>Data\<close>

datatype io_channel_error = IO_CHANNEL_E_SUCCESS | IO_CHANNEL_E_AGAIN | IO_CHANNEL_E_ERROR

definition IO_CHANNEL_EVENT_NONE :: "32 word" where "IO_CHANNEL_EVENT_NONE = 0x00"
definition IO_CHANNEL_EVENT_READ :: "32 word" where "IO_CHANNEL_EVENT_READ = 0x01"
definition IO_CHANNEL_EVENT_WRITE :: "32 word" where "IO_CHANNEL_EVENT_WRITE = 0x02"
definition IO_CHANNEL_EVENT_CONNECTED :: "32 word" where "IO_CHANNEL_EVENT_CONNECTED = 0x04"
definition IO_CHANNEL_EVENT_EOF :: "32 word" where "IO_CHANNEL_EVENT_EOF = 0x08"
definition IO_CHANNEL_EVENT_ERROR :: "32 word" where "IO_CHANNEL_EVENT_ERROR = 0x10"
definition IO_CHANNEL_EVENT_TIMEOUT :: "32 word" where "IO_CHANNEL_EVENT_TIMEOUT = 0x20"

text \<open>The flags of libevent's \<open>bufferevent.h\<close>.\<close>

definition BEV_EVENT_READING :: "16 word" where "BEV_EVENT_READING = 0x01"
definition BEV_EVENT_WRITING :: "16 word" where "BEV_EVENT_WRITING = 0x02"
definition BEV_EVENT_EOF :: "16 word" where "BEV_EVENT_EOF = 0x10"
definition BEV_EVENT_ERROR :: "16 word" where "BEV_EVENT_ERROR = 0x20"
definition BEV_EVENT_TIMEOUT :: "16 word" where "BEV_EVENT_TIMEOUT = 0x40"
definition BEV_EVENT_CONNECTED :: "16 word" where "BEV_EVENT_CONNECTED = 0x80"

lemmas io_event_flags =
  IO_CHANNEL_EVENT_NONE_def IO_CHANNEL_EVENT_READ_def IO_CHANNEL_EVENT_WRITE_def
  IO_CHANNEL_EVENT_CONNECTED_def IO_CHANNEL_EVENT_EOF_def IO_CHANNEL_EVENT_ERROR_def
  IO_CHANNEL_EVENT_TIMEOUT_def

lemmas bev_event_flags =
  BEV_EVENT_READING_def BEV_EVENT_WRITING_def BEV_EVENT_EOF_def
  BEV_EVENT_ERROR_def BEV_EVENT_TIMEOUT_def BEV_EVENT_CONNECTED_def

record accept_param =
  ap_src :: sockaddr
  ap_dst :: sockaddr
  ap_proto :: nat
  ap_io_ctx :: ptr

text \<open>The two \<open>io_service_t\<close> objects of the program; what they do is in their own theories.\<close>

datatype service = Http_io_service | Http_session_io_service

record 'w io_service =
  accept_cb :: "(ptr \<Rightarrow> accept_param \<Rightarrow> 'w \<Rightarrow> 'w option) option"
  read_cb :: "(ptr \<Rightarrow> 'w \<Rightarrow> 'w option) option"
  write_cb :: "(ptr \<Rightarrow> 'w \<Rightarrow> 'w option) option"
  event_cb :: "(ptr \<Rightarrow> 32 word \<Rightarrow> 'w \<Rightarrow> 'w option) option"

record channel =
  ch_service :: "service option"
  ch_eof :: bool
  ch_ctx :: ptr
  ch_io :: ptr
  ch_listen :: bool

record bev =
  bev_fd :: addr
  bev_arg :: ptr
  bev_high_wm :: nat

record listener =
  lst_fd :: addr
  lst_arg :: ptr

text \<open>\<open>this_ebase\<close> and \<open>this_dns\<close>: the event loop and the resolver of the running thread.\<close>

record 'e net = str_heap +
  ext :: 'e
  fds :: "addr set"
  bevs :: "addr \<rightharpoonup> bev"
  listeners :: "addr \<rightharpoonup> listener"
  channels :: "addr \<rightharpoonup> channel"
  this_ebase :: ptr
  this_dns :: ptr

subsection \<open>Sockets and libevent objects\<close>

definition evutil_closesocket :: "addr \<Rightarrow> ('e, 'm) net_scheme \<Rightarrow> ('e, 'm) net_scheme" where
  "evutil_closesocket fd w = w\<lparr>fds := fds w - {fd}\<rparr>"

definition new_socket :: "('e, 'm) net_scheme \<Rightarrow> ptr \<times> ('e, 'm) net_scheme" where
  "new_socket w =
     (case new_addr w of
        (None, w1) \<Rightarrow> (None, w1)
      | (Some fd, w1) \<Rightarrow> (Some fd, w1\<lparr>fds := insert fd (fds w1)\<rparr>))"

definition bufferevent_socket_new :: "addr \<Rightarrow> ('e, 'm) net_scheme \<Rightarrow> ptr \<times> ('e, 'm) net_scheme" where
  "bufferevent_socket_new fd w =
     (case new_addr w of
        (None, w1) \<Rightarrow> (None, w1)
      | (Some b, w1) \<Rightarrow>
          (Some b, w1\<lparr>bevs := (bevs w1)(b \<mapsto> \<lparr>bev_fd = fd, bev_arg = None, bev_high_wm = 0\<rparr>)\<rparr>))"

definition bufferevent_free :: "addr \<Rightarrow> ('e, 'm) net_scheme \<Rightarrow> ('e, 'm) net_scheme option" where
  "bufferevent_free b w =
     do { B \<leftarrow> bevs w b;
          Some (evutil_closesocket (bev_fd B) (w\<lparr>bevs := (bevs w)(b := None)\<rparr>)) }"

definition evconnlistener_new ::
  "ptr \<Rightarrow> addr \<Rightarrow> ('e, 'm) net_scheme \<Rightarrow> ptr \<times> ('e, 'm) net_scheme" where
  "evconnlistener_new arg fd w =
     (case new_addr w of
        (None, w1) \<Rightarrow> (None, w1)
      | (Some l, w1) \<Rightarrow> (Some l, w1\<lparr>listeners := (listeners w1)(l \<mapsto> \<lparr>lst_fd = fd, lst_arg = arg\<rparr>)\<rparr>))"

definition evconnlistener_free :: "addr \<Rightarrow> ('e, 'm) net_scheme \<Rightarrow> ('e, 'm) net_scheme option" where
  "evconnlistener_free l w =
     do { K \<leftarrow> listeners w l;
          Some (evutil_closesocket (lst_fd K) (w\<lparr>listeners := (listeners w)(l := None)\<rparr>)) }"

subsection \<open>Operations\<close>

definition set_channel :: "addr \<Rightarrow> channel \<Rightarrow> ('e, 'm) net_scheme \<Rightarrow> ('e, 'm) net_scheme" where
  "set_channel a c w = w\<lparr>channels := (channels w)(a \<mapsto> c)\<rparr>"

definition tcp_socket_new :: "('e, 'm) net_scheme \<Rightarrow> ptr \<times> ('e, 'm) net_scheme" where
  "tcp_socket_new w =
     (case new_addr w of
        (None, w1) \<Rightarrow> (None, w1)
      | (Some a, w1) \<Rightarrow>
          (Some a, set_channel a \<lparr>ch_service = None, ch_eof = False, ch_ctx = None, ch_io = None,
                                  ch_listen = False\<rparr> w1))"

definition tcp_socket_free :: "ptr \<Rightarrow> ('e, 'm) net_scheme \<Rightarrow> ('e, 'm) net_scheme option" where
  "tcp_socket_free p w =
     (case p of None \<Rightarrow> Some w
      | Some a \<Rightarrow> do {
          c \<leftarrow> channels w a;
          w1 \<leftarrow> (if ch_listen c
                 then (case ch_io c of
                         None \<Rightarrow> Some w
                       | Some l \<Rightarrow> do { w1 \<leftarrow> evconnlistener_free l w;
                                       Some (set_channel a (c\<lparr>ch_io := None\<rparr>) w1) })
                 else (case ch_io c of
                         None \<Rightarrow> Some w
                       | Some b \<Rightarrow> do { w1 \<leftarrow> bufferevent_free b w;
                                       Some (set_channel a (c\<lparr>ch_io := None\<rparr>) w1) }));
          Some (w1\<lparr>channels := (channels w1)(a := None)\<rparr>) })"

definition TCP_SOCKET_READ_HIGH_WM :: nat where
  "TCP_SOCKET_READ_HIGH_WM = 16 * 1024 * 1024"

definition tcp_socket_config :: "addr \<Rightarrow> ('e, 'm) net_scheme \<Rightarrow> (int \<times> ('e, 'm) net_scheme) option" where
  "tcp_socket_config a w =
     do { c \<leftarrow> channels w a;
          b \<leftarrow> ch_io c;
          B \<leftarrow> bevs w b;
          let w1 = w\<lparr>bevs := (bevs w)(b \<mapsto> B\<lparr>bev_arg := Some a\<rparr>)\<rparr>;
          let (enabled, w2) = ask w1;
          if \<not> enabled
          then do { w3 \<leftarrow> bufferevent_free b w2;
                    Some (-1, set_channel a (c\<lparr>ch_io := None\<rparr>) w3) }
          else Some (0, w2\<lparr>bevs := (bevs w2)(b \<mapsto> B\<lparr>bev_arg := Some a,
                                                     bev_high_wm := TCP_SOCKET_READ_HIGH_WM\<rparr>)\<rparr>) }"

definition tcp_socket_accept :: "accept_param \<Rightarrow> ('e, 'm) net_scheme \<Rightarrow> (ptr \<times> ('e, 'm) net_scheme) option" where
  "tcp_socket_accept param w =
     (if this_ebase w = None then Some (None, w)
      else (case tcp_socket_new w of
              (None, w1) \<Rightarrow> Some (None, w1)
            | (Some a, w1) \<Rightarrow> do {
                c \<leftarrow> channels w1 a;
                let w2 = set_channel a (c\<lparr>ch_io := ap_io_ctx param\<rparr>) w1;
                (r, w3) \<leftarrow> tcp_socket_config a w2;
                if r = 0 then Some (Some a, w3)
                else do { w4 \<leftarrow> tcp_socket_free (Some a) w3; Some (None, w4) } }))"

text \<open>The error exit of \<open>tcp_socket_connect\<close>: \<open>fd\<close> is -1 (\<open>None\<close>) or a socket still owned.\<close>

definition connect_error :: "addr \<Rightarrow> ptr \<Rightarrow> ('e, 'm) net_scheme \<Rightarrow> (io_channel_error \<times> ('e, 'm) net_scheme) option" where
  "connect_error a fd w =
     do { let w1 = (case fd of None \<Rightarrow> w | Some s \<Rightarrow> evutil_closesocket s w);
          c \<leftarrow> channels w1 a;
          w2 \<leftarrow> (case ch_io c of None \<Rightarrow> Some w1 | Some b \<Rightarrow> bufferevent_free b w1);
          Some (IO_CHANNEL_E_ERROR, w2) }"

definition tcp_socket_connect ::
  "('e, 'p) lib \<Rightarrow> addr \<Rightarrow> sockaddr \<Rightarrow> ('e, 'm) net_scheme \<Rightarrow>
   (io_channel_error \<times> ('e, 'm) net_scheme) option" where
  "tcp_socket_connect L a sa w =
     do { c \<leftarrow> channels w a;
          if ch_io c \<noteq> None then Some (IO_CHANNEL_E_ERROR, w)
          else (case new_socket w of
              (None, w1) \<Rightarrow> connect_error a None w1
            | (Some fd, w1) \<Rightarrow>
                if this_ebase w1 = None then connect_error a (Some fd) w1
                else (case bufferevent_socket_new fd w1 of
                    (None, w2) \<Rightarrow> connect_error a (Some fd) w2
                  | (Some b, w2) \<Rightarrow> do {
                      (r, w3) \<leftarrow> tcp_socket_config a (set_channel a (c\<lparr>ch_io := Some b\<rparr>) w2);
                      if r < 0 then connect_error a None w3
                      else (let (ret, e) = bufferevent_socket_connect L b sa (ext w3);
                                w4 = w3\<lparr>ext := e\<rparr>
                            in if ret < 0 then connect_error a None w4
                               else Some (IO_CHANNEL_E_AGAIN, w4)) })) }"

text \<open>\<open>setsockopt\<close> and \<open>bind\<close> ask the environment.\<close>

definition tcp_socket_listen ::
  "addr \<Rightarrow> sockaddr \<Rightarrow> ('e, 'm) net_scheme \<Rightarrow> (io_channel_error \<times> ('e, 'm) net_scheme) option" where
  "tcp_socket_listen a sa w =
     (if sa_family sa \<noteq> AF_INET \<and> sa_family sa \<noteq> AF_INET6 then Some (IO_CHANNEL_E_ERROR, w)
      else (case new_socket w of
          (None, w1) \<Rightarrow> Some (IO_CHANNEL_E_ERROR, w1)
        | (Some fd, w1) \<Rightarrow>
            (let (opt_ok, w2) = ask w1
             in if \<not> opt_ok then Some (IO_CHANNEL_E_ERROR, evutil_closesocket fd w2)
             else let (bind_ok, w3) = ask w2
             in if \<not> bind_ok then Some (IO_CHANNEL_E_ERROR, evutil_closesocket fd w3)
             else (case evconnlistener_new (Some a) fd w3 of
                 (None, w4) \<Rightarrow> Some (IO_CHANNEL_E_ERROR, evutil_closesocket fd w4)
               | (Some l, w4) \<Rightarrow> do {
                   c \<leftarrow> channels w4 a;
                   Some (IO_CHANNEL_E_SUCCESS,
                         set_channel a (c\<lparr>ch_io := Some l, ch_listen := True\<rparr>) w4) }))))"

subsection \<open>Buffers of a channel\<close>

text \<open>\<open>tcp_socket->bev\<close>, which must be a live bufferevent to be passed to libevent.\<close>

definition channel_bev :: "ptr \<Rightarrow> ('e, 'm) net_scheme \<Rightarrow> addr option" where
  "channel_bev p w =
     do { a \<leftarrow> p; c \<leftarrow> channels w a; b \<leftarrow> ch_io c; B \<leftarrow> bevs w b; Some b }"

definition tcp_socket_get_input :: "ptr \<Rightarrow> ('e, 'm) net_scheme \<Rightarrow> evbuf option" where
  "tcp_socket_get_input p w = do { b \<leftarrow> channel_bev p w; Some (Input b) }"

definition tcp_socket_get_output :: "ptr \<Rightarrow> ('e, 'm) net_scheme \<Rightarrow> evbuf option" where
  "tcp_socket_get_output p w = do { b \<leftarrow> channel_bev p w; Some (Output b) }"

definition tcp_socket_get_input_length :: "('e, 'p) lib \<Rightarrow> ptr \<Rightarrow> ('e, 'm) net_scheme \<Rightarrow> nat option" where
  "tcp_socket_get_input_length L p w =
     do { i \<leftarrow> tcp_socket_get_input p w; Some (evbuffer_get_length L i (ext w)) }"

definition tcp_socket_get_output_length :: "('e, 'p) lib \<Rightarrow> ptr \<Rightarrow> ('e, 'm) net_scheme \<Rightarrow> nat option" where
  "tcp_socket_get_output_length L p w =
     do { i \<leftarrow> tcp_socket_get_output p w; Some (evbuffer_get_length L i (ext w)) }"

definition tcp_socket_get_write_low_wm :: "('e, 'p) lib \<Rightarrow> ptr \<Rightarrow> ('e, 'm) net_scheme \<Rightarrow> nat option" where
  "tcp_socket_get_write_low_wm L p w =
     do { b \<leftarrow> channel_bev p w; Some (bufferevent_getwatermark L b (ext w)) }"

definition tcp_socket_drain_input ::
  "('e, 'p) lib \<Rightarrow> ptr \<Rightarrow> nat \<Rightarrow> ('e, 'm) net_scheme \<Rightarrow> (int \<times> ('e, 'm) net_scheme) option" where
  "tcp_socket_drain_input L p n w =
     do { i \<leftarrow> tcp_socket_get_input p w;
          let (r, e) = evbuffer_drain L i n (ext w);
          Some (if r < 0 then -1 else 0, w\<lparr>ext := e\<rparr>) }"

definition tcp_socket_read ::
  "('e, 'p) lib \<Rightarrow> ptr \<Rightarrow> nat \<Rightarrow> ('e, 'm) net_scheme \<Rightarrow>
   ((io_channel_error \<times> string) \<times> ('e, 'm) net_scheme) option" where
  "tcp_socket_read L p len w =
     do { b \<leftarrow> channel_bev p w;
          let (s, e) = bufferevent_read L b len (ext w);
          Some ((if length s \<noteq> len then IO_CHANNEL_E_ERROR else IO_CHANNEL_E_SUCCESS, s), w\<lparr>ext := e\<rparr>) }"

definition tcp_socket_write ::
  "('e, 'p) lib \<Rightarrow> ptr \<Rightarrow> string \<Rightarrow> ('e, 'm) net_scheme \<Rightarrow> (io_channel_error \<times> ('e, 'm) net_scheme) option" where
  "tcp_socket_write L p s w =
     do { b \<leftarrow> channel_bev p w;
          let (r, e) = bufferevent_write L b s (ext w);
          Some (if r < 0 then IO_CHANNEL_E_ERROR else IO_CHANNEL_E_SUCCESS, w\<lparr>ext := e\<rparr>) }"

text \<open>The two questions: has the bufferevent a descriptor, and does \<open>shutdown\<close> succeed.\<close>

definition tcp_socket_shutdown ::
  "('e, 'p) lib \<Rightarrow> ptr \<Rightarrow> ('e, 'm) net_scheme \<Rightarrow> (io_channel_error \<times> ('e, 'm) net_scheme) option" where
  "tcp_socket_shutdown L p w =
     do { b \<leftarrow> channel_bev p w;
          let (r, e) = bufferevent_flush L b (ext w);
          let w1 = w\<lparr>ext := e\<rparr>;
          if r < 0 then Some (IO_CHANNEL_E_ERROR, w1)
          else (let (has_fd, w2) = ask w1
                in if \<not> has_fd then Some (IO_CHANNEL_E_ERROR, w2)
                else let (ok, w3) = ask w2
                in Some (if ok then IO_CHANNEL_E_SUCCESS else IO_CHANNEL_E_ERROR, w3)) }"

subsection \<open>The IO channel interface (\<open>io_channel.h\<close>)\<close>

definition channel_free :: "ptr \<Rightarrow> ('e, 'm) net_scheme \<Rightarrow> ('e, 'm) net_scheme option" where
  "channel_free p w = do { c \<leftarrow> deref (channels w) p; tcp_socket_free p w }"

definition channel_accept :: "ptr \<Rightarrow> accept_param \<Rightarrow> ('e, 'm) net_scheme \<Rightarrow> (ptr \<times> ('e, 'm) net_scheme) option" where
  "channel_accept p param w = do { c \<leftarrow> deref (channels w) p; tcp_socket_accept param w }"

definition channel_listen ::
  "ptr \<Rightarrow> sockaddr \<Rightarrow> ('e, 'm) net_scheme \<Rightarrow> (io_channel_error \<times> ('e, 'm) net_scheme) option" where
  "channel_listen p sa w = do { a \<leftarrow> p; c \<leftarrow> channels w a; tcp_socket_listen a sa w }"

definition channel_connect ::
  "('e, 'p) lib \<Rightarrow> ptr \<Rightarrow> sockaddr \<Rightarrow> ('e, 'm) net_scheme \<Rightarrow>
   (io_channel_error \<times> ('e, 'm) net_scheme) option" where
  "channel_connect L p sa w = do { a \<leftarrow> p; c \<leftarrow> channels w a; tcp_socket_connect L a sa w }"

definition channel_read ::
  "('e, 'p) lib \<Rightarrow> ptr \<Rightarrow> nat \<Rightarrow> ('e, 'm) net_scheme \<Rightarrow>
   ((io_channel_error \<times> string) \<times> ('e, 'm) net_scheme) option" where
  "channel_read L p len w = do { c \<leftarrow> deref (channels w) p; tcp_socket_read L p len w }"

definition channel_write ::
  "('e, 'p) lib \<Rightarrow> ptr \<Rightarrow> string \<Rightarrow> ('e, 'm) net_scheme \<Rightarrow> (io_channel_error \<times> ('e, 'm) net_scheme) option" where
  "channel_write L p s w = do { c \<leftarrow> deref (channels w) p; tcp_socket_write L p s w }"

definition channel_shutdown ::
  "('e, 'p) lib \<Rightarrow> ptr \<Rightarrow> ('e, 'm) net_scheme \<Rightarrow> (io_channel_error \<times> ('e, 'm) net_scheme) option" where
  "channel_shutdown L p w = do { c \<leftarrow> deref (channels w) p; tcp_socket_shutdown L p w }"

definition channel_get_input :: "ptr \<Rightarrow> ('e, 'm) net_scheme \<Rightarrow> evbuf option" where
  "channel_get_input p w = do { c \<leftarrow> deref (channels w) p; tcp_socket_get_input p w }"

definition channel_get_output :: "ptr \<Rightarrow> ('e, 'm) net_scheme \<Rightarrow> evbuf option" where
  "channel_get_output p w = do { c \<leftarrow> deref (channels w) p; tcp_socket_get_output p w }"

definition channel_get_input_length :: "('e, 'p) lib \<Rightarrow> ptr \<Rightarrow> ('e, 'm) net_scheme \<Rightarrow> nat option" where
  "channel_get_input_length L p w = do { c \<leftarrow> deref (channels w) p; tcp_socket_get_input_length L p w }"

definition channel_get_output_length :: "('e, 'p) lib \<Rightarrow> ptr \<Rightarrow> ('e, 'm) net_scheme \<Rightarrow> nat option" where
  "channel_get_output_length L p w = do { c \<leftarrow> deref (channels w) p; tcp_socket_get_output_length L p w }"

definition channel_get_write_low_wm :: "('e, 'p) lib \<Rightarrow> ptr \<Rightarrow> ('e, 'm) net_scheme \<Rightarrow> nat option" where
  "channel_get_write_low_wm L p w = do { c \<leftarrow> deref (channels w) p; tcp_socket_get_write_low_wm L p w }"

definition channel_drain_input ::
  "('e, 'p) lib \<Rightarrow> ptr \<Rightarrow> nat \<Rightarrow> ('e, 'm) net_scheme \<Rightarrow> (int \<times> ('e, 'm) net_scheme) option" where
  "channel_drain_input L p n w = do { c \<leftarrow> deref (channels w) p; tcp_socket_drain_input L p n w }"

text \<open>The operations of a socket look at the channel themselves, so the detour over its table changes nothing.\<close>

lemma channel_dispatch [simp]:
  "channel_get_input = tcp_socket_get_input" "channel_get_output = tcp_socket_get_output"
  "channel_get_input_length = tcp_socket_get_input_length" "channel_get_output_length = tcp_socket_get_output_length"
  "channel_drain_input = tcp_socket_drain_input"
  by (intro ext, simp add: channel_get_input_def channel_get_output_def channel_get_input_length_def channel_get_output_length_def
        channel_drain_input_def tcp_socket_get_input_def tcp_socket_get_output_def tcp_socket_get_input_length_def
        tcp_socket_get_output_length_def tcp_socket_drain_input_def channel_bev_def deref_def split: option.split bind_splits)+

subsection \<open>The callbacks given to libevent\<close>

text \<open>\<open>svc\<close> is the table of the service objects; \<open>arg\<close> the channel the callback was set with.\<close>

definition tcp_socket_write_cb ::
  "(service \<Rightarrow> ('e, 'm) net_scheme io_service) \<Rightarrow> ptr \<Rightarrow> ('e, 'm) net_scheme \<Rightarrow> ('e, 'm) net_scheme option" where
  "tcp_socket_write_cb svc arg w =
     do { c \<leftarrow> deref (channels w) arg;
          (case ch_service c of None \<Rightarrow> Some w
           | Some s \<Rightarrow> (case write_cb (svc s) of None \<Rightarrow> Some w | Some f \<Rightarrow> f arg w)) }"

definition tcp_socket_read_cb ::
  "(service \<Rightarrow> ('e, 'm) net_scheme io_service) \<Rightarrow> ptr \<Rightarrow> ('e, 'm) net_scheme \<Rightarrow> ('e, 'm) net_scheme option" where
  "tcp_socket_read_cb svc arg w =
     do { c \<leftarrow> deref (channels w) arg;
          (case ch_service c of None \<Rightarrow> Some w
           | Some s \<Rightarrow> (case read_cb (svc s) of None \<Rightarrow> Some w | Some f \<Rightarrow> f arg w)) }"

definition has_flag :: "'a::len word \<Rightarrow> 'a word \<Rightarrow> bool" where
  "has_flag x f \<longleftrightarrow> x AND f \<noteq> 0"

definition io_event_of :: "16 word \<Rightarrow> 32 word" where
  "io_event_of events =
     (let e0 = IO_CHANNEL_EVENT_NONE;
          e1 = (if has_flag events BEV_EVENT_ERROR then e0 OR IO_CHANNEL_EVENT_ERROR
                else let d1 = (if has_flag events BEV_EVENT_READING \<and> has_flag events BEV_EVENT_EOF
                               then e0 OR IO_CHANNEL_EVENT_EOF else e0);
                         d2 = (if has_flag events BEV_EVENT_CONNECTED
                               then d1 OR IO_CHANNEL_EVENT_CONNECTED else d1)
                     in if has_flag events BEV_EVENT_TIMEOUT then d2 OR IO_CHANNEL_EVENT_TIMEOUT else d2);
          e2 = (if has_flag events BEV_EVENT_READING then e1 OR IO_CHANNEL_EVENT_READ else e1)
      in if has_flag events BEV_EVENT_WRITING then e2 OR IO_CHANNEL_EVENT_WRITE else e2)"

definition sets_eof :: "16 word \<Rightarrow> bool" where
  "sets_eof events \<longleftrightarrow> \<not> has_flag events BEV_EVENT_ERROR \<and>
     has_flag events BEV_EVENT_READING \<and> has_flag events BEV_EVENT_EOF"

text \<open>
  The test at the top of \<open>tcp_socket_event_cb\<close> is \<open>NULL == service && NULL == service->event_cb\<close>:
  with no service it dereferences \<open>NULL\<close>, with a service it lets every event through.
\<close>

definition tcp_socket_event_cb ::
  "(service \<Rightarrow> ('e, 'm) net_scheme io_service) \<Rightarrow> 16 word \<Rightarrow> ptr \<Rightarrow> ('e, 'm) net_scheme \<Rightarrow>
   ('e, 'm) net_scheme option" where
  "tcp_socket_event_cb svc events arg w =
     do { a \<leftarrow> arg;
          c \<leftarrow> channels w a;
          s \<leftarrow> ch_service c;
          let w1 = (if sets_eof events then set_channel a (c\<lparr>ch_eof := True\<rparr>) w else w);
          f \<leftarrow> event_cb (svc s);
          f arg (io_event_of events) w1 }"

text \<open>
  \<open>fd\<close> is the accepted socket, \<open>local\<close> what \<open>getsockname\<close> delivers. The questions are:
  does \<open>getsockname\<close> succeed, has the listener a base, can the bufferevent be made.
\<close>

definition tcp_socket_accept_cb ::
  "(service \<Rightarrow> ('e, 'm) net_scheme io_service) \<Rightarrow> addr \<Rightarrow> sockaddr \<Rightarrow> sockaddr \<Rightarrow> ptr \<Rightarrow>
   ('e, 'm) net_scheme \<Rightarrow> ('e, 'm) net_scheme option" where
  "tcp_socket_accept_cb svc fd sa local arg w =
     (if sa_family sa \<noteq> AF_INET \<and> sa_family sa \<noteq> AF_INET6 then Some (evutil_closesocket fd w)
      else let (name_ok, w1) = ask w
      in if \<not> name_ok then Some (evutil_closesocket fd w1)
      else let (base_ok, w2) = ask w1
      in if \<not> base_ok then Some (evutil_closesocket fd w2)
      else (case bufferevent_socket_new fd w2 of
          (None, w3) \<Rightarrow> Some (evutil_closesocket fd w3)
        | (Some b, w3) \<Rightarrow> do {
            c \<leftarrow> deref (channels w3) arg;
            s \<leftarrow> ch_service c;
            f \<leftarrow> accept_cb (svc s);
            f arg \<lparr>ap_src = local, ap_dst = sa, ap_proto = 6, ap_io_ctx = Some b\<rparr> w3 }))"

subsection \<open>The event flags\<close>

lemma has_flag_literals:
  fixes f :: "'a::len word"
  shows "has_flag 0 f = False" "has_flag (1 :: 'a word) 1"
    "has_flag (1 :: 'a word) (numeral m) = ((1 :: 'a word) AND numeral m \<noteq> 0)"
    "has_flag (numeral n :: 'a word) 1 = ((numeral n :: 'a word) AND 1 \<noteq> 0)"
    "has_flag (numeral n :: 'a word) (numeral m) = ((numeral n :: 'a word) AND numeral m \<noteq> 0)"
  by (simp_all add: has_flag_def)

text \<open>C30. The translation of libevent's flags: an error is reported as an error and hides
  end-of-file, connection and timeout; otherwise end-of-file is reported for the reading side
  only, and connection, timeout, reading and writing as they are. No other bit is set.\<close>

theorem event_flags_translated:
  "has_flag (io_event_of e) IO_CHANNEL_EVENT_ERROR = has_flag e BEV_EVENT_ERROR \<and>
   has_flag (io_event_of e) IO_CHANNEL_EVENT_EOF = sets_eof e \<and>
   has_flag (io_event_of e) IO_CHANNEL_EVENT_CONNECTED =
     (has_flag e BEV_EVENT_CONNECTED \<and> \<not> has_flag e BEV_EVENT_ERROR) \<and>
   has_flag (io_event_of e) IO_CHANNEL_EVENT_TIMEOUT =
     (has_flag e BEV_EVENT_TIMEOUT \<and> \<not> has_flag e BEV_EVENT_ERROR) \<and>
   has_flag (io_event_of e) IO_CHANNEL_EVENT_READ = has_flag e BEV_EVENT_READING \<and>
   has_flag (io_event_of e) IO_CHANNEL_EVENT_WRITE = has_flag e BEV_EVENT_WRITING \<and>
   unat (io_event_of e) < 64"
  by (cases "has_flag e BEV_EVENT_ERROR"; cases "has_flag e BEV_EVENT_READING";
      cases "has_flag e BEV_EVENT_EOF"; cases "has_flag e BEV_EVENT_CONNECTED";
      cases "has_flag e BEV_EVENT_TIMEOUT"; cases "has_flag e BEV_EVENT_WRITING")
     (simp_all add: io_event_of_def sets_eof_def Let_def has_flag_literals io_event_flags)

subsection \<open>Ownership of sockets and bufferevents\<close>

text \<open>Handles in use are below \<open>fresh\<close>, so a new one is unused.\<close>

definition net_fresh :: "('e, 'm) net_scheme \<Rightarrow> bool" where
  "net_fresh w \<longleftrightarrow> (\<forall>a. fresh w \<le> a \<longrightarrow>
     bevs w a = None \<and> listeners w a = None \<and> channels w a = None \<and> a \<notin> fds w)"

lemma net_freshD:
  assumes "net_fresh w" "fresh w \<le> a"
  shows "bevs w a = None" "listeners w a = None" "channels w a = None" "a \<notin> fds w"
  using assms by (auto simp: net_fresh_def)

lemma new_addr_if:
  "new_addr w = (if answer 0 w then (Some (fresh w), w\<lparr>answers := tl (answers w), fresh := Suc (fresh w)\<rparr>)
                 else (None, w\<lparr>answers := tl (answers w)\<rparr>))"
  by (cases rule: new_addr_cases [of w]) (simp_all add: answer_0)

lemma answer_net [simp]:
  "answer n (w\<lparr>fds := F\<rparr>) = answer n w" "answer n (w\<lparr>bevs := B\<rparr>) = answer n w"
  "answer n (w\<lparr>channels := C\<rparr>) = answer n w" "answer n (w\<lparr>listeners := K\<rparr>) = answer n w"
  "answer n (w\<lparr>ext := x\<rparr>) = answer n w"
  by (simp_all add: answer_def)

lemma ask_if: "ask w = (answer 0 w, w\<lparr>answers := tl (answers w)\<rparr>)"
  by (simp add: ask_def answer_0)

lemma tcp_socket_config_ok:
  assumes "channels w a = Some c" "ch_io c = Some b" "bevs w b = Some B"
  shows "tcp_socket_config a w =
    (if answer 0 w
     then Some (0, w\<lparr>answers := tl (answers w),
        bevs := (bevs w)(b \<mapsto> B\<lparr>bev_arg := Some a, bev_high_wm := TCP_SOCKET_READ_HIGH_WM\<rparr>)\<rparr>)
     else Some (-1, w\<lparr>answers := tl (answers w), bevs := (bevs w)(b := None), fds := fds w - {bev_fd B},
        channels := (channels w)(a \<mapsto> c\<lparr>ch_io := None\<rparr>)\<rparr>))"
  using assms by (simp add: tcp_socket_config_def ask_if bufferevent_free_def evutil_closesocket_def set_channel_def)

text \<open>C31. \<open>tcp_socket_connect\<close> on an unconnected channel. When the socket, the bufferevent and
  its activation succeed and the connection starts, the channel owns a new bufferevent on a
  new socket, with the callbacks set to the channel and the read mark of 16 MB. When one of
  the first steps fails, everything is as before. When the connection fails to start, the
  socket and the bufferevent are released, but the channel keeps the address of the freed
  bufferevent, and freeing the channel is undefined behaviour.\<close>

theorem tcp_socket_connect_outcome:
  fixes w :: "('e, 'm) net_scheme"
  assumes c: "channels w a = Some c" "ch_io c = None" "\<not> ch_listen c" and fr: "net_fresh w"
  shows "\<exists>r w'. tcp_socket_connect L a sa w = Some (r, w') \<and>
     (if answer 0 w \<and> this_ebase w \<noteq> None \<and> answer 1 w \<and> answer 2 w
      then \<exists>b fd. bevs w b = None \<and> fd \<notin> fds w \<and> channels w' = (channels w)(a \<mapsto> c\<lparr>ch_io := Some b\<rparr>) \<and>
          (if 0 \<le> fst (bufferevent_socket_connect L b sa (ext w))
           then r = IO_CHANNEL_E_AGAIN \<and> fds w' = insert fd (fds w) \<and> bevs w' = (bevs w)(b \<mapsto>
              \<lparr>bev_fd = fd, bev_arg = Some a, bev_high_wm = TCP_SOCKET_READ_HIGH_WM\<rparr>)
           else r = IO_CHANNEL_E_ERROR \<and> fds w' = fds w \<and> bevs w' = bevs w \<and>
                channel_free (Some a) w' = None)
      else r = IO_CHANNEL_E_ERROR \<and> fds w' = fds w \<and> bevs w' = bevs w \<and> channels w' = channels w)"
proof -
  note f = net_freshD [OF fr]
  have a: "a < fresh w" using c(1) f(3) [of a] by (cases "fresh w \<le> a") auto
  note d = tcp_socket_connect_def new_socket_def bufferevent_socket_new_def connect_error_def
    evutil_closesocket_def set_channel_def new_addr_if Let_def tcp_socket_config_ok ask_if
    channel_free_def tcp_socket_free_def bufferevent_free_def fun_upd_idem numeral_2_eq_2 numeral_3_eq_3
  have nb: "bevs w (Suc (fresh w)) = None" "fresh w \<notin> fds w" using f by auto
  obtain r e where con: "bufferevent_socket_connect L (Suc (fresh w)) sa (ext w) = (r, e)" by fastforce
  consider "\<not> answer 0 w" | "answer 0 w" "this_ebase w = None" | "answer 0 w" "this_ebase w \<noteq> None" "\<not> answer 1 w"
    | "answer 0 w" "this_ebase w \<noteq> None" "answer 1 w" "\<not> answer 2 w"
    | "answer 0 w" "this_ebase w \<noteq> None" "answer 1 w" "answer 2 w" "r < 0"
    | "answer 0 w" "this_ebase w \<noteq> None" "answer 1 w" "answer 2 w" "0 \<le> r" by linarith
  then show ?thesis
  proof cases
    case 5
    show ?thesis using 5 c nb con by (simp add: d) (rule exI [of _ "Suc (fresh w)"], auto)
  next
    case 6
    show ?thesis using 6 c con
      by (simp add: d) (rule exI [of _ "Suc (fresh w)"], simp add: nb, rule exI [of _ "fresh w"], simp add: nb)
  qed (use c nb in \<open>auto simp: d\<close>)
qed

text \<open>C32. \<open>tcp_socket_accept\<close> either gives a channel that owns the accepted bufferevent, with the
  callbacks set to it, or \<open>NULL\<close>. With \<open>NULL\<close>, the bufferevent and its socket are released
  when it could not be enabled; when there is no event loop or no memory for the channel, they
  stay open and nobody owns them.\<close>

theorem tcp_socket_accept_outcome:
  fixes w :: "('e, 'm) net_scheme"
  assumes p: "ap_io_ctx param = Some b" "bevs w b = Some B" and fr: "net_fresh w"
  shows "\<exists>r w'. tcp_socket_accept param w = Some (r, w') \<and>
     (if this_ebase w \<noteq> None \<and> answer 0 w
      then if answer 1 w
        then \<exists>a. r = Some a \<and> channels w a = None \<and> fds w' = fds w \<and>
          channels w' = (channels w)(a \<mapsto> \<lparr>ch_service = None, ch_eof = False, ch_ctx = None,
                                          ch_io = Some b, ch_listen = False\<rparr>) \<and>
          bevs w' = (bevs w)(b \<mapsto> B\<lparr>bev_arg := Some a, bev_high_wm := TCP_SOCKET_READ_HIGH_WM\<rparr>)
        else r = None \<and> channels w' = channels w \<and> bevs w' = (bevs w)(b := None) \<and>
             fds w' = fds w - {bev_fd B}
      else r = None \<and> channels w' = channels w \<and> bevs w' = bevs w \<and> fds w' = fds w)"
proof -
  have n: "channels w (fresh w) = None" using net_freshD [OF fr] by simp
  note d = tcp_socket_accept_def tcp_socket_new_def set_channel_def new_addr_if tcp_socket_config_ok
    tcp_socket_free_def fun_upd_idem Let_def
  consider "this_ebase w = None" | "this_ebase w \<noteq> None" "\<not> answer 0 w"
    | "this_ebase w \<noteq> None" "answer 0 w" "answer 1 w" | "this_ebase w \<noteq> None" "answer 0 w" "\<not> answer 1 w"
    by blast
  then show ?thesis
  proof cases
    case 3
    show ?thesis using 3 p n by (simp add: d)
  next
    case 4
    show ?thesis using 4 p n by (auto simp: d bufferevent_free_def)
  qed (use p in \<open>simp_all add: d\<close>)
qed

text \<open>C33. \<open>tcp_socket_listen\<close> makes the channel a listener on a new socket, whose callbacks get
  the channel, when the address is an internet address and the four steps succeed; otherwise
  it reports an error and leaves no socket and no listener behind.\<close>

theorem tcp_socket_listen_outcome:
  fixes w :: "('e, 'm) net_scheme"
  assumes c: "channels w a = Some c" and fr: "net_fresh w"
  shows "\<exists>r w'. tcp_socket_listen a sa w = Some (r, w') \<and> bevs w' = bevs w \<and>
     (if sa_family sa \<noteq> AF_OTHER \<and> answer 0 w \<and> answer 1 w \<and> answer 2 w \<and> answer 3 w
      then r = IO_CHANNEL_E_SUCCESS \<and> (\<exists>l fd. listeners w l = None \<and> fd \<notin> fds w \<and>
          fds w' = insert fd (fds w) \<and>
          listeners w' = (listeners w)(l \<mapsto> \<lparr>lst_fd = fd, lst_arg = Some a\<rparr>) \<and>
          channels w' = (channels w)(a \<mapsto> c\<lparr>ch_io := Some l, ch_listen := True\<rparr>))
      else r = IO_CHANNEL_E_ERROR \<and> fds w' = fds w \<and> listeners w' = listeners w \<and>
           channels w' = channels w)"
proof -
  note d = tcp_socket_listen_def new_socket_def evconnlistener_new_def set_channel_def
    evutil_closesocket_def new_addr_if ask_if Let_def numeral_2_eq_2 numeral_3_eq_3
  have n: "listeners w (Suc (fresh w)) = None" "fresh w \<notin> fds w" using net_freshD [OF fr] by auto
  have fam: "sa_family sa = AF_OTHER \<longleftrightarrow> sa_family sa \<noteq> AF_INET \<and> sa_family sa \<noteq> AF_INET6"
    by (cases "sa_family sa") auto
  consider "sa_family sa = AF_OTHER" | "sa_family sa \<noteq> AF_OTHER" "\<not> answer 0 w"
    | "sa_family sa \<noteq> AF_OTHER" "answer 0 w" "\<not> answer 1 w"
    | "sa_family sa \<noteq> AF_OTHER" "answer 0 w" "answer 1 w" "\<not> answer 2 w"
    | "sa_family sa \<noteq> AF_OTHER" "answer 0 w" "answer 1 w" "answer 2 w" "\<not> answer 3 w"
    | "sa_family sa \<noteq> AF_OTHER" "answer 0 w" "answer 1 w" "answer 2 w" "answer 3 w" by blast
  then show ?thesis
  proof cases
    case 6
    show ?thesis using 6 c by (cases "sa_family sa"; simp add: d) (rule exI [of _ "Suc (fresh w)"], simp add: n, rule exI [of _ "fresh w"], simp add: n)+
  qed (use c n fam in \<open>simp_all add: d\<close>)
qed

subsection \<open>A concrete state\<close>

text \<open>One unconnected channel, 1, and one accepted bufferevent, 2, on the socket 3.\<close>

definition idle_channel :: channel where
  "idle_channel = \<lparr>ch_service = None, ch_eof = False, ch_ctx = None, ch_io = None, ch_listen = False\<rparr>"

definition sample_net :: "bool list \<Rightarrow> unit net" where
  "sample_net bs = \<lparr>answers = bs, fresh = 10, rwlocks = Map.empty, mutexes = Map.empty, refs = Map.empty,
     strs = Map.empty, ext = (), fds = {3}, bevs = [2 \<mapsto> \<lparr>bev_fd = 3, bev_arg = None, bev_high_wm = 0\<rparr>],
     listeners = Map.empty, channels = [1 \<mapsto> idle_channel], this_ebase = Some 0, this_dns = Some 0\<rparr>"

definition sample_addr :: sockaddr where
  "sample_addr = \<lparr>sa_family = AF_INET, sa_address = ''a'', sa_port = 80\<rparr>"

definition sample_param :: accept_param where
  "sample_param = \<lparr>ap_src = sample_addr, ap_dst = sample_addr, ap_proto = 6, ap_io_ctx = Some 2\<rparr>"

lemma sample_net_fresh: "net_fresh (sample_net bs)"
  by (simp add: net_fresh_def sample_net_def)

text \<open>A library where no connection can be started.\<close>

definition refusing_lib :: "(unit, unit) lib" where
  "refusing_lib = \<lparr>evbuffer_add = (\<lambda>b s e. (0, e)), evbuffer_add_printf = (\<lambda>b s e. (0, e)),
     evbuffer_add_reference = (\<lambda>b s e. (0, e)), evbuffer_drain = (\<lambda>b n e. (0, e)),
     evbuffer_get_length = (\<lambda>b e. 0), evbuffer_ptr_set = (\<lambda>b n e. 0), evbuffer_peek = (\<lambda>b n e. []),
     evbuffer_pullup = (\<lambda>b e. None), bufferevent_read = (\<lambda>b n e. ('''', e)),
     bufferevent_write = (\<lambda>b s e. (0, e)), bufferevent_flush = (\<lambda>b e. (0, e)),
     bufferevent_socket_connect = (\<lambda>b sa e. (-1, e)), bufferevent_getwatermark = (\<lambda>b e. 0),
     http_parser_init = (\<lambda>t. ()), http_parser_execute = (\<lambda>p s. Returns 0 HPE_OK ()),
     http_parser_unpause = (\<lambda>p. p), json_loadb = (\<lambda>s. False), json_unpack = (\<lambda>s fs. None),
     evdns_getaddrinfo = (\<lambda>s e. (Gai_pending, e)), gmtime = (\<lambda>e. None)\<rparr>"

lemma tcp_socket_connect_outcome_witness:
  "\<exists>w'. tcp_socket_connect refusing_lib 1 sample_addr (sample_net []) =
          Some (IO_CHANNEL_E_ERROR, w') \<and> fds w' = {3} \<and> channel_free (Some 1) w' = None"
  using tcp_socket_connect_outcome [of "sample_net []" 1 idle_channel refusing_lib sample_addr]
    sample_net_fresh [of "[]"]
  by (auto simp: sample_net_def idle_channel_def answer_def refusing_lib_def)

lemma tcp_socket_accept_outcome_witness:
  "\<exists>a w'. tcp_socket_accept sample_param (sample_net []) = Some (Some a, w') \<and>
          (\<exists>c. channels w' a = Some c \<and> ch_io c = Some 2)"
  using tcp_socket_accept_outcome [of sample_param 2 "sample_net []"] sample_net_fresh [of "[]"]
  by (auto simp: sample_net_def sample_param_def answer_def)

lemma tcp_socket_listen_outcome_witness:
  "\<exists>w' c. tcp_socket_listen 1 sample_addr (sample_net []) = Some (IO_CHANNEL_E_SUCCESS, w') \<and>
          channels w' 1 = Some c \<and> ch_listen c"
  using tcp_socket_listen_outcome [of "sample_net []" 1 idle_channel sample_addr] sample_net_fresh [of "[]"]
  by (auto simp: sample_net_def sample_addr_def answer_def)

end
