(* ===== verification/Http_Message.thy ===== *)
theory Http_Message
  imports Tcp_Socket
begin

section \<open>HTTP sessions: their data and the messages they write (http\_session.c, http\_request.h)\<close>

text \<open>
  The struct of an HTTP session (the engine that fills it from the input is in
  \<open>Http_Engine\<close>), its construction and release, and the two writers: a request to an
  upstream server and the response to the client. The callbacks of a session are function
  pointers to six functions of \<^verbatim>\<open>session.c\<close>; they are named by \<open>http_cb\<close> and run by
  \<open>run_http_cb\<close> in \<open>Session\<close>. \<open>read_response\<close> is a reference reader of responses, against which
  the writer is verified.
\<close>

subsection \<open>Data\<close>

datatype http_state =
  HTTP_MESSAGE_BEGIN | HTTP_MESSAGE_PARSE_BEGIN | HTTP_HEADERS_COMPLETE | HTTP_BODY_PARSE
| HTTP_MESSAGE_COMPLETE

datatype http_cb =
  Client_msg_complete | Client_ready_to_close | Http_request_name | Http_request_joke
| Http_response_name | Http_response_joke

record http_callbacks =
  message_complete :: "http_cb option"
  connected :: "http_cb option"
  ready_to_close :: "http_cb option"

definition no_callbacks :: http_callbacks where
  "no_callbacks = \<lparr>message_complete = None, connected = None, ready_to_close = None\<rparr>"

record 'p http_session =
  hs_master :: addr
  hs_state :: http_state
  hs_len :: nat
  hs_parser :: 'p
  hs_body :: ptr
  hs_channel :: ptr
  hs_cbs :: http_callbacks

text \<open>\<open>bodies\<close>: the live evbuffers of message bodies.\<close>

record ('e, 'p) http = "'e net" +
  hsessions :: "addr \<rightharpoonup> 'p http_session"
  bodies :: "addr set"

record http_request =
  request_line :: string
  headers :: "string list"

subsection \<open>Construction and release\<close>

definition set_hs :: "addr \<Rightarrow> 'p http_session \<Rightarrow> ('e, 'p, 'm) http_scheme \<Rightarrow> ('e, 'p, 'm) http_scheme" where
  "set_hs h s w = w\<lparr>hsessions := (hsessions w)(h \<mapsto> s)\<rparr>"

definition http_session_new ::
  "('e, 'p) lib \<Rightarrow> addr \<Rightarrow> ptr \<Rightarrow> http_parser_type \<Rightarrow> ('e, 'p, 'm) http_scheme \<Rightarrow>
   (ptr \<times> ('e, 'p, 'm) http_scheme) option" where
  "http_session_new L master channel type w =
     (case new_addr w of
        (None, w1) \<Rightarrow> Some (None, w1)
      | (Some h, w1) \<Rightarrow> do {
          let w2 = set_hs h \<lparr>hs_master = master, hs_state = HTTP_MESSAGE_BEGIN, hs_len = 0,
                             hs_parser = http_parser_init L type, hs_body = None,
                             hs_channel = channel, hs_cbs = no_callbacks\<rparr> w1;
          a \<leftarrow> channel;
          c \<leftarrow> channels w2 a;
          Some (Some h, set_channel a (c\<lparr>ch_service := Some Http_session_io_service, ch_ctx := Some h\<rparr>) w2) })"

definition evbuffer_free :: "addr \<Rightarrow> ('e, 'p, 'm) http_scheme \<Rightarrow> ('e, 'p, 'm) http_scheme option" where
  "evbuffer_free b w = (if b \<in> bodies w then Some (w\<lparr>bodies := bodies w - {b}\<rparr>) else None)"

definition evbuffer_new :: "('e, 'p, 'm) http_scheme \<Rightarrow> ptr \<times> ('e, 'p, 'm) http_scheme" where
  "evbuffer_new w =
     (case new_addr w of
        (None, w1) \<Rightarrow> (None, w1)
      | (Some b, w1) \<Rightarrow> (Some b, w1\<lparr>bodies := insert b (bodies w1)\<rparr>))"

definition http_session_free :: "ptr \<Rightarrow> ('e, 'p, 'm) http_scheme \<Rightarrow> ('e, 'p, 'm) http_scheme option" where
  "http_session_free p w =
     (case p of None \<Rightarrow> Some w
      | Some h \<Rightarrow> do {
          s \<leftarrow> hsessions w h;
          w1 \<leftarrow> (case hs_body s of
                  None \<Rightarrow> Some w
                | Some b \<Rightarrow> do { w1 \<leftarrow> evbuffer_free b w; Some (set_hs h (s\<lparr>hs_body := None\<rparr>) w1) });
          w2 \<leftarrow> channel_free (hs_channel s) w1;
          Some (w2\<lparr>hsessions := (hsessions w2)(h := None)\<rparr>) })"

definition http_session_master :: "addr \<Rightarrow> ('e, 'p, 'm) http_scheme \<Rightarrow> addr option" where
  "http_session_master h w = do { s \<leftarrow> hsessions w h; Some (hs_master s) }"

definition http_session_body :: "addr \<Rightarrow> ('e, 'p, 'm) http_scheme \<Rightarrow> ptr option" where
  "http_session_body h w = do { s \<leftarrow> hsessions w h; Some (hs_body s) }"

definition http_session_callbacks_set ::
  "addr \<Rightarrow> http_callbacks \<Rightarrow> ('e, 'p, 'm) http_scheme \<Rightarrow> ('e, 'p, 'm) http_scheme option" where
  "http_session_callbacks_set h cbs w =
     do { s \<leftarrow> hsessions w h; Some (set_hs h (s\<lparr>hs_cbs := cbs\<rparr>) w) }"

subsection \<open>Requests\<close>

definition crlf :: string where
  "crlf = [CHR 0x0D, CHR 0x0A]"

text \<open>A library call on a buffer.\<close>

definition call_ext :: "(evbuf \<Rightarrow> string \<Rightarrow> 'e \<Rightarrow> int \<times> 'e) \<Rightarrow> evbuf \<Rightarrow> string \<Rightarrow> ('e, 'm) net_scheme \<Rightarrow>
    int \<times> ('e, 'm) net_scheme" where
  "call_ext f b s w = (let (r, e) = f b s (ext w) in (r, w\<lparr>ext := e\<rparr>))"

fun add_headers :: "('e, 'p) lib \<Rightarrow> evbuf \<Rightarrow> string list \<Rightarrow> ('e, 'm) net_scheme \<Rightarrow> int \<times> ('e, 'm) net_scheme" where
  "add_headers L b [] w = (0, w)"
| "add_headers L b (h # hs) w =
     (let (r, w1) = call_ext (evbuffer_add L) b h w
      in if r < 0 then (-1, w1) else add_headers L b hs w1)"

definition http_request_write ::
  "('e, 'p) lib \<Rightarrow> addr \<Rightarrow> http_request \<Rightarrow> ('e, 'p, 'm) http_scheme \<Rightarrow> (int \<times> ('e, 'p, 'm) http_scheme) option" where
  "http_request_write L h request w =
     do { s \<leftarrow> hsessions w h;
          b \<leftarrow> channel_get_output (hs_channel s) w;
          let (r, w1) = call_ext (evbuffer_add L) b (request_line request) w;
          if r < 0 then Some (-1, w1)
          else let (r, w2) = add_headers L b (headers request) w1
          in if r < 0 then Some (-1, w2)
          else let (r, w3) = call_ext (evbuffer_add L) b crlf w2
          in if r < 0 then Some (-1, w3) else Some (0, w3) }"

subsection \<open>The date\<close>

definition digit :: "nat \<Rightarrow> char" where
  "digit d = char_of (48 + d)"

text \<open>\<open>%zu\<close>\<close>

fun decimal :: "nat \<Rightarrow> string" where
  "decimal n = (if n < 10 then [digit n] else decimal (n div 10) @ [digit (n mod 10)])"

declare decimal.simps [simp del]

definition decimal_int :: "int \<Rightarrow> string" where
  "decimal_int i = (if i < 0 then ''-'' @ decimal (nat (- i)) else decimal (nat i))"

definition two_digits :: "nat \<Rightarrow> string" where
  "two_digits n = (if n < 10 then ''0'' else []) @ decimal n"

definition day_name :: "nat \<Rightarrow> string" where
  "day_name n = (if n < 7 then [''Sun'', ''Mon'', ''Tue'', ''Wed'', ''Thu'', ''Fri'', ''Sat''] ! n else ''?'')"

definition month_name :: "nat \<Rightarrow> string" where
  "month_name n = (if n < 12 then [''Jan'', ''Feb'', ''Mar'', ''Apr'', ''May'', ''Jun'', ''Jul'', ''Aug'',
     ''Sep'', ''Oct'', ''Nov'', ''Dec''] ! n else ''?'')"

text \<open>\<open>strftime\<close> with the format of the code in the C locale; the zone of \<open>gmtime_r\<close> is GMT.\<close>

definition date_text :: "tm \<Rightarrow> string" where
  "date_text tm = ''Date: '' @ day_name (tm_wday tm) @ '', '' @ two_digits (tm_mday tm) @ '' '' @
     month_name (tm_mon tm) @ '' '' @ decimal_int (tm_year tm) @ '' '' @ two_digits (tm_hour tm) @ '':'' @
     two_digits (tm_min tm) @ '':'' @ two_digits (tm_sec tm) @ '' GMT'' @ crlf"

text \<open>The text and its length when it fits with its NUL, 0 otherwise.\<close>

definition strftime :: "nat \<Rightarrow> tm \<Rightarrow> nat \<times> string" where
  "strftime maxsize tm =
     (if length (date_text tm) < maxsize then (length (date_text tm), date_text tm) else (0, []))"

definition http_get_datetime :: "('e, 'p) lib \<Rightarrow> ('e, 'm) net_scheme \<Rightarrow> string option" where
  "http_get_datetime L w =
     (case gmtime L (ext w) of
        None \<Rightarrow> None
      | Some tm \<Rightarrow> (let (len, s) = strftime 38 tm in if len \<noteq> 37 then None else Some s))"

subsection \<open>The response\<close>

text \<open>
  \<open>body\<close> is the address of a string the program owns. When \<open>evbuffer_add_reference\<close> succeeds
  it belongs to libevent, which releases it with \<open>http_response_cleanup\<close>.
\<close>

definition http_response_write ::
  "('e, 'p) lib \<Rightarrow> addr \<Rightarrow> addr \<Rightarrow> ('e, 'p, 'm) http_scheme \<Rightarrow> (int \<times> ('e, 'p, 'm) http_scheme) option" where
  "http_response_write L h body w =
     do { s \<leftarrow> hsessions w h;
          b \<leftarrow> channel_get_output (hs_channel s) w;
          content \<leftarrow> strs w body;
          let body_length = length content;
          case http_get_datetime L w of
            None \<Rightarrow> Some (-1, w)
          | Some datetime \<Rightarrow>
          let (r, w1) = call_ext (evbuffer_add L) b (''HTTP/1.0 200 OK'' @ crlf) w
          in if r < 0 then Some (-1, w1)
          else let (r, w2) = call_ext (evbuffer_add L) b (''Content-Type: text/plain'' @ crlf) w1
          in if r < 0 then Some (-1, w2)
          else let (r, w3) = call_ext (evbuffer_add_printf L) b
                               (''Content-Length: '' @ decimal body_length @ crlf) w2
          in if r < 0 then Some (-1, w3)
          else let (r, w4) = call_ext (evbuffer_add L) b (''Server: Tigera/WebServer/1.0.0'' @ crlf) w3
          in if r < 0 then Some (-1, w4)
          else let (r, w5) = call_ext (evbuffer_add L) b datetime w4
          in if r < 0 then Some (-1, w5)
          else let (r, w6) = call_ext (evbuffer_add L) b crlf w5
          in if r < 0 then Some (-1, w6)
          else let (r, w7) = call_ext (evbuffer_add_reference L) b content w6
          in do { w8 \<leftarrow> free_str (Some body) w7;
                  Some (if r < 0 then -1 else 0, w8) } }"

subsection \<open>Lengths and digits\<close>

lemma decimal_small: "n < 10 \<Longrightarrow> decimal n = [digit n]"
  by (simp add: decimal.simps)

lemma decimal_step: "10 \<le> n \<Longrightarrow> decimal n = decimal (n div 10) @ [digit (n mod 10)]"
  by (subst decimal.simps) simp

lemma decimal_length: "length (decimal n) = (if n < 10 then 1 else Suc (length (decimal (n div 10))))"
  by (subst decimal.simps) simp

lemma two_digits_length: "n < 100 \<Longrightarrow> length (two_digits n) = 2"
  by (simp add: two_digits_def decimal_length [of n] decimal_length [of "n div 10"])

lemma day_name_length: "n < 7 \<Longrightarrow> length (day_name n) = 3"
  by (simp add: day_name_def less_Suc_eq numeral_eq_Suc) auto

lemma month_name_length: "n < 12 \<Longrightarrow> length (month_name n) = 3"
  by (simp add: month_name_def less_Suc_eq numeral_eq_Suc) auto

lemma decimal_four: "length (decimal n) = 4 \<longleftrightarrow> 1000 \<le> n \<and> n < 10000"
  by (simp add: decimal_length [of n] decimal_length [of "n div 10"] decimal_length [of "n div 10 div 10"]
      decimal_length [of "n div 10 div 10 div 10"] decimal_length [of "n div 10 div 10 div 10 div 10"])
     linarith

text \<open>The calendar a clock delivers.\<close>

definition tm_valid :: "tm \<Rightarrow> bool" where
  "tm_valid tm \<longleftrightarrow> tm_wday tm < 7 \<and> 1 \<le> tm_mday tm \<and> tm_mday tm \<le> 31 \<and> tm_mon tm < 12 \<and>
     tm_hour tm < 24 \<and> tm_min tm < 60 \<and> tm_sec tm \<le> 60"

lemma decimal_three: "length (decimal n) = 3 \<longleftrightarrow> 100 \<le> n \<and> n < 1000"
  by (simp add: decimal_length [of n] decimal_length [of "n div 10"] decimal_length [of "n div 10 div 10"]
      decimal_length [of "n div 10 div 10 div 10"]) linarith

text \<open>A year that is written with four characters.\<close>

definition four_chars :: "int \<Rightarrow> bool" where
  "four_chars y \<longleftrightarrow> 1000 \<le> y \<and> y \<le> 9999 \<or> -999 \<le> y \<and> y \<le> -100"

lemma decimal_int_four: "length (decimal_int y) = 4 \<longleftrightarrow> four_chars y"
  by (auto simp: decimal_int_def decimal_four decimal_three four_chars_def)

text \<open>C34. The buffer of 38 bytes and the test for 37 characters fit each other: for a valid
  calendar time \<open>http_get_datetime\<close> delivers the date line when the year takes four characters,
  and the line then has 37 characters; otherwise it reports an error.\<close>

theorem http_get_datetime_length:
  assumes tm: "gmtime L (ext w) = Some tm" "tm_valid tm"
  shows "http_get_datetime L w = (if four_chars (tm_year tm) then Some (date_text tm) else None) \<and>
         (four_chars (tm_year tm) \<longleftrightarrow> length (date_text tm) = 37)"
proof -
  have len: "length (date_text tm) = 33 + length (decimal_int (tm_year tm))"
    using tm(2) by (simp add: date_text_def tm_valid_def day_name_length month_name_length
        two_digits_length crlf_def)
  then have four: "length (date_text tm) = 37 \<longleftrightarrow> four_chars (tm_year tm)"
    using decimal_int_four [of "tm_year tm"] by linarith
  then show ?thesis using tm(1) by (auto simp: http_get_datetime_def strftime_def Let_def)
qed

subsection \<open>A reader of responses\<close>

lemma strstr_crlf_drop: "strstr crlf s = Some k \<Longrightarrow> drop (k + 2) s = [] \<or> length (drop (k + 2) s) < length s"
  using strstr_Some [of crlf s k] by (auto simp: crlf_def)

text \<open>The lines up to the empty one, and what follows it.\<close>

function read_head :: "string \<Rightarrow> (string list \<times> string) option" where
  "read_head s =
     (case strstr crlf s of
        None \<Rightarrow> None
      | Some k \<Rightarrow> (if k = 0 then Some ([], drop 2 s)
                   else (case read_head (drop (k + 2) s) of
                           None \<Rightarrow> None
                         | Some (ls, rest) \<Rightarrow> Some (take k s # ls, rest))))"
  by pat_completeness auto
termination
  by (relation "measure length") (auto simp: crlf_def dest!: strstr_Some)

declare read_head.simps [simp del]

definition parse_decimal :: "string \<Rightarrow> nat option" where
  "parse_decimal s =
     (if s \<noteq> [] \<and> (\<forall>c \<in> set s. 48 \<le> (of_char c :: nat) \<and> of_char c \<le> (57 :: nat))
      then Some (foldl (\<lambda>n c. 10 * n + (of_char c - 48)) 0 s) else None)"

definition content_length :: "string list \<Rightarrow> nat option" where
  "content_length ls =
     (case List.find (prefix ''Content-Length: '') ls of
        None \<Rightarrow> None
      | Some l \<Rightarrow> parse_decimal (drop (length ''Content-Length: '') l))"

text \<open>Status line and body of a message that is exactly one response.\<close>

definition read_response :: "string \<Rightarrow> (string \<times> string) option" where
  "read_response s =
     do { (ls, rest) \<leftarrow> read_head s;
          (case ls of
             [] \<Rightarrow> None
           | status # hs \<Rightarrow> do {
               n \<leftarrow> content_length hs;
               if n = length rest then Some (status, rest) else None }) }"

lemma strstr_crlf:
  "CHR 0x0D \<notin> set l \<Longrightarrow> strstr crlf (l @ crlf @ r) = Some (length l)"
  by (induction l) (auto simp: crlf_def)

lemma read_head_line:
  assumes "CHR 0x0D \<notin> set l" "l \<noteq> []"
  shows "read_head (l @ crlf @ r) =
     (case read_head r of None \<Rightarrow> None | Some (ls, rest) \<Rightarrow> Some (l # ls, rest))"
proof -
  have "drop (length l + 2) (l @ crlf @ r) = r" "take (length l) (l @ crlf @ r) = l"
    by (simp_all add: crlf_def)
  with assms show ?thesis
    by (cases "read_head r"; subst read_head.simps) (auto simp: strstr_crlf)
qed

lemma read_head_end: "read_head (crlf @ r) = Some ([], r)"
  using strstr_crlf [of "[]" r] by (subst read_head.simps) (simp add: crlf_def)

lemma read_head_lines:
  assumes "\<forall>l \<in> set ls. l \<noteq> [] \<and> CHR 0x0D \<notin> set l"
  shows "read_head (concat (map (\<lambda>l. l @ crlf) ls) @ crlf @ r) = Some (ls, r)"
  using assms by (induction ls) (simp_all add: read_head_line read_head_end)

lemma digit_code: "d < 10 \<Longrightarrow> (of_char (digit d) :: nat) = 48 + d"
  by (simp add: digit_def)

lemma decimal_parse: "parse_decimal (decimal n) = Some n"
proof -
  have "decimal n \<noteq> [] \<and> (\<forall>c \<in> set (decimal n). 48 \<le> (of_char c :: nat) \<and> of_char c \<le> (57 :: nat)) \<and>
        foldl (\<lambda>n c. 10 * n + (of_char c - 48)) 0 (decimal n) = n"
  proof (induction n rule: decimal.induct)
    case (1 n)
    then show ?case
      by (cases "n < 10") (simp_all add: decimal_small decimal_step digit_code)
  qed
  then show ?thesis by (simp add: parse_decimal_def)
qed

lemma decimal_no_cr: "CHR 0x0D \<notin> set (decimal n)"
proof
  assume "CHR 0x0D \<in> set (decimal n)"
  moreover have "\<forall>c \<in> set (decimal n). 48 \<le> (of_char c :: nat)"
    using decimal_parse [of n] by (auto simp: parse_decimal_def split: if_splits)
  ultimately show False by fastforce
qed

definition response_text :: "string \<Rightarrow> string \<Rightarrow> string" where
  "response_text datetime body =
     ''HTTP/1.0 200 OK'' @ crlf @ ''Content-Type: text/plain'' @ crlf @
     (''Content-Length: '' @ decimal (length body)) @ crlf @
     ''Server: Tigera/WebServer/1.0.0'' @ crlf @ datetime @ crlf @ body"

lemma read_response_text:
  assumes "datetime = d @ crlf" "CHR 0x0D \<notin> set d" "d \<noteq> []"
  shows "read_response (response_text datetime body) = Some (''HTTP/1.0 200 OK'', body)"
proof -
  let ?ls = "[''HTTP/1.0 200 OK'', ''Content-Type: text/plain'',
      ''Content-Length: '' @ decimal (length body), ''Server: Tigera/WebServer/1.0.0'', d]"
  have "response_text datetime body = concat (map (\<lambda>l. l @ crlf) ?ls) @ crlf @ body"
    by (simp add: response_text_def assms(1))
  moreover have "\<forall>l \<in> set ?ls. l \<noteq> [] \<and> CHR 0x0D \<notin> set l"
    using assms(2,3) decimal_no_cr by simp
  ultimately have "read_head (response_text datetime body) = Some (?ls, body)"
    using read_head_lines by metis
  then show ?thesis
    by (simp add: read_response_def content_length_def decimal_parse)
qed

subsection \<open>What is written\<close>

lemma date_text_line: "\<exists>d. date_text tm = d @ crlf \<and> CHR 0x0D \<notin> set d \<and> d \<noteq> []"
proof -
  let ?d = "''Date: '' @ day_name (tm_wday tm) @ '', '' @ two_digits (tm_mday tm) @ '' '' @
     month_name (tm_mon tm) @ '' '' @ decimal_int (tm_year tm) @ '' '' @ two_digits (tm_hour tm) @ '':'' @
     two_digits (tm_min tm) @ '':'' @ two_digits (tm_sec tm) @ '' GMT''"
  have names: "CHR 0x0D \<notin> set (day_name n)" "CHR 0x0D \<notin> set (month_name n)" for n
    by (auto simp: day_name_def month_name_def numeral_eq_Suc less_Suc_eq)
  have "CHR 0x0D \<notin> set ?d"
    using names decimal_no_cr by (simp add: two_digits_def decimal_int_def)
  then show ?thesis by (intro exI [of _ ?d]) (simp add: date_text_def)
qed

lemma http_get_datetime_line:
  "http_get_datetime L w = Some t \<Longrightarrow> \<exists>d. t = d @ crlf \<and> CHR 0x0D \<notin> set d \<and> d \<noteq> []"
  using date_text_line
  by (fastforce simp: http_get_datetime_def strftime_def Let_def split: option.splits if_splits)

text \<open>Every call on a buffer succeeds.\<close>

definition no_failures :: "('e, 'p) lib \<Rightarrow> bool" where
  "no_failures L \<longleftrightarrow> (\<forall>b s e. 0 \<le> fst (evbuffer_add L b s e) \<and> 0 \<le> fst (evbuffer_add_printf L b s e) \<and>
     0 \<le> fst (evbuffer_add_reference L b s e))"

lemma no_failuresD:
  assumes "no_failures L"
  shows "evbuffer_add L b s e = (r, e') \<Longrightarrow> 0 \<le> r" "evbuffer_add_printf L b s e = (r, e') \<Longrightarrow> 0 \<le> r"
    "evbuffer_add_reference L b s e = (r, e') \<Longrightarrow> 0 \<le> r"
  using assms unfolding no_failures_def by (metis fst_conv)+

lemma http_response_write_result:
  assumes laws: "evbuffer_laws L C" and h: "hsessions w h = Some s"
    "tcp_socket_get_output (hs_channel s) w = Some b" "strs w body = Some content"
  shows "\<exists>r w'. http_response_write L h body w = Some (r, w') \<and> r \<in> {0, -1} \<and>
     (r = 0 \<longrightarrow> strs w' = (strs w)(body := None) \<and>
        (\<exists>t. C b (ext w') = C b (ext w) @ t \<and>
             read_response t = Some (''HTTP/1.0 200 OK'', content))) \<and>
     (no_failures L \<and> http_get_datetime L w \<noteq> None \<longrightarrow> r = 0) \<and>
     (\<forall>b'. b' \<noteq> b \<longrightarrow> C b' (ext w') = C b' (ext w))"
proof (cases "http_get_datetime L w")
  case None
  with h show ?thesis by (simp add: http_response_write_def Let_def)
next
  case (Some datetime)
  note A = evbuffer_lawsD(1-3) [OF laws]
  obtain d where d: "datetime = d @ crlf" "CHR 0x0D \<notin> set d" "d \<noteq> []"
    using http_get_datetime_line [OF Some] by blast
  obtain r1 e1 where 1: "evbuffer_add L b (''HTTP/1.0 200 OK'' @ crlf) (ext w) = (r1, e1)" by fastforce
  obtain r2 e2 where 2: "evbuffer_add L b (''Content-Type: text/plain'' @ crlf) e1 = (r2, e2)" by fastforce
  obtain r3 e3 where 3: "evbuffer_add_printf L b (''Content-Length: '' @ decimal (length content) @ crlf) e2 = (r3, e3)"
    by fastforce
  obtain r4 e4 where 4: "evbuffer_add L b (''Server: Tigera/WebServer/1.0.0'' @ crlf) e3 = (r4, e4)" by fastforce
  obtain r5 e5 where 5: "evbuffer_add L b datetime e4 = (r5, e5)" by fastforce
  obtain r6 e6 where 6: "evbuffer_add L b crlf e5 = (r6, e6)" by fastforce
  obtain r7 e7 where 7: "evbuffer_add_reference L b content e6 = (r7, e7)" by fastforce
  note calls = 1 2 3 4 5 6 7
  note frame = appendsD(2) [OF A(1) 1] appendsD(2) [OF A(1) 2] appendsD(2) [OF A(2) 3] appendsD(2) [OF A(1) 4]
    appendsD(2) [OF A(1) 5] appendsD(2) [OF A(1) 6] appendsD(2) [OF A(3) 7]
  note grow = appendsD(1) [OF A(1) 1] appendsD(1) [OF A(1) 2] appendsD(1) [OF A(2) 3] appendsD(1) [OF A(1) 4]
    appendsD(1) [OF A(1) 5] appendsD(1) [OF A(1) 6] appendsD(1) [OF A(3) 7]
  show ?thesis
  proof (cases "0 \<le> r1 \<and> 0 \<le> r2 \<and> 0 \<le> r3 \<and> 0 \<le> r4 \<and> 0 \<le> r5 \<and> 0 \<le> r6 \<and> 0 \<le> r7")
    case True
    let ?w' = "w\<lparr>ext := e7, strs := (strs w)(body := None)\<rparr>"
    have "http_response_write L h body w = Some (0, ?w')"
      using h Some True calls by (simp add: http_response_write_def call_ext_def free_str_def Let_def)
    moreover have "C b e7 = C b (ext w) @ response_text datetime content"
      using grow True by (simp add: response_text_def)
    ultimately show ?thesis using read_response_text [OF d, of content] frame by auto
  next
    case False
    then have "\<exists>w'. http_response_write L h body w = Some (-1, w') \<and> (\<forall>b'. b' \<noteq> b \<longrightarrow> C b' (ext w') = C b' (ext w))"
      using h Some calls frame
      by (auto simp: http_response_write_def call_ext_def free_str_def Let_def)
    moreover have "\<not> no_failures L" using False no_failuresD [of L] calls by blast
    ultimately show ?thesis by fastforce
  qed
qed

text \<open>C35. \<open>http_response_write\<close> returns 0 or -1 and writes to no buffer but the output of its
  channel. When it returns 0 what it appended is one complete response: read back, it has the status
  200 and exactly the given text as its body, whatever the text contains, and the text now
  belongs to libevent. It returns 0 whenever there is a date and no call fails.\<close>

theorem http_response_write_correct:
  assumes laws: "evbuffer_laws L C" and h: "hsessions w h = Some s"
    "tcp_socket_get_output (hs_channel s) w = Some b" "strs w body = Some content"
  shows "\<exists>r w'. http_response_write L h body w = Some (r, w') \<and> r \<in> {0, -1} \<and>
     (r = 0 \<longrightarrow> strs w' = (strs w)(body := None) \<and>
        (\<exists>t. C b (ext w') = C b (ext w) @ t \<and>
             read_response t = Some (''HTTP/1.0 200 OK'', content))) \<and>
     (no_failures L \<and> http_get_datetime L w \<noteq> None \<longrightarrow> r = 0) \<and>
     (\<forall>b'. b' \<noteq> b \<longrightarrow> C b' (ext w') = C b' (ext w))"
  by (rule http_response_write_result [OF assms])

lemma add_headers_result:
  assumes "appends C (evbuffer_add L)"
  shows "\<exists>r e. add_headers L b hs w = (r, w\<lparr>ext := e\<rparr>) \<and> r \<in> {0, -1} \<and>
     (r = 0 \<longrightarrow> C b e = C b (ext w) @ concat hs) \<and> (no_failures L \<longrightarrow> r = 0) \<and>
     (\<forall>b'. b' \<noteq> b \<longrightarrow> C b' e = C b' (ext w))"
proof (induction hs arbitrary: w)
  case Nil
  show ?case by (rule exI [of _ 0], rule exI [of _ "ext w"]) simp
next
  case (Cons h hs)
  obtain r1 e1 where 1: "evbuffer_add L b h (ext w) = (r1, e1)" by fastforce
  note a = appendsD [OF assms 1]
  show ?case
  proof (cases "r1 < 0")
    case True
    then have "\<not> no_failures L" using no_failuresD(1) [OF _ 1] by fastforce
    with True 1 a(2) show ?thesis by (simp add: call_ext_def) (rule exI [of _ e1], simp)
  next
    case False
    with Cons.IH [of "w\<lparr>ext := e1\<rparr>"] 1 a show ?thesis by (simp add: call_ext_def)
  qed
qed

lemma http_request_write_result:
  assumes laws: "evbuffer_laws L C" and h: "hsessions w h = Some s"
    "tcp_socket_get_output (hs_channel s) w = Some b"
    and lines: "request_line request = l @ crlf" "headers request = map (\<lambda>x. x @ crlf) ls"
      "\<forall>x \<in> set (l # ls). x \<noteq> [] \<and> CHR 0x0D \<notin> set x"
  shows "\<exists>r e. http_request_write L h request w = Some (r, w\<lparr>ext := e\<rparr>) \<and> r \<in> {0, -1} \<and>
     (r = 0 \<longrightarrow> (\<exists>t. C b e = C b (ext w) @ t \<and> read_head t = Some (l # ls, []))) \<and>
     (no_failures L \<longrightarrow> r = 0) \<and> (\<forall>b'. b' \<noteq> b \<longrightarrow> C b' e = C b' (ext w))"
proof -
  note A = evbuffer_lawsD(1) [OF laws]
  obtain r1 e1 where 1: "evbuffer_add L b (request_line request) (ext w) = (r1, e1)" by fastforce
  obtain r2 e2 where 2: "add_headers L b (headers request) (w\<lparr>ext := e1\<rparr>) = (r2, w\<lparr>ext := e2\<rparr>)"
      "r2 \<in> {0, -1}" "r2 = 0 \<Longrightarrow> C b e2 = C b e1 @ concat (headers request)" "no_failures L \<Longrightarrow> r2 = 0"
      "\<And>b'. b' \<noteq> b \<Longrightarrow> C b' e2 = C b' e1"
    using add_headers_result [OF A, of b "headers request" "w\<lparr>ext := e1\<rparr>"] by auto
  obtain r3 e3 where 3: "evbuffer_add L b crlf e2 = (r3, e3)" by fastforce
  note a1 = appendsD [OF A 1] and a3 = appendsD [OF A 3]
  have complete: "read_head (request_line request @ concat (headers request) @ crlf) = Some (l # ls, [])"
    using read_head_lines [OF lines(3), of "[]"] lines(1,2) by simp
  show ?thesis
  proof (cases "0 \<le> r1 \<and> r2 = 0 \<and> 0 \<le> r3")
    case True
    have "http_request_write L h request w = Some (0, w\<lparr>ext := e3\<rparr>)"
      using h True 1 2(1) 3 by (simp add: http_request_write_def call_ext_def Let_def)
    moreover have "C b e3 = C b (ext w) @ request_line request @ concat (headers request) @ crlf"
      using a1(1) 2(3) a3(1) True by simp
    ultimately show ?thesis using complete a1(2) 2(5) a3(2) by auto
  next
    case False
    then have "\<exists>e. http_request_write L h request w = Some (-1, w\<lparr>ext := e\<rparr>) \<and>
        (\<forall>b'. b' \<noteq> b \<longrightarrow> C b' e = C b' (ext w))"
      using h 1 2(1,2,5) 3 a1(2) a3(2)
      by (auto simp: http_request_write_def call_ext_def Let_def)
    moreover have "\<not> no_failures L" using False 2(4) no_failuresD(1) [of L] 1 3 by blast
    ultimately show ?thesis by fastforce
  qed
qed

text \<open>C36. \<open>http_request_write\<close> returns 0 or -1 and writes to no buffer but the output of its
  channel; when it returns 0 it appended the request line, the headers and the empty line.
  A request whose lines end with CRLF reads back as these lines, with nothing after them.\<close>

theorem http_request_write_correct:
  assumes laws: "evbuffer_laws L C" and h: "hsessions w h = Some s"
    "tcp_socket_get_output (hs_channel s) w = Some b"
    and lines: "request_line request = l @ crlf" "headers request = map (\<lambda>x. x @ crlf) ls"
      "\<forall>x \<in> set (l # ls). x \<noteq> [] \<and> CHR 0x0D \<notin> set x"
  shows "\<exists>r e. http_request_write L h request w = Some (r, w\<lparr>ext := e\<rparr>) \<and> r \<in> {0, -1} \<and>
     (r = 0 \<longrightarrow> (\<exists>t. C b e = C b (ext w) @ t \<and> read_head t = Some (l # ls, []))) \<and>
     (no_failures L \<longrightarrow> r = 0) \<and> (\<forall>b'. b' \<noteq> b \<longrightarrow> C b' e = C b' (ext w))"
  by (rule http_request_write_result [OF assms])

subsection \<open>A concrete state\<close>

text \<open>The HTTP session 5 on the channel 1 with the bufferevent 2, and the string \<open>hi\<close> at 7.\<close>

definition sample_hs :: "unit http_session" where
  "sample_hs = \<lparr>hs_master = 4, hs_state = HTTP_MESSAGE_COMPLETE, hs_len = 0, hs_parser = (), hs_body = None,
     hs_channel = Some 1, hs_cbs = no_callbacks\<rparr>"

definition sample_http :: "(evbuf \<Rightarrow> string, unit) http" where
  "sample_http = \<lparr>answers = [], fresh = 10, rwlocks = Map.empty, mutexes = Map.empty, refs = Map.empty,
     strs = [7 \<mapsto> ''hi''], ext = (\<lambda>b. ''''), fds = {3},
     bevs = [2 \<mapsto> \<lparr>bev_fd = 3, bev_arg = Some 1, bev_high_wm = 0\<rparr>], listeners = Map.empty,
     channels = [1 \<mapsto> idle_channel\<lparr>ch_io := Some 2, ch_ctx := Some 5\<rparr>], this_ebase = Some 0,
     this_dns = Some 0, hsessions = [5 \<mapsto> sample_hs], bodies = {}\<rparr>"

lemma sample_http_output:
  "hsessions sample_http 5 = Some sample_hs" "strs sample_http 7 = Some ''hi''"
  "tcp_socket_get_output (hs_channel sample_hs) sample_http = Some (Output 2)" "ext sample_http = (\<lambda>b. '''')"
  by (simp_all add: sample_http_def sample_hs_def tcp_socket_get_output_def channel_bev_def idle_channel_def)

lemma list_lib_no_failures: "no_failures list_lib"
  by (simp add: no_failures_def list_lib_def list_add_def)

lemma sample_date: "gmtime list_lib e = Some \<lparr>tm_wday = 4, tm_mday = 1, tm_mon = 0, tm_year = 1970,
    tm_hour = 0, tm_min = 0, tm_sec = 0\<rparr>"
  by (simp add: list_lib_def)

lemma http_get_datetime_length_witness: "http_get_datetime list_lib sample_http \<noteq> None"
  using http_get_datetime_length [OF sample_date, of sample_http]
  by (simp add: tm_valid_def four_chars_def)

lemma sample_has_date: "http_get_datetime list_lib sample_http \<noteq> None"
  by (simp add: http_get_datetime_def list_lib_def strftime_def date_text_def day_name_def month_name_def
      two_digits_def decimal_int_def decimal_small decimal_step digit_def crlf_def)

lemma http_response_write_correct_witness:
  "\<exists>w'. http_response_write list_lib 5 7 sample_http = Some (0, w') \<and> strs w' 7 = None \<and>
        read_response (ext w' (Output 2)) = Some (''HTTP/1.0 200 OK'', ''hi'')"
  using http_response_write_correct [OF list_lib_laws sample_http_output(1,3,2)] list_lib_no_failures
    sample_has_date sample_http_output(4) by auto

definition sample_request :: http_request where
  "sample_request = \<lparr>request_line = ''GET /'' @ crlf, headers = [''Host: a'' @ crlf]\<rparr>"

lemma http_request_write_correct_witness:
  "\<exists>e. http_request_write list_lib 5 sample_request sample_http = Some (0, sample_http\<lparr>ext := e\<rparr>) \<and>
       read_head (e (Output 2)) = Some ([''GET /'', ''Host: a''], [])"
  using http_request_write_correct [OF list_lib_laws sample_http_output(1,3), of sample_request "''GET /''" "[''Host: a'']"]
    list_lib_no_failures sample_http_output(4) by (auto simp: sample_request_def)

end
