(* ===== verification/Session_Store.thy ===== *)
theory Session_Store
  imports Http_Message Linked_List
begin

section \<open>Sessions: data, construction and release (session.c, http\_service.c)\<close>

text \<open>
  A session owns up to three HTTP sessions (with the client, the name server and the joke
  server), a strong reference to itself and three strings. A DNS request is owned by nobody
  but the pending resolution and holds a weak reference to its session. \<open>world\<close> is the
  whole state of the service: the heaps of the other components, the sessions and DNS
  requests, and of the global \<open>http_service\<close> the list of sessions (in its own heap \<open>lh\<close>,
  that of \<open>Linked_List\<close>) with its mutex.
\<close>

subsection \<open>Data\<close>

datatype session_state =
  START | PARSING_CLIENT_REQUEST | RESOLVING_WEBSERVER_DOMAINS | CONNECTING_TO_WEBSERVERS
| REQUESTING_FROM_WEBSERVERS | CLIENT_RESPONSE | ERROR_RESOLVING_DOMAIN | ERROR_CONNECTING_TO_WS
| ERROR_REQUESTING_FROM_WS | ERROR_CLIENT_RESPONSE

text \<open>The slots of the array \<open>http_sessions\<close>.\<close>

definition CLIENT :: nat where "CLIENT = 0"
definition NAME :: nat where "NAME = 1"
definition JOKE :: nat where "JOKE = 2"
definition COUNT :: nat where "COUNT = 3"

lemmas slots = CLIENT_def NAME_def JOKE_def COUNT_def

record session =
  ss_state :: session_state
  ss_http :: "ptr list"
  ss_me :: ptr
  ss_name :: ptr
  ss_surname :: ptr
  ss_joke :: ptr
  ss_name_replied :: bool
  ss_joke_replied :: bool
  ss_pending_resolutions :: int
  ss_pending_connections :: int
  ss_pending_replies :: int

record dns_request =
  dr_idx :: nat
  dr_evdns_req :: ptr
  dr_session :: ptr

text \<open>The nodes of the list of sessions live in a heap of their own, with its own allocator.\<close>

datatype list_store = List_Store (store_heap: list_heap)

text \<open>\<open>resolving\<close>: the resolutions in progress, each with the DNS request it calls back with.\<close>

record ('e, 'p) world = "('e, 'p) http" +
  sessions :: "addr \<rightharpoonup> session"
  dns_requests :: "addr \<rightharpoonup> dns_request"
  resolving :: "addr \<rightharpoonup> addr"
  lh :: list_store
  svc_sessions :: ptr
  svc_mutex :: ptr

definition upd_session :: "addr \<Rightarrow> (session \<Rightarrow> session) \<Rightarrow> ('e, 'p) world \<Rightarrow> ('e, 'p) world option" where
  "upd_session a f w = do { s \<leftarrow> sessions w a; Some (w\<lparr>sessions := (sessions w)(a \<mapsto> f s)\<rparr>) }"

definition session_state_set :: "addr \<Rightarrow> session_state \<Rightarrow> ('e, 'p) world \<Rightarrow> ('e, 'p) world option" where
  "session_state_set a st w = upd_session a (\<lambda>s. s\<lparr>ss_state := st\<rparr>) w"

lemma answer_world [simp]:
  "answer n (w\<lparr>strs := S\<rparr>) = answer n w" "answer n (w\<lparr>refs := R\<rparr>) = answer n w"
  "answer n (w\<lparr>mutexes := M\<rparr>) = answer n w" "answer n (w\<lparr>hsessions := H\<rparr>) = answer n w"
  "answer n (w\<lparr>bodies := B\<rparr>) = answer n w" "answer n (w\<lparr>sessions := T\<rparr>) = answer n w"
  "answer n (w\<lparr>dns_requests := D\<rparr>) = answer n w" "answer n (w\<lparr>resolving := Q\<rparr>) = answer n w"
  "answer n (w\<lparr>lh := l\<rparr>) = answer n w"
  by (simp_all add: answer_def)

subsection \<open>Release\<close>

text \<open>The loop over the array of HTTP sessions.\<close>

fun session_free_slots :: "addr \<Rightarrow> nat list \<Rightarrow> ('e, 'p) world \<Rightarrow> ('e, 'p) world option" where
  "session_free_slots a [] w = Some w"
| "session_free_slots a (i # is) w = do {
     s \<leftarrow> sessions w a;
     if i < length (ss_http s)
     then do {
       w1 \<leftarrow> http_session_free (ss_http s ! i) w;
       w2 \<leftarrow> upd_session a (\<lambda>s. s\<lparr>ss_http := (ss_http s)[i := None]\<rparr>) w1;
       session_free_slots a is w2 }
     else None }"

definition session_free :: "ptr \<Rightarrow> ('e, 'p) world \<Rightarrow> ('e, 'p) world option" where
  "session_free p w =
     (case p of None \<Rightarrow> Some w
      | Some a \<Rightarrow> do {
          w1 \<leftarrow> session_free_slots a [0..<COUNT] w;
          s \<leftarrow> sessions w1 a;
          (r, w2) \<leftarrow> reference_dec (ss_me s) w1;
          w3 \<leftarrow> upd_session a (\<lambda>s. s\<lparr>ss_me := None\<rparr>) w2;
          w4 \<leftarrow> free_str (ss_name s) w3;
          w5 \<leftarrow> upd_session a (\<lambda>s. s\<lparr>ss_name := None\<rparr>) w4;
          w6 \<leftarrow> free_str (ss_surname s) w5;
          w7 \<leftarrow> upd_session a (\<lambda>s. s\<lparr>ss_surname := None\<rparr>) w6;
          w8 \<leftarrow> free_str (ss_joke s) w7;
          w9 \<leftarrow> upd_session a (\<lambda>s. s\<lparr>ss_joke := None\<rparr>) w8;
          Some (w9\<lparr>sessions := (sessions w9)(a := None)\<rparr>) })"

subsection \<open>Construction\<close>

definition zero_session :: session where
  "zero_session = \<lparr>ss_state = START, ss_http = replicate COUNT None, ss_me = None, ss_name = None,
     ss_surname = None, ss_joke = None, ss_name_replied = False, ss_joke_replied = False,
     ss_pending_resolutions = 0, ss_pending_connections = 0, ss_pending_replies = 0\<rparr>"

definition client_callbacks :: http_callbacks where
  "client_callbacks = no_callbacks\<lparr>message_complete := Some Client_msg_complete,
                                   ready_to_close := Some Client_ready_to_close\<rparr>"

definition session_new :: "('e, 'p) lib \<Rightarrow> ptr \<Rightarrow> ('e, 'p) world \<Rightarrow> (ptr \<times> ('e, 'p) world) option" where
  "session_new L channel w =
     (case new_addr w of
        (None, w1) \<Rightarrow> Some (None, w1)
      | (Some a, w1) \<Rightarrow> do {
          let w2 = w1\<lparr>sessions := (sessions w1)(a \<mapsto> zero_session)\<rparr>;
          (hs, w3) \<leftarrow> http_session_new L a channel HTTP_REQUEST w2;
          (case hs of
             Some h \<Rightarrow> do {
               w4 \<leftarrow> upd_session a (\<lambda>s. s\<lparr>ss_http := (ss_http s)[CLIENT := Some h], ss_state := START,
                                          ss_name_replied := False, ss_joke_replied := False\<rparr>) w3;
               w5 \<leftarrow> session_state_set a PARSING_CLIENT_REQUEST w4;
               w6 \<leftarrow> http_session_callbacks_set h client_callbacks w5;
               Some (Some a, w6) }
           | None \<Rightarrow> do {
               w4 \<leftarrow> session_free (Some a) w3;
               Some (None, w4) }) })"

subsection \<open>The list of sessions\<close>

definition http_service_session_add :: "addr \<Rightarrow> ('e, 'p) world \<Rightarrow> ('e, 'p) world option" where
  "http_service_session_add a w =
     do { w1 \<leftarrow> mutex_lock (svc_mutex w) w;
          l \<leftarrow> svc_sessions w1;
          h \<leftarrow> list_push_back l (Some a) (store_heap (lh w1));
          mutex_unlock (svc_mutex w1) (w1\<lparr>lh := List_Store h\<rparr>) }"

definition http_service_session_remove :: "addr \<Rightarrow> ('e, 'p) world \<Rightarrow> ('e, 'p) world option" where
  "http_service_session_remove a w =
     do { w1 \<leftarrow> mutex_lock (svc_mutex w) w;
          l \<leftarrow> svc_sessions w1;
          node \<leftarrow> list_find_node l (Some a) (store_heap (lh w1));
          (case node of
             Some n \<Rightarrow> do {
               (d, h) \<leftarrow> list_remove l (Some n) (store_heap (lh w1));
               w2 \<leftarrow> session_free (Some a) (w1\<lparr>lh := List_Store h\<rparr>);
               mutex_unlock (svc_mutex w2) w2 }
           | None \<Rightarrow> do {
               w2 \<leftarrow> mutex_unlock (svc_mutex w1) w1;
               session_free (Some a) w2 }) }"

end
