(* ===== verification/Session.thy ===== *)
theory Session
  imports Session_Store
begin

section \<open>The session's life (session.c)\<close>

text \<open>
  The callbacks that drive a session: its client's request is complete, a name is resolved, an
  upstream connection is established, an upstream response is complete, the client can be
  closed. \<open>run_http_cb\<close> is the call through the function pointers of \<open>http_callbacks\<close>.
\<close>

subsection \<open>DNS requests\<close>

text \<open>\<open>evdns_getaddrinfo_cancel\<close> of a resolution in progress; it still calls back, later.\<close>

definition evdns_cancel :: "addr \<Rightarrow> ('e, 'p) world \<Rightarrow> ('e, 'p) world option" where
  "evdns_cancel q w = do { d \<leftarrow> resolving w q; Some w }"

definition dns_request_free :: "ptr \<Rightarrow> ('e, 'p) world \<Rightarrow> ('e, 'p) world option" where
  "dns_request_free p w =
     (case p of None \<Rightarrow> Some w
      | Some d \<Rightarrow> do {
          r \<leftarrow> dns_requests w d;
          (n, w1) \<leftarrow> reference_weak_dec (dr_session r) w;
          let w2 = w1\<lparr>dns_requests := (dns_requests w1)(d \<mapsto> r\<lparr>dr_session := None\<rparr>)\<rparr>;
          w3 \<leftarrow> (case dr_evdns_req r of
                  None \<Rightarrow> Some w2
                | Some q \<Rightarrow> do {
                    w3 \<leftarrow> evdns_cancel q w2;
                    Some (w3\<lparr>dns_requests := (dns_requests w3)(d \<mapsto> r\<lparr>dr_session := None, dr_evdns_req := None\<rparr>)\<rparr>) });
          Some (w3\<lparr>dns_requests := (dns_requests w3)(d := None)\<rparr>) })"

subsection \<open>The response to the client\<close>

definition client_ready_to_close :: "addr \<Rightarrow> ('e, 'p) world \<Rightarrow> ('e, 'p) world option" where
  "client_ready_to_close h w =
     do { a \<leftarrow> http_session_master h w;
          s \<leftarrow> sessions w a;
          if ss_state s = CLIENT_RESPONSE then http_service_session_remove a w else Some w }"

definition client_response_create :: "addr \<Rightarrow> ('e, 'p) world \<Rightarrow> (ptr \<times> ('e, 'p) world) option" where
  "client_response_create a w =
     do { s \<leftarrow> sessions w a;
          name \<leftarrow> deref (strs w) (ss_name s);
          surname \<leftarrow> deref (strs w) (ss_surname s);
          joke \<leftarrow> deref (strs w) (ss_joke s);
          (new_joke, w1) \<leftarrow> joke_create joke (length joke) ''Eduardo'' 7 name (length name) w;
          w2 \<leftarrow> free_str (ss_name s) w1;
          w3 \<leftarrow> upd_session a (\<lambda>s. s\<lparr>ss_name := None\<rparr>) w2;
          (case new_joke of
             None \<Rightarrow> Some (None, w3)
           | Some j \<Rightarrow> do {
               w4 \<leftarrow> free_str (ss_joke s) w3;
               w5 \<leftarrow> upd_session a (\<lambda>s. s\<lparr>ss_joke := None\<rparr>) w4;
               joke1 \<leftarrow> strs w5 j;
               (new_joke1, w6) \<leftarrow> joke_create joke1 (length joke1) ''Panisset'' 8 surname (length surname) w5;
               w7 \<leftarrow> free_str (ss_surname s) w6;
               w8 \<leftarrow> upd_session a (\<lambda>s. s\<lparr>ss_surname := None\<rparr>) w7;
               w9 \<leftarrow> free_str (Some j) w8;
               Some (new_joke1, w9) }) }"

definition http_client_response :: "('e, 'p) lib \<Rightarrow> addr \<Rightarrow> ('e, 'p) world \<Rightarrow> ('e, 'p) world option" where
  "http_client_response L a w =
     do { s \<leftarrow> sessions w a;
          if \<not> ss_name_replied s \<or> \<not> ss_joke_replied s then Some w
          else do {
            (response, w1) \<leftarrow> client_response_create a w;
            (case response of
               None \<Rightarrow> do {
                 w2 \<leftarrow> session_state_set a ERROR_CLIENT_RESPONSE w1;
                 http_service_session_remove a w2 }
             | Some body \<Rightarrow> do {
                 h \<leftarrow> ss_http s ! CLIENT;
                 (r, w2) \<leftarrow> http_response_write L h body w1;
                 if r < 0
                 then do { w3 \<leftarrow> session_state_set a ERROR_CLIENT_RESPONSE w2;
                           http_service_session_remove a w3 }
                 else session_state_set a CLIENT_RESPONSE w2 }) } }"

subsection \<open>Responses of the upstream servers\<close>

text \<open>The error exit of the two response handlers.\<close>

definition upstream_error :: "addr \<Rightarrow> ('e, 'p) world \<Rightarrow> ('e, 'p) world option" where
  "upstream_error a w =
     do { w1 \<leftarrow> session_state_set a ERROR_CLIENT_RESPONSE w; http_service_session_remove a w1 }"

text \<open>The body of the message: \<open>None\<close> when libevent cannot deliver it as one block.\<close>

definition message_text :: "('e, 'p) lib \<Rightarrow> addr \<Rightarrow> ('e, 'p) world \<Rightarrow> string option option" where
  "message_text L h w =
     do { p \<leftarrow> http_session_body h w;
          b \<leftarrow> p;
          if b \<in> bodies w then Some (evbuffer_pullup L (Body b) (ext w)) else None }"

definition http_response_name :: "('e, 'p) lib \<Rightarrow> addr \<Rightarrow> ('e, 'p) world \<Rightarrow> ('e, 'p) world option" where
  "http_response_name L h w =
     do { a \<leftarrow> http_session_master h w;
          s \<leftarrow> sessions w a;
          n \<leftarrow> c_int (ss_pending_replies s - 1);
          w1 \<leftarrow> upd_session a (\<lambda>s. s\<lparr>ss_pending_replies := n\<rparr>) w;
          text \<leftarrow> message_text L h w1;
          (case text of
             None \<Rightarrow> upstream_error a w1
           | Some p \<Rightarrow>
             if \<not> json_loadb L p then upstream_error a w1
             else (case json_unpack L p [[''name''], [''surname'']] of
                 Some [name, surname] \<Rightarrow>
                   (case strdup name w1 of
                      (None, w2) \<Rightarrow> do {
                        w3 \<leftarrow> upd_session a (\<lambda>s. s\<lparr>ss_name := None\<rparr>) w2;
                        upstream_error a w3 }
                    | (Some np, w2) \<Rightarrow> do {
                        w3 \<leftarrow> upd_session a (\<lambda>s. s\<lparr>ss_name := Some np\<rparr>) w2;
                        (case strdup surname w3 of
                           (None, w4) \<Rightarrow> do {
                             w5 \<leftarrow> upd_session a (\<lambda>s. s\<lparr>ss_surname := None\<rparr>) w4;
                             upstream_error a w5 }
                         | (Some sp, w4) \<Rightarrow> do {
                             w5 \<leftarrow> upd_session a (\<lambda>s. s\<lparr>ss_surname := Some sp, ss_name_replied := True\<rparr>) w4;
                             w6 \<leftarrow> http_session_free (Some h) w5;
                             w7 \<leftarrow> upd_session a (\<lambda>s. s\<lparr>ss_http := (ss_http s)[NAME := None]\<rparr>) w6;
                             http_client_response L a w7 }) })
               | _ \<Rightarrow> upstream_error a w1)) }"

definition http_response_joke :: "('e, 'p) lib \<Rightarrow> addr \<Rightarrow> ('e, 'p) world \<Rightarrow> ('e, 'p) world option" where
  "http_response_joke L h w =
     do { a \<leftarrow> http_session_master h w;
          s \<leftarrow> sessions w a;
          n \<leftarrow> c_int (ss_pending_replies s - 1);
          w1 \<leftarrow> upd_session a (\<lambda>s. s\<lparr>ss_pending_replies := n\<rparr>) w;
          text \<leftarrow> message_text L h w1;
          (case text of
             None \<Rightarrow> upstream_error a w1
           | Some p \<Rightarrow>
             if \<not> json_loadb L p then upstream_error a w1
             else (case json_unpack L p [[''value'', ''joke'']] of
                 Some [joke] \<Rightarrow>
                   (case strdup joke w1 of
                      (None, w2) \<Rightarrow> do {
                        w3 \<leftarrow> upd_session a (\<lambda>s. s\<lparr>ss_joke := None\<rparr>) w2;
                        upstream_error a w3 }
                    | (Some jp, w2) \<Rightarrow> do {
                        w3 \<leftarrow> upd_session a (\<lambda>s. s\<lparr>ss_joke := Some jp, ss_joke_replied := True\<rparr>) w2;
                        w4 \<leftarrow> http_session_free (Some h) w3;
                        w5 \<leftarrow> upd_session a (\<lambda>s. s\<lparr>ss_http := (ss_http s)[JOKE := None]\<rparr>) w4;
                        http_client_response L a w5 })
               | _ \<Rightarrow> upstream_error a w1)) }"

subsection \<open>Requests to the upstream servers\<close>

definition name_request :: http_request where
  "name_request = \<lparr>request_line = ''GET /api/ HTTP/1.1'' @ crlf,
     headers = [''Host: uinames.com'' @ crlf, ''User-Agent: Tigera/WebService/1.0.0'' @ crlf,
                ''Accept: */*'' @ crlf]\<rparr>"

definition joke_request :: http_request where
  "joke_request = \<lparr>request_line =
       ''GET /jokes/random?firstName=Eduardo&lastName=Panisset&limitTo=[nerdy] HTTP/1.1'' @ crlf,
     headers = [''Host: api.icndb.com'' @ crlf, ''User-Agent: Tigera/WebService/1.0.0'' @ crlf,
                ''Accept: */*'' @ crlf]\<rparr>"

text \<open>The two functions differ in the request only.\<close>

definition send_request :: "('e, 'p) lib \<Rightarrow> http_request \<Rightarrow> addr \<Rightarrow> ('e, 'p) world \<Rightarrow> ('e, 'p) world option" where
  "send_request L request h w =
     do { a \<leftarrow> http_session_master h w;
          s \<leftarrow> sessions w a;
          n \<leftarrow> c_int (ss_pending_connections s - 1);
          w1 \<leftarrow> upd_session a (\<lambda>s. s\<lparr>ss_pending_connections := n\<rparr>) w;
          (r, w2) \<leftarrow> http_request_write L h request w1;
          if r < 0
          then do { w3 \<leftarrow> session_state_set a ERROR_REQUESTING_FROM_WS w2;
                    http_service_session_remove a w3 }
          else do {
            m \<leftarrow> c_int (ss_pending_replies s + 1);
            upd_session a (\<lambda>s. s\<lparr>ss_pending_replies := m\<rparr>) w2 } }"

definition http_request_name :: "('e, 'p) lib \<Rightarrow> addr \<Rightarrow> ('e, 'p) world \<Rightarrow> ('e, 'p) world option" where
  "http_request_name L h w = send_request L name_request h w"

definition http_request_joke :: "('e, 'p) lib \<Rightarrow> addr \<Rightarrow> ('e, 'p) world \<Rightarrow> ('e, 'p) world option" where
  "http_request_joke L h w = send_request L joke_request h w"

subsection \<open>Connecting to the upstream servers\<close>

definition connect_failed :: "addr \<Rightarrow> ('e, 'p) world \<Rightarrow> ('e, 'p) world option" where
  "connect_failed a w =
     do { w1 \<leftarrow> session_state_set a ERROR_CONNECTING_TO_WS w; http_service_session_remove a w1 }"

definition upstream_callbacks :: "nat \<Rightarrow> http_callbacks" where
  "upstream_callbacks idx =
     (if idx = NAME
      then no_callbacks\<lparr>connected := Some Http_request_name, message_complete := Some Http_response_name\<rparr>
      else no_callbacks\<lparr>connected := Some Http_request_joke, message_complete := Some Http_response_joke\<rparr>)"

definition http_server_connect ::
  "('e, 'p) lib \<Rightarrow> addr \<Rightarrow> sockaddr \<Rightarrow> nat \<Rightarrow> ('e, 'p) world \<Rightarrow> ('e, 'p) world option" where
  "http_server_connect L a ss idx w =
     (case tcp_socket_new w of
        (None, w1) \<Rightarrow> connect_failed a w1
      | (Some ch, w1) \<Rightarrow> do {
          (hs, w2) \<leftarrow> http_session_new L a (Some ch) HTTP_RESPONSE w1;
          (case hs of
             None \<Rightarrow> do { w3 \<leftarrow> channel_free (Some ch) w2; connect_failed a w3 }
           | Some h \<Rightarrow> do {
               (err, w3) \<leftarrow> channel_connect L (Some ch) ss w2;
               if err = IO_CHANNEL_E_ERROR
               then do { w4 \<leftarrow> http_session_free (Some h) w3; connect_failed a w4 }
               else do {
                 s \<leftarrow> sessions w3 a;
                 n \<leftarrow> c_int (ss_pending_connections s + 1);
                 if idx < length (ss_http s)
                 then do {
                   w4 \<leftarrow> upd_session a (\<lambda>s. s\<lparr>ss_http := (ss_http s)[idx := Some h],
                                              ss_pending_connections := n\<rparr>) w3;
                   http_session_callbacks_set h (upstream_callbacks idx) w4 }
                 else None } }) })"

subsection \<open>Resolving the upstream servers\<close>

definition find_address :: "sockaddr list \<Rightarrow> sockaddr option" where
  "find_address ais = List.find (\<lambda>ai. sa_family ai = AF_INET \<or> sa_family ai = AF_INET6) ais"

text \<open>\<open>ctx\<close> is the DNS request that was given to \<open>evdns_getaddrinfo\<close>.\<close>

definition dnsname_resolved_cb ::
  "('e, 'p) lib \<Rightarrow> gai_result \<Rightarrow> addr \<Rightarrow> ('e, 'p) world \<Rightarrow> ('e, 'p) world option" where
  "dnsname_resolved_cb L result ctx w =
     do { d \<leftarrow> dns_requests w ctx;
          session \<leftarrow> reference_get (dr_session d) w;
          let idx = dr_idx d;
          w1 \<leftarrow> dns_request_free (Some ctx)
                  (w\<lparr>dns_requests := (dns_requests w)(ctx \<mapsto> d\<lparr>dr_evdns_req := None\<rparr>)\<rparr>);
          (case session of
             None \<Rightarrow> Some w1
           | Some a \<Rightarrow>
               (case (case result of Gai_error e \<Rightarrow> None | Gai_addrs ais \<Rightarrow> find_address ais) of
                  Some ai \<Rightarrow> do {
                    s \<leftarrow> sessions w1 a;
                    n \<leftarrow> c_int (ss_pending_resolutions s - 1);
                    w2 \<leftarrow> upd_session a (\<lambda>s. s\<lparr>ss_pending_resolutions := n\<rparr>) w1;
                    http_server_connect L a (ai\<lparr>sa_port := 80\<rparr>) idx w2 }
                | None \<Rightarrow> do {
                    w2 \<leftarrow> session_state_set a ERROR_RESOLVING_DOMAIN w1;
                    http_service_session_remove a w2 })) }"

definition dnsname_resolve ::
  "('e, 'p) lib \<Rightarrow> addr \<Rightarrow> string \<Rightarrow> nat \<Rightarrow> ('e, 'p) world \<Rightarrow> ('e, 'p) world option" where
  "dnsname_resolve L d domain idx w =
     (if this_dns w = None
      then do {
        r \<leftarrow> dns_requests w d;
        session \<leftarrow> reference_get (dr_session r) w;
        w1 \<leftarrow> dns_request_free (Some d) w;
        (case session of
           None \<Rightarrow> Some w1
         | Some a \<Rightarrow> do {
             w2 \<leftarrow> session_state_set a ERROR_RESOLVING_DOMAIN w1;
             http_service_session_remove a w2 }) }
      else do {
        let (gai, e) = evdns_getaddrinfo L domain (ext w);
        let w1 = w\<lparr>ext := e\<rparr>;
        (req, w2) \<leftarrow>
          (case gai of
             Gai_pending \<Rightarrow> Some (Some (fresh w1),
               w1\<lparr>fresh := Suc (fresh w1), resolving := (resolving w1)(fresh w1 \<mapsto> d)\<rparr>)
           | Gai_now result \<Rightarrow> do { w2 \<leftarrow> dnsname_resolved_cb L result d w1; Some (None, w2) });
        r \<leftarrow> dns_requests w2 d;
        Some (w2\<lparr>dns_requests := (dns_requests w2)(d \<mapsto> r\<lparr>dr_evdns_req := req, dr_idx := idx\<rparr>)\<rparr>) })"

definition dns_request_new ::
  "('e, 'p) lib \<Rightarrow> addr \<Rightarrow> string \<Rightarrow> nat \<Rightarrow> ('e, 'p) world \<Rightarrow> (ptr \<times> ('e, 'p) world) option" where
  "dns_request_new L a domain idx w =
     (case new_addr w of
        (None, w1) \<Rightarrow> Some (None, w1)
      | (Some d, w1) \<Rightarrow> do {
          s \<leftarrow> sessions w1 a;
          let w2 = w1\<lparr>dns_requests := (dns_requests w1)(d \<mapsto>
                     \<lparr>dr_idx = 0, dr_evdns_req = None, dr_session = ss_me s\<rparr>)\<rparr>;
          (n, w3) \<leftarrow> reference_weak_inc (ss_me s) w2;
          w4 \<leftarrow> dnsname_resolve L d domain idx w3;
          s4 \<leftarrow> sessions w4 a;
          m \<leftarrow> c_int (ss_pending_resolutions s4 + 1);
          w5 \<leftarrow> upd_session a (\<lambda>s. s\<lparr>ss_pending_resolutions := m\<rparr>) w4;
          Some (Some d, w5) })"

definition client_msg_complete :: "('e, 'p) lib \<Rightarrow> addr \<Rightarrow> ('e, 'p) world \<Rightarrow> ('e, 'p) world option" where
  "client_msg_complete L h w =
     do { a \<leftarrow> http_session_master h w;
          let (me, w1) = reference_new (Some a) False w;
          w2 \<leftarrow> upd_session a (\<lambda>s. s\<lparr>ss_me := me\<rparr>) w1;
          if me = None then http_service_session_remove a w2
          else do {
            (request, w3) \<leftarrow> dns_request_new L a ''uinames.com'' NAME w2;
            if request = None then http_service_session_remove a w3
            else do {
              (request, w4) \<leftarrow> dns_request_new L a ''api.icndb.com'' JOKE w3;
              if request = None then http_service_session_remove a w4
              else session_state_set a RESOLVING_WEBSERVER_DOMAINS w4 } } }"

subsection \<open>Calls through the function pointers\<close>

definition run_http_cb :: "('e, 'p) lib \<Rightarrow> http_cb \<Rightarrow> addr \<Rightarrow> ('e, 'p) world \<Rightarrow> ('e, 'p) world option" where
  "run_http_cb L cb h w =
     (case cb of
        Client_msg_complete \<Rightarrow> client_msg_complete L h w
      | Client_ready_to_close \<Rightarrow> client_ready_to_close h w
      | Http_request_name \<Rightarrow> http_request_name L h w
      | Http_request_joke \<Rightarrow> http_request_joke L h w
      | Http_response_name \<Rightarrow> http_response_name L h w
      | Http_response_joke \<Rightarrow> http_response_joke L h w)"

subsection \<open>The text of the response\<close>

definition personalised :: "string \<Rightarrow> string \<Rightarrow> string \<Rightarrow> string" where
  "personalised name surname joke = replace_all ''Panisset'' surname (replace_all ''Eduardo'' name joke)"

text \<open>The strings of a session are distinct objects, and their sizes are such that the results fit an \<open>int\<close>.\<close>

definition response_ready :: "addr \<Rightarrow> string \<Rightarrow> string \<Rightarrow> string \<Rightarrow> ('e, 'p) world \<Rightarrow> bool" where
  "response_ready a name surname joke w \<longleftrightarrow>
     (case sessions w a of None \<Rightarrow> False
      | Some s \<Rightarrow> (case (ss_name s, ss_surname s, ss_joke s) of
          (Some n, Some sn, Some j) \<Rightarrow>
            strs w n = Some name \<and> strs w sn = Some surname \<and> strs w j = Some joke \<and>
            distinct [n, sn, j] \<and> n < fresh w \<and> sn < fresh w \<and> j < fresh w
        | _ \<Rightarrow> False)) \<and>
     c_string name \<and> c_string surname \<and> c_string joke \<and> length joke < 2 ^ 31 \<and>
     length (replace_all ''Eduardo'' name joke) < 2 ^ 31 - 1 \<and>
     length (personalised name surname joke) < 2 ^ 31 - 1"

lemma response_readyE:
  assumes "response_ready a name surname joke w"
  obtains s n sn j where "sessions w a = Some s" "ss_name s = Some n" "ss_surname s = Some sn"
    "ss_joke s = Some j" "strs w n = Some name" "strs w sn = Some surname" "strs w j = Some joke"
    "distinct [n, sn, j]" "n < fresh w" "sn < fresh w" "j < fresh w"
    "c_string name" "c_string surname" "c_string joke" "length joke < 2 ^ 31"
    "length (replace_all ''Eduardo'' name joke) < 2 ^ 31 - 1"
    "length (personalised name surname joke) < 2 ^ 31 - 1"
  using assms by (auto simp: response_ready_def split: option.splits)

text \<open>What is left of the session's strings: \<open>d\<close> is how far the function came.\<close>

definition drop_strings :: "bool \<Rightarrow> session \<Rightarrow> session" where
  "drop_strings all s = (if all then s\<lparr>ss_name := None, ss_joke := None, ss_surname := None\<rparr>
                         else s\<lparr>ss_name := None\<rparr>)"

lemma strings_left_nomem:
  "(f :: 'a \<rightharpoonup> 'b)(x \<mapsto> t, n := None, j := None, sn := None, x := None) = f(n := None, sn := None, j := None, x := None)"
  by (rule ext) simp

lemma strings_left:
  "y \<noteq> n \<Longrightarrow> y \<noteq> sn \<Longrightarrow> y \<noteq> j \<Longrightarrow> y \<noteq> x \<Longrightarrow>
   (f :: 'a \<rightharpoonup> 'b)(x \<mapsto> t, n := None, j := None, y \<mapsto> u, sn := None, x := None) =
   f(n := None, sn := None, j := None, y \<mapsto> u, x := None)"
  by (rule ext) simp

lemma client_response_create_result:
  assumes ready: "response_ready a name surname joke w" and s: "sessions w a = Some s"
    "ss_name s = Some n" "ss_surname s = Some sn" "ss_joke s = Some j"
  shows "client_response_create a w = Some
    (if answer 0 w
     then (if answer 1 w then Some (Suc (fresh w)) else None,
           w\<lparr>answers := tl (tl (answers w)), fresh := (if answer 1 w then Suc (Suc (fresh w)) else Suc (fresh w)),
             sessions := (sessions w)(a \<mapsto> drop_strings True s),
             strs := (if answer 1 w
                      then (strs w)(n := None, sn := None, j := None,
                                    Suc (fresh w) \<mapsto> personalised name surname joke, fresh w := None)
                      else (strs w)(n := None, sn := None, j := None, fresh w := None))\<rparr>)
     else (None, w\<lparr>answers := tl (answers w), strs := (strs w)(n := None),
             sessions := (sessions w)(a \<mapsto> drop_strings False s)\<rparr>))"
proof -
  from ready s have R: "strs w n = Some name" "strs w sn = Some surname" "strs w j = Some joke"
    "distinct [n, sn, j]" "n < fresh w" "sn < fresh w" "j < fresh w"
    "c_string name" "c_string surname" "c_string joke" "length joke < 2 ^ 31"
    "length (replace_all ''Eduardo'' name joke) < 2 ^ 31 - 1"
    "length (personalised name surname joke) < 2 ^ 31 - 1"
    by (auto elim!: response_readyE)
  let ?t = "replace_all ''Eduardo'' name joke"
  have tok: "length ''Eduardo'' = 7" "length ''Panisset'' = 8" "''Eduardo'' \<noteq> []" "''Panisset'' \<noteq> []"
    by simp_all
  note J1 = joke_create_correct [OF tok(3) R(10,8,11,12), unfolded tok, simplified answer_0]
  have lt: "length ?t < 2 ^ 31" using R(12) by linarith
  note J2 = joke_create_correct [OF tok(4) replace_all_c_string [OF R(10,8)] R(9) lt
      R(13) [unfolded personalised_def], unfolded tok, simplified answer_0, folded personalised_def]
  have neq: "n \<noteq> fresh w" "sn \<noteq> fresh w" "j \<noteq> fresh w" "n \<noteq> sn" "n \<noteq> j" "sn \<noteq> j"
    "n \<noteq> Suc (fresh w)" "sn \<noteq> Suc (fresh w)" "j \<noteq> Suc (fresh w)" using R(4-7) by auto
  show ?thesis
  proof (cases "answer 0 w")
    case False
    with s R J1 [of w] show ?thesis
      by (simp add: client_response_create_def free_str_def upd_session_def drop_strings_def)
  next
    case True
    let ?w5 = "w\<lparr>answers := tl (answers w), fresh := Suc (fresh w),
      strs := (strs w)(fresh w \<mapsto> ?t, n := None, j := None),
      sessions := (sessions w)(a \<mapsto> s\<lparr>ss_name := None, ss_joke := None\<rparr>)\<rparr>"
    have step1: "client_response_create a w =
      do { (new_joke1, w6) \<leftarrow> joke_create ?t (length ?t) ''Panisset'' 8 surname (length surname) ?w5;
           w7 \<leftarrow> free_str (Some sn) w6;
           w8 \<leftarrow> upd_session a (\<lambda>s. s\<lparr>ss_surname := None\<rparr>) w7;
           w9 \<leftarrow> free_str (Some (fresh w)) w8;
           Some (new_joke1, w9) }"
      using True s R(1-4) neq J1 [of w]
      by (simp add: client_response_create_def free_str_def upd_session_def)
    have J: "joke_create ?t (length ?t) ''Panisset'' 8 surname (length surname) ?w5 = Some
       (if answer 1 w then (Some (Suc (fresh w)), ?w5\<lparr>answers := tl (tl (answers w)),
            fresh := Suc (Suc (fresh w)),
            strs := (strs w)(fresh w \<mapsto> ?t, n := None, j := None, Suc (fresh w) \<mapsto> personalised name surname joke)\<rparr>)
        else (None, ?w5\<lparr>answers := tl (tl (answers w))\<rparr>))"
      using J2 [of ?w5] by simp
    have F: "(strs w)(fresh w \<mapsto> ?t, n := None, j := None, sn := None, fresh w := None) =
        (strs w)(n := None, sn := None, j := None, fresh w := None)"
      "(strs w)(fresh w \<mapsto> ?t, n := None, j := None, Suc (fresh w) \<mapsto> personalised name surname joke,
          sn := None, fresh w := None) =
        (strs w)(n := None, sn := None, j := None, Suc (fresh w) \<mapsto> personalised name surname joke, fresh w := None)"
      by (rule strings_left_nomem strings_left; use neq in simp)+
    have G: "((strs w)(fresh w \<mapsto> ?t, n := None, j := None)) sn = Some surname"
        "((strs w)(fresh w \<mapsto> ?t, n := None, j := None, Suc (fresh w) \<mapsto> personalised name surname joke)) sn = Some surname"
      using neq(2,4,6,8) R(2) by simp_all
    have H: "((strs w)(fresh w \<mapsto> ?t, n := None, j := None, sn := None)) (fresh w) = Some ?t"
        "((strs w)(fresh w \<mapsto> ?t, n := None, j := None, Suc (fresh w) \<mapsto> personalised name surname joke, sn := None)) (fresh w) = Some ?t"
      using neq(1-3) by simp_all
    show ?thesis
    proof (cases "answer 1 w")
      case ok: True
      have "client_response_create a w = Some (Some (Suc (fresh w)), w\<lparr>answers := tl (tl (answers w)),
          fresh := Suc (Suc (fresh w)),
          sessions := (sessions w)(a \<mapsto> drop_strings True s),
          strs := (strs w)(fresh w \<mapsto> ?t, n := None, j := None, Suc (fresh w) \<mapsto> personalised name surname joke,
                    sn := None, fresh w := None)\<rparr>)"
        unfolding step1 J using ok G(2) H(2)
        by (simp add: free_str_def upd_session_def drop_strings_def fun_upd_same del: fun_upd_apply)
      with True ok F show ?thesis by simp
    next
      case bad: False
      have "client_response_create a w = Some (None, w\<lparr>answers := tl (tl (answers w)), fresh := Suc (fresh w),
          sessions := (sessions w)(a \<mapsto> drop_strings True s),
          strs := (strs w)(fresh w \<mapsto> ?t, n := None, j := None, sn := None, fresh w := None)\<rparr>)"
        unfolding step1 J using bad G(1) H(1)
        by (simp add: free_str_def upd_session_def drop_strings_def fun_upd_same del: fun_upd_apply)
      with True bad F show ?thesis by simp
    qed
  qed
qed

text \<open>C40. \<open>client_response_create\<close> returns the joke with every ``Eduardo'' replaced by the name
  received and then every ``Panisset'' by the surname, as a new string. The three strings of the
  session are released and its pointers cleared, the intermediate text is released too, and
  nothing else changes. Without memory it returns \<open>NULL\<close> and every string is either released or
  still held by the session.\<close>

theorem client_response_create_correct:
  assumes ready: "response_ready a name surname joke w"
    and s: "sessions w a = Some s" "ss_name s = Some n" "ss_surname s = Some sn" "ss_joke s = Some j"
    and unused: "\<And>p. fresh w \<le> p \<Longrightarrow> strs w p = None"
  shows "\<exists>r w'. client_response_create a w = Some (r, w') \<and>
     (if answer 0 w \<and> answer 1 w
      then \<exists>p. r = Some p \<and> strs w p = None \<and>
             strs w' = (strs w)(n := None, sn := None, j := None, p \<mapsto> personalised name surname joke)
      else r = None \<and>
           strs w' = (if answer 0 w then (strs w)(n := None, sn := None, j := None) else (strs w)(n := None))) \<and>
     sessions w' = (sessions w)(a \<mapsto>
       (if answer 0 w then s\<lparr>ss_name := None, ss_joke := None, ss_surname := None\<rparr> else s\<lparr>ss_name := None\<rparr>)) \<and>
     hsessions w' = hsessions w \<and> channels w' = channels w \<and> bevs w' = bevs w \<and> ext w' = ext w \<and>
     refs w' = refs w \<and> dns_requests w' = dns_requests w \<and> bodies w' = bodies w"
proof -
  have f: "strs w (fresh w) = None" "strs w (Suc (fresh w)) = None" using unused by auto
  have u: "((strs w)(n := None, sn := None, j := None, Suc (fresh w) \<mapsto> t, fresh w := None)) =
       (strs w)(n := None, sn := None, j := None, Suc (fresh w) \<mapsto> t)"
    "((strs w)(n := None, sn := None, j := None, fresh w := None)) = (strs w)(n := None, sn := None, j := None)"
    for t using f by (simp_all add: fun_eq_iff)
  note r = client_response_create_result [OF ready s]
  show ?thesis
    by (cases "answer 0 w"; cases "answer 1 w") (auto simp: r drop_strings_def u f)
qed

subsection \<open>A concrete state\<close>

text \<open>The session 4 with its client's HTTP session 5 and the three strings received.\<close>

definition sample_session :: session where
  "sample_session = zero_session\<lparr>ss_http := [Some 5, None, None], ss_name := Some 20, ss_surname := Some 21,
     ss_joke := Some 22, ss_name_replied := True, ss_joke_replied := True\<rparr>"

definition sample_world :: "(evbuf \<Rightarrow> string, unit) world" where
  "sample_world = \<lparr>answers = [], fresh = 30, rwlocks = Map.empty, mutexes = [9 \<mapsto> False], refs = Map.empty,
     strs = [20 \<mapsto> ''Al'', 21 \<mapsto> ''Bo'', 22 \<mapsto> ''Eduardo Panisset''], ext = (\<lambda>b. ''''), fds = {3},
     bevs = [2 \<mapsto> \<lparr>bev_fd = 3, bev_arg = Some 1, bev_high_wm = 0\<rparr>], listeners = Map.empty,
     channels = [1 \<mapsto> idle_channel\<lparr>ch_io := Some 2, ch_ctx := Some 5\<rparr>], this_ebase = Some 0,
     this_dns = Some 0, hsessions = [5 \<mapsto> sample_hs], bodies = {}, sessions = [4 \<mapsto> sample_session],
     dns_requests = Map.empty, resolving = Map.empty, lh = List_Store empty_heap, svc_sessions = Some 0,
     svc_mutex = Some 9\<rparr>"

lemma sample_personalised:
  "replace_all ''Eduardo'' ''Al'' ''Eduardo Panisset'' = ''Al Panisset''"
  "personalised ''Al'' ''Bo'' ''Eduardo Panisset'' = ''Al Bo''"
  by (simp_all add: personalised_def)

lemma sample_ready: "response_ready 4 ''Al'' ''Bo'' ''Eduardo Panisset'' sample_world"
  unfolding response_ready_def sample_personalised
  by (simp add: sample_world_def sample_session_def zero_session_def c_string_def nul_def)

lemma client_response_create_correct_witness:
  "\<exists>p w'. client_response_create 4 sample_world = Some (Some p, w') \<and> strs w' p = Some ''Al Bo''"
  using client_response_create_correct [OF sample_ready, of sample_session 20 21 22]
  by (auto simp: sample_world_def sample_session_def sample_personalised)

end
