(* ===== verification/Http_Engine.thy ===== *)
theory Http_Engine
  imports Session
begin

section \<open>The HTTP engine: reading messages and reacting to channel events (http\_session.c)\<close>

text \<open>
  \<open>http_request_parse\<close> feeds the chunks of the input buffer that were not parsed yet to
  http\_parser, whose callbacks (\<open>parser_hook\<close>) change the state of the HTTP session and pause the
  parser, and \<open>http_session_read_cb\<close> moves the session through its states. A chunk is a
  string, a run of the parser a tree (\<open>prun\<close>). \<open>services\<close> is the table of the two
  \<open>io_service_t\<close> objects.
\<close>

subsection \<open>The parser's callbacks\<close>

definition message_begin :: "addr \<Rightarrow> ('e, 'p) world \<Rightarrow> ((int \<times> bool) \<times> ('e, 'p) world) option" where
  "message_begin h w =
     do { s \<leftarrow> hsessions w h;
          let (body, w1) = evbuffer_new w;
          if body = None then Some ((-1, False), set_hs h (s\<lparr>hs_body := None\<rparr>) w1)
          else Some ((0, True), set_hs h (s\<lparr>hs_body := body, hs_state := HTTP_MESSAGE_PARSE_BEGIN\<rparr>) w1) }"

definition headers_parse_complete :: "addr \<Rightarrow> ('e, 'p) world \<Rightarrow> ((int \<times> bool) \<times> ('e, 'p) world) option" where
  "headers_parse_complete h w =
     do { s \<leftarrow> hsessions w h;
          Some ((0, True), set_hs h (s\<lparr>hs_state := HTTP_HEADERS_COMPLETE\<rparr>) w) }"

definition message_parse_complete :: "addr \<Rightarrow> ('e, 'p) world \<Rightarrow> ((int \<times> bool) \<times> ('e, 'p) world) option" where
  "message_parse_complete h w =
     do { s \<leftarrow> hsessions w h;
          Some ((0, True), set_hs h (s\<lparr>hs_state := HTTP_MESSAGE_COMPLETE\<rparr>) w) }"

definition message_body ::
  "('e, 'p) lib \<Rightarrow> addr \<Rightarrow> string \<Rightarrow> ('e, 'p) world \<Rightarrow> ((int \<times> bool) \<times> ('e, 'p) world) option" where
  "message_body L h at w =
     do { s \<leftarrow> hsessions w h;
          b \<leftarrow> hs_body s;
          if b \<in> bodies w
          then (let (r, w1) = call_ext (evbuffer_add L) (Body b) at w
                in Some ((if r < 0 then -1 else 0, False), w1))
          else None }"

text \<open>The table \<open>http_parser_hooks\<close>.\<close>

definition parser_hook ::
  "('e, 'p) lib \<Rightarrow> addr \<Rightarrow> parser_cb \<Rightarrow> ('e, 'p) world \<Rightarrow> ((int \<times> bool) \<times> ('e, 'p) world) option" where
  "parser_hook L h cb w =
     (case cb of
        On_message_begin \<Rightarrow> message_begin h w
      | On_headers_complete \<Rightarrow> headers_parse_complete h w
      | On_body at \<Rightarrow> message_body L h at w
      | On_message_complete \<Rightarrow> message_parse_complete h w)"

primrec run_parser ::
  "('e, 'p) lib \<Rightarrow> addr \<Rightarrow> 'p prun \<Rightarrow> ('e, 'p) world \<Rightarrow>
   ((nat \<times> http_errno \<times> 'p) \<times> ('e, 'p) world) option" where
  "run_parser L h (Returns n err p) = (\<lambda>w. Some ((n, err, p), w))"
| "run_parser L h (Calls cb k) =
     (\<lambda>w. case parser_hook L h cb w of
             None \<Rightarrow> None
           | Some (reply, w1) \<Rightarrow> run_parser L h (k reply) w1)"

text \<open>\<open>http_parser_execute\<close> on the parser embedded in the session.\<close>

definition execute_parser ::
  "('e, 'p) lib \<Rightarrow> addr \<Rightarrow> string \<Rightarrow> ('e, 'p) world \<Rightarrow> ((nat \<times> http_errno) \<times> ('e, 'p) world) option" where
  "execute_parser L h data w =
     do { s \<leftarrow> hsessions w h;
          ((n, err, p), w1) \<leftarrow> run_parser L h (http_parser_execute L (hs_parser s) data) w;
          s1 \<leftarrow> hsessions w1 h;
          Some ((n, err), set_hs h (s1\<lparr>hs_parser := p\<rparr>) w1) }"

subsection \<open>Parsing the input\<close>

datatype http_parser_error = HTTP_PARSER_E_SUCCESS | HTTP_PARSER_E_PAUSED | HTTP_PARSER_E_ERROR

definition upd_hs :: "addr \<Rightarrow> ('p http_session \<Rightarrow> 'p http_session) \<Rightarrow> ('e, 'p) world \<Rightarrow> ('e, 'p) world option" where
  "upd_hs h f w = do { s \<leftarrow> hsessions w h; Some (set_hs h (f s) w) }"

fun parse_chunks ::
  "('e, 'p) lib \<Rightarrow> addr \<Rightarrow> string list \<Rightarrow> ('e, 'p) world \<Rightarrow> (http_parser_error \<times> ('e, 'p) world) option" where
  "parse_chunks L h [] w = Some (HTTP_PARSER_E_SUCCESS, w)"
| "parse_chunks L h (v # vs) w = do {
     ((parsed, err), w1) \<leftarrow> execute_parser L h v w;
     w2 \<leftarrow> upd_hs h (\<lambda>s. s\<lparr>hs_len := hs_len s + parsed\<rparr>) w1;
     if err = HPE_PAUSED
     then do {
       w3 \<leftarrow> upd_hs h (\<lambda>s. s\<lparr>hs_parser := http_parser_unpause L (hs_parser s)\<rparr>) w2;
       s \<leftarrow> hsessions w3 h;
       if hs_state s = HTTP_HEADERS_COMPLETE \<and> parsed < length v
       then do {
         ((parsed1, err1), w4) \<leftarrow> execute_parser L h [v ! parsed] w3;
         if parsed1 \<noteq> 1 then Some (HTTP_PARSER_E_ERROR, w4)
         else do {
           w5 \<leftarrow> upd_hs h (\<lambda>s. s\<lparr>hs_len := hs_len s + parsed1\<rparr>) w4;
           Some (HTTP_PARSER_E_PAUSED, w5) } }
       else Some (HTTP_PARSER_E_PAUSED, w3) }
     else if err \<noteq> HPE_OK then Some (HTTP_PARSER_E_ERROR, w2)
     else if parsed < length v then Some (HTTP_PARSER_E_ERROR, w2)
     else parse_chunks L h vs w2 }"

text \<open>
  The array of chunks is on the stack up to five, beyond that on the heap, which may fail. The
  second call of \<open>evbuffer_peek\<close> sees the same buffer as the first.
\<close>

definition http_request_parse ::
  "('e, 'p) lib \<Rightarrow> addr \<Rightarrow> ptr \<Rightarrow> ('e, 'p) world \<Rightarrow> (http_parser_error \<times> ('e, 'p) world) option" where
  "http_request_parse L h channel w =
     do { input \<leftarrow> channel_get_input channel w;
          s \<leftarrow> hsessions w h;
          if evbuffer_ptr_set L input (hs_len s) (ext w) < 0 then Some (HTTP_PARSER_E_ERROR, w)
          else do {
            let vecs = evbuffer_peek L input (hs_len s) (ext w);
            let (ok, w1) = (if 5 < length vecs then ask w else (True, w));
            if \<not> ok then Some (HTTP_PARSER_E_ERROR, w1)
            else parse_chunks L h vecs w1 } }"

subsection \<open>Reacting to the channel\<close>

definition http_session_channel_should_close ::
  "('e, 'p) lib \<Rightarrow> ptr \<Rightarrow> ('e, 'p) world \<Rightarrow> (bool \<times> ('e, 'p) world) option" where
  "http_session_channel_should_close L channel w =
     do { c \<leftarrow> deref (channels w) channel;
          h \<leftarrow> ch_ctx c;
          s \<leftarrow> hsessions w h;
          close \<leftarrow> (if ch_eof c \<and> hs_state s = HTTP_MESSAGE_BEGIN then Some True
                    else if hs_state s = HTTP_MESSAGE_COMPLETE
                    then do { n \<leftarrow> channel_get_output_length L channel w; Some (n = 0) }
                    else Some False);
          if close
          then (case ready_to_close (hs_cbs s) of
                  None \<Rightarrow> Some (True, w)
                | Some cb \<Rightarrow> do { w1 \<leftarrow> run_http_cb L cb h w; Some (True, w1) })
          else Some (False, w) }"

definition http_session_event_cb ::
  "('e, 'p) lib \<Rightarrow> ptr \<Rightarrow> 32 word \<Rightarrow> ('e, 'p) world \<Rightarrow> ('e, 'p) world option" where
  "http_session_event_cb L channel event w =
     do { c \<leftarrow> deref (channels w) channel;
          if has_flag event IO_CHANNEL_EVENT_ERROR
          then do { h \<leftarrow> ch_ctx c; a \<leftarrow> http_session_master h w; http_service_session_remove a w }
          else if has_flag event IO_CHANNEL_EVENT_CONNECTED
          then do { h \<leftarrow> ch_ctx c; s \<leftarrow> hsessions w h;
                    (case connected (hs_cbs s) of None \<Rightarrow> Some w | Some cb \<Rightarrow> run_http_cb L cb h w) }
          else if has_flag event IO_CHANNEL_EVENT_EOF
          then do { (closed, w1) \<leftarrow> http_session_channel_should_close L channel w; Some w1 }
          else if has_flag event IO_CHANNEL_EVENT_TIMEOUT \<and> has_flag event IO_CHANNEL_EVENT_READ
          then do { h \<leftarrow> ch_ctx c; a \<leftarrow> http_session_master h w; http_service_session_remove a w }
          else Some w }"

text \<open>\<open>http_service_session_remove(session->master)\<close>, at the end of the loop after an error.\<close>

definition remove_master :: "addr \<Rightarrow> ('e, 'p) world \<Rightarrow> ('e, 'p) world option" where
  "remove_master h w = do { a \<leftarrow> http_session_master h w; http_service_session_remove a w }"

partial_function (option) http_session_read_loop ::
  "('e, 'p) lib \<Rightarrow> addr \<Rightarrow> ptr \<Rightarrow> ('e, 'p) world \<Rightarrow> ('e, 'p) world option" where
  "http_session_read_loop L h channel w =
     do { s \<leftarrow> hsessions w h;
          (case hs_state s of
             HTTP_HEADERS_COMPLETE \<Rightarrow> do {
               (r, w1) \<leftarrow> channel_drain_input L channel (hs_len s) w;
               if r < 0 then remove_master h w1
               else do {
                 w2 \<leftarrow> upd_hs h (\<lambda>s. s\<lparr>hs_len := 0, hs_state := HTTP_BODY_PARSE\<rparr>) w1;
                 http_session_read_loop L h channel w2 } }
           | HTTP_MESSAGE_COMPLETE \<Rightarrow> do {
               (r, w1) \<leftarrow> channel_drain_input L channel (hs_len s) w;
               if r < 0 then remove_master h w1
               else do {
                 w2 \<leftarrow> upd_hs h (\<lambda>s. s\<lparr>hs_len := 0\<rparr>) w1;
                 (case message_complete (hs_cbs s) of
                    None \<Rightarrow> Some w2
                  | Some cb \<Rightarrow> run_http_cb L cb h w2) } }
           | _ \<Rightarrow> do {
               (err, w1) \<leftarrow> http_request_parse L h channel w;
               if err = HTTP_PARSER_E_ERROR then remove_master h w1
               else do {
                 s1 \<leftarrow> hsessions w1 h;
                 if hs_state s1 = hs_state s then Some w1
                 else http_session_read_loop L h channel w1 } }) }"

definition http_session_read_cb :: "('e, 'p) lib \<Rightarrow> ptr \<Rightarrow> ('e, 'p) world \<Rightarrow> ('e, 'p) world option" where
  "http_session_read_cb L channel w =
     do { c \<leftarrow> deref (channels w) channel;
          h \<leftarrow> ch_ctx c;
          (closed, w1) \<leftarrow> http_session_channel_should_close L channel w;
          if closed then Some w1
          else do {
            n \<leftarrow> channel_get_input_length L channel w1;
            if n = 0 then Some w1 else http_session_read_loop L h channel w1 } }"

definition http_session_write_cb :: "('e, 'p) lib \<Rightarrow> ptr \<Rightarrow> ('e, 'p) world \<Rightarrow> ('e, 'p) world option" where
  "http_session_write_cb L channel w =
     do { (closed, w1) \<leftarrow> http_session_channel_should_close L channel w; Some w1 }"

subsection \<open>Accepting a client (http\_service.c) and the two services\<close>

definition http_service_accept_cb ::
  "('e, 'p) lib \<Rightarrow> ptr \<Rightarrow> accept_param \<Rightarrow> ('e, 'p) world \<Rightarrow> ('e, 'p) world option" where
  "http_service_accept_cb L listener param w =
     do { (channel, w1) \<leftarrow> channel_accept listener param w;
          (case channel of
             None \<Rightarrow> Some w1
           | Some c \<Rightarrow> do {
               (session, w2) \<leftarrow> session_new L (Some c) w1;
               (case session of
                  None \<Rightarrow> channel_free (Some c) w2
                | Some a \<Rightarrow> http_service_session_add a w2) }) }"

definition services :: "('e, 'p) lib \<Rightarrow> service \<Rightarrow> ('e, 'p) world io_service" where
  "services L s =
     (case s of
        Http_io_service \<Rightarrow> \<lparr>accept_cb = Some (http_service_accept_cb L), read_cb = None, write_cb = None,
                            event_cb = None\<rparr>
      | Http_session_io_service \<Rightarrow>
          \<lparr>accept_cb = None, read_cb = Some (http_session_read_cb L),
           write_cb = Some (http_session_write_cb L), event_cb = Some (http_session_event_cb L)\<rparr>)"

subsection \<open>The events of the event loop\<close>

text \<open>
  What libevent delivers: a connection accepted on a listener (with the socket's address and
  the local one), data to read, output drained, flags of a bufferevent, a finished DNS
  resolution. The callback gets the argument it was registered with; an event of an object
  that does not exist, or that has no callback, is not delivered.
\<close>

datatype event =
  Ev_accept addr sockaddr sockaddr | Ev_read addr | Ev_write addr | Ev_flags addr "16 word"
| Ev_dns addr gai_result

fun deliverable :: "event \<Rightarrow> ('e, 'p) world \<Rightarrow> bool" where
  "deliverable (Ev_accept l sa local) w \<longleftrightarrow> listeners w l \<noteq> None"
| "deliverable (Ev_read b) w \<longleftrightarrow> (case bevs w b of None \<Rightarrow> False | Some B \<Rightarrow> bev_arg B \<noteq> None)"
| "deliverable (Ev_write b) w \<longleftrightarrow> (case bevs w b of None \<Rightarrow> False | Some B \<Rightarrow> bev_arg B \<noteq> None)"
| "deliverable (Ev_flags b f) w \<longleftrightarrow> (case bevs w b of None \<Rightarrow> False | Some B \<Rightarrow> bev_arg B \<noteq> None)"
| "deliverable (Ev_dns q r) w \<longleftrightarrow> resolving w q \<noteq> None"

fun handle_event :: "('e, 'p) lib \<Rightarrow> event \<Rightarrow> ('e, 'p) world \<Rightarrow> ('e, 'p) world option" where
  "handle_event L (Ev_accept l sa local) w = do {
     K \<leftarrow> listeners w l;
     let fd = fresh w;
     tcp_socket_accept_cb (services L) fd sa local (lst_arg K)
       (w\<lparr>fresh := Suc fd, fds := insert fd (fds w)\<rparr>) }"
| "handle_event L (Ev_read b) w = do { B \<leftarrow> bevs w b; tcp_socket_read_cb (services L) (bev_arg B) w }"
| "handle_event L (Ev_write b) w = do { B \<leftarrow> bevs w b; tcp_socket_write_cb (services L) (bev_arg B) w }"
| "handle_event L (Ev_flags b f) w = do { B \<leftarrow> bevs w b; tcp_socket_event_cb (services L) f (bev_arg B) w }"
| "handle_event L (Ev_dns q r) w = do {
     d \<leftarrow> resolving w q;
     dnsname_resolved_cb L r d (w\<lparr>resolving := (resolving w)(q := None)\<rparr>) }"

end
