(* ===== verification/Ownership.thy ===== *)
theory Ownership
  imports Http_Engine
begin

section \<open>Who owns what: the invariant of the heap of the service\<close>

text \<open>
  \<open>core\<close> states the ownership discipline the code follows: every HTTP session in a slot of a
  session is live and points back to it, its channel points back to the HTTP session and
  its bufferevent calls back with the channel; every bufferevent with callbacks belongs to such
  a slot; message bodies and strings have one owner; the weak count of a reference is the
  number of DNS requests that hold it. Each part is a predicate on the maps it looks at, and
  the lemmas say which updates of the maps keep it.
\<close>

subsection \<open>Unused addresses\<close>

definition unused :: "addr \<Rightarrow> (addr \<rightharpoonup> 'o) \<Rightarrow> bool" where
  "unused f m \<longleftrightarrow> (\<forall>p. f \<le> p \<longrightarrow> m p = None)"

lemma unused_Suc: "unused f m \<Longrightarrow> unused (Suc f) m"
  by (simp add: unused_def)

lemma unused_none [simp]: "unused f m \<Longrightarrow> unused f (m(a := None))"
  by (simp add: unused_def)

lemma unused_upd: "unused f m \<Longrightarrow> m a = Some y \<Longrightarrow> unused f (m(a \<mapsto> x))"
  by (auto simp: unused_def)

lemma unused_new: "unused f m \<Longrightarrow> unused (Suc f) (m(f \<mapsto> x))"
  by (simp add: unused_def)

lemma unused_lt: "unused f m \<Longrightarrow> m a = Some x \<Longrightarrow> a < f"
  by (auto simp: unused_def not_le [symmetric])

lemma unusedD: "unused f m \<Longrightarrow> f \<le> a \<Longrightarrow> m a = None"
  by (simp add: unused_def)

lemma unused_put: "unused f m \<Longrightarrow> a < f \<Longrightarrow> unused f (m(a \<mapsto> x))"
  by (simp add: unused_def)

definition unused_set :: "addr \<Rightarrow> addr set \<Rightarrow> bool" where
  "unused_set f E \<longleftrightarrow> (\<forall>p. f \<le> p \<longrightarrow> p \<notin> E)"

definition fresh_ok :: "('e, 'p) world \<Rightarrow> bool" where
  "fresh_ok w \<longleftrightarrow>
     unused (fresh w) (bevs w) \<and> unused (fresh w) (listeners w) \<and> unused (fresh w) (channels w) \<and>
     unused (fresh w) (hsessions w) \<and> unused_set (fresh w) (bodies w) \<and> unused (fresh w) (sessions w) \<and>
     unused (fresh w) (dns_requests w) \<and> unused (fresh w) (resolving w) \<and> unused (fresh w) (strs w) \<and>
     unused (fresh w) (refs w)"

lemma unused_mono: "unused f m \<Longrightarrow> f \<le> g \<Longrightarrow> unused g m"
  by (simp add: unused_def)

lemma unused_set_mono: "unused_set f E \<Longrightarrow> f \<le> g \<Longrightarrow> unused_set g E"
  by (simp add: unused_set_def)

lemma unused_set_Suc: "unused_set f E \<Longrightarrow> unused_set (Suc f) E"
  by (simp add: unused_set_def)

lemma unused_set_minus [simp]: "unused_set f E \<Longrightarrow> unused_set f (E - X)"
  by (simp add: unused_set_def)

lemma fresh_ok_mono: "fresh_ok w \<Longrightarrow> fresh w \<le> f \<Longrightarrow> fresh_ok (w\<lparr>fresh := f\<rparr>)"
  by (simp add: fresh_ok_def unused_def unused_set_def)

lemma unused_set_new: "unused_set f E \<Longrightarrow> unused_set (Suc f) (insert f E)"
  by (simp add: unused_set_def)

lemmas unused_intros = unused_upd unused_new unused_Suc unused_set_new unused_set_Suc

subsection \<open>HTTP sessions, channels and bufferevents\<close>

definition slot_callbacks :: "nat \<Rightarrow> http_callbacks" where
  "slot_callbacks i = (if i = CLIENT then client_callbacks else upstream_callbacks i)"

text \<open>\<open>h\<close> is in the slot \<open>i\<close> of the session \<open>a\<close>.\<close>

definition slot :: "(addr \<rightharpoonup> session) \<Rightarrow> addr \<Rightarrow> nat \<Rightarrow> addr \<Rightarrow> bool" where
  "slot S a i h \<longleftrightarrow> (\<exists>s. S a = Some s \<and> i < 3 \<and> ss_http s ! i = Some h)"

text \<open>The objects behind the HTTP session \<open>h\<close> in the slot \<open>i\<close> of the session \<open>a\<close>.\<close>

record 'p chain_objs =
  co_hs :: "'p http_session"
  co_ca :: addr
  co_ch :: channel
  co_ba :: addr
  co_bev :: bev

definition chain ::
  "(addr \<rightharpoonup> 'p http_session) \<Rightarrow> addr set \<Rightarrow> (addr \<rightharpoonup> channel) \<Rightarrow> (addr \<rightharpoonup> bev) \<Rightarrow> addr \<Rightarrow> nat \<Rightarrow> addr \<Rightarrow>
   'p chain_objs \<Rightarrow> bool" where
  "chain H E C V a i h K \<longleftrightarrow>
     H h = Some (co_hs K) \<and> hs_master (co_hs K) = a \<and> hs_cbs (co_hs K) = slot_callbacks i \<and>
     hs_channel (co_hs K) = Some (co_ca K) \<and> (\<forall>e. hs_body (co_hs K) = Some e \<longrightarrow> e \<in> E) \<and>
     C (co_ca K) = Some (co_ch K) \<and> ch_ctx (co_ch K) = Some h \<and>
     ch_service (co_ch K) = Some Http_session_io_service \<and> \<not> ch_listen (co_ch K) \<and>
     ch_io (co_ch K) = Some (co_ba K) \<and> V (co_ba K) = Some (co_bev K) \<and> bev_arg (co_bev K) = Some (co_ca K)"

definition link ::
  "(addr \<rightharpoonup> 'p http_session) \<Rightarrow> addr set \<Rightarrow> (addr \<rightharpoonup> channel) \<Rightarrow> (addr \<rightharpoonup> bev) \<Rightarrow> addr \<Rightarrow> nat \<Rightarrow> addr \<Rightarrow> bool" where
  "link H E C V a i h \<longleftrightarrow> (\<exists>K. chain H E C V a i h K)"

definition len_ok :: "(addr \<rightharpoonup> session) \<Rightarrow> bool" where
  "len_ok S \<longleftrightarrow> (\<forall>a s. S a = Some s \<longrightarrow> length (ss_http s) = 3)"

definition http_ok ::
  "(addr \<rightharpoonup> session) \<Rightarrow> (addr \<rightharpoonup> 'p http_session) \<Rightarrow> addr set \<Rightarrow> (addr \<rightharpoonup> channel) \<Rightarrow> (addr \<rightharpoonup> bev) \<Rightarrow> bool" where
  "http_ok S H E C V \<longleftrightarrow>
     (\<forall>a i h. slot S a i h \<longrightarrow> link H E C V a i h) \<and>
     (\<forall>b B c. V b = Some B \<longrightarrow> bev_arg B = Some c \<longrightarrow>
        (\<exists>a i h K. slot S a i h \<and> chain H E C V a i h K \<and> co_ca K = c \<and> co_ba K = b)) \<and>
     (\<forall>h h' X X' e. H h = Some X \<longrightarrow> H h' = Some X' \<longrightarrow> hs_body X = Some e \<longrightarrow> hs_body X' = Some e \<longrightarrow> h = h') \<and>
     (\<forall>h X e. H h = Some X \<longrightarrow> hs_body X = Some e \<longrightarrow> e \<in> E)"

lemma slot_callbacks_inj: "i < 3 \<Longrightarrow> j < 3 \<Longrightarrow> slot_callbacks i = slot_callbacks j \<Longrightarrow> i = j"
  by (auto simp: slot_callbacks_def client_callbacks_def upstream_callbacks_def no_callbacks_def slots
      numeral_3_eq_3 less_Suc_eq split: if_splits)

text \<open>The pointers back make the chains disjoint.\<close>

lemma chain_fun: "chain H E C V a i h K \<Longrightarrow> chain H E C V a' i' h K' \<Longrightarrow> K = K' \<and> a = a'"
  by (auto simp: chain_def)

lemma chain_slot_unique:
  "chain H E C V a i h K \<Longrightarrow> chain H E C V a' i' h K' \<Longrightarrow> i < 3 \<Longrightarrow> i' < 3 \<Longrightarrow> i = i'"
  using slot_callbacks_inj [of i i'] by (auto simp: chain_def)

lemma chain_channel_unique:
  "chain H E C V a i h K \<Longrightarrow> chain H E C V a' i' h' K' \<Longrightarrow> co_ca K = co_ca K' \<Longrightarrow> h = h'"
  by (auto simp: chain_def)

lemma chain_bev_unique:
  "chain H E C V a i h K \<Longrightarrow> chain H E C V a' i' h' K' \<Longrightarrow> co_ba K = co_ba K' \<Longrightarrow> h = h'"
  by (auto simp: chain_def)

lemma http_ok_link: "http_ok S H E C V \<Longrightarrow> slot S a i h \<Longrightarrow> \<exists>K. chain H E C V a i h K"
  by (auto simp: http_ok_def link_def)

lemma http_ok_back:
  assumes "http_ok S H E C V" "V b = Some B" "bev_arg B = Some c"
  obtains a i h K where "slot S a i h" "chain H E C V a i h K" "co_ca K = c" "co_ba K = b"
  using assms unfolding http_ok_def by blast

lemma http_ok_body:
  "http_ok S H E C V \<Longrightarrow> H h = Some X \<Longrightarrow> H h' = Some X' \<Longrightarrow> hs_body X = Some e \<Longrightarrow> hs_body X' = Some e \<Longrightarrow> h = h'"
  unfolding http_ok_def by blast

lemma http_ok_live_body: "http_ok S H E C V \<Longrightarrow> H h = Some X \<Longrightarrow> hs_body X = Some e \<Longrightarrow> e \<in> E"
  unfolding http_ok_def by blast

lemma http_okI:
  assumes "\<And>a i h. slot S a i h \<Longrightarrow> link H E C V a i h"
    and "\<And>b B c. V b = Some B \<Longrightarrow> bev_arg B = Some c \<Longrightarrow>
        \<exists>a i h K. slot S a i h \<and> chain H E C V a i h K \<and> co_ca K = c \<and> co_ba K = b"
    and "\<And>h h' X X' e. H h = Some X \<Longrightarrow> H h' = Some X' \<Longrightarrow> hs_body X = Some e \<Longrightarrow> hs_body X' = Some e \<Longrightarrow> h = h'"
    and "\<And>h X e. H h = Some X \<Longrightarrow> hs_body X = Some e \<Longrightarrow> e \<in> E"
  shows "http_ok S H E C V"
  unfolding http_ok_def using assms by blast

lemma http_ok_slots:
  "(\<And>a i h. slot S' a i h = slot S a i h) \<Longrightarrow> http_ok S' H E C V = http_ok S H E C V"
  by (simp add: http_ok_def)

text \<open>
  One rule for all changes: the chains of the slots that stay are kept, the bufferevents of those
  that go lose their callbacks, and what is new comes with its own chain.
\<close>

lemma http_ok_change:
  assumes ok: "http_ok S H E C V"
    and keep: "\<And>a i k K. slot S a i k \<Longrightarrow> slot S' a i k \<Longrightarrow> chain H E C V a i k K \<Longrightarrow>
      \<exists>K'. chain H' E' C' V' a i k K' \<and> co_ca K' = co_ca K \<and> co_ba K' = co_ba K"
    and slots: "\<And>a i k. slot S' a i k \<Longrightarrow> slot S a i k \<or> link H' E' C' V' a i k"
    and bev: "\<And>b B c. V' b = Some B \<Longrightarrow> bev_arg B = Some c \<Longrightarrow> (\<exists>B0. V b = Some B0 \<and> bev_arg B0 = Some c) \<or>
      (\<exists>a i k K. slot S' a i k \<and> chain H' E' C' V' a i k K \<and> co_ca K = c \<and> co_ba K = b)"
    and gone: "\<And>a i k K B. slot S a i k \<Longrightarrow> \<not> slot S' a i k \<Longrightarrow> chain H E C V a i k K \<Longrightarrow>
      V' (co_ba K) = Some B \<Longrightarrow> bev_arg B = None"
    and bodies: "\<And>h h' X X' e. H' h = Some X \<Longrightarrow> H' h' = Some X' \<Longrightarrow> hs_body X = Some e \<Longrightarrow> hs_body X' = Some e \<Longrightarrow> h = h'"
      "\<And>h X e. H' h = Some X \<Longrightarrow> hs_body X = Some e \<Longrightarrow> e \<in> E'"
  shows "http_ok S' H' E' C' V'"
proof (rule http_okI)
  fix a i k assume s: "slot S' a i k"
  show "link H' E' C' V' a i k"
  proof (cases "slot S a i k")
    case True
    then obtain K where "chain H E C V a i k K" using http_ok_link [OF ok] by blast
    from keep [OF True s this] show ?thesis by (auto simp: link_def)
  qed (use slots [OF s] in blast)
next
  fix b B c assume B: "V' b = Some B" "bev_arg B = Some c"
  from bev [OF this] show "\<exists>a i h' K. slot S' a i h' \<and> chain H' E' C' V' a i h' K \<and> co_ca K = c \<and> co_ba K = b"
  proof
    assume "\<exists>B0. V b = Some B0 \<and> bev_arg B0 = Some c"
    then obtain a i k K where K: "slot S a i k" "chain H E C V a i k K" "co_ca K = c" "co_ba K = b"
      using http_ok_back [OF ok] by metis
    have s: "slot S' a i k" using gone [OF K(1) _ K(2), of B] K(4) B by auto
    with keep [OF K(1) this K(2)] K(3,4) show ?thesis by blast
  qed blast
qed (erule (3) bodies(1), erule (1) bodies(2))

text \<open>An HTTP session that keeps its place, with the body it had or a new one.\<close>

lemma http_ok_set_hs:
  assumes ok: "http_ok S H E C V" and h: "H h = Some X"
    and same: "hs_master Y = hs_master X" "hs_cbs Y = hs_cbs X" "hs_channel Y = hs_channel X"
    and body: "hs_body Y = hs_body X \<or> hs_body Y = None \<or>
      (\<exists>e. hs_body Y = Some e \<and> e \<in> E' \<and> (\<forall>h' X'. H h' = Some X' \<longrightarrow> hs_body X' \<noteq> Some e))"
    and E: "E \<subseteq> E'"
  shows "http_ok S (H(h \<mapsto> Y)) E' C V"
proof (rule http_ok_change [OF ok])
  fix a i k K assume "chain H E C V a i k K"
  then show "\<exists>K'. chain (H(h \<mapsto> Y)) E' C V a i k K' \<and> co_ca K' = co_ca K \<and> co_ba K' = co_ba K"
    using h same body E by (intro exI [of _ "if k = h then K\<lparr>co_hs := Y\<rparr> else K"]) (auto simp: chain_def)
next
  fix k k' Z Z' e
  assume "(H(h \<mapsto> Y)) k = Some Z" "(H(h \<mapsto> Y)) k' = Some Z'" "hs_body Z = Some e" "hs_body Z' = Some e"
  moreover have "k' = h" if "H k' = Some Z'" "hs_body Z' = hs_body Y" "hs_body Y = Some e" for k' Z' e
    using that body http_ok_body [OF ok, of k' Z' h X e] h by auto
  ultimately show "k = k'" using http_ok_body [OF ok, of k Z k' Z' e] by (auto split: if_splits)
next
  fix k Z e assume "(H(h \<mapsto> Y)) k = Some Z" "hs_body Z = Some e"
  then show "e \<in> E'" using http_ok_live_body [OF ok] body h E by (auto split: if_splits)
qed auto

text \<open>A channel that stays what it is.\<close>

lemma http_ok_set_channel:
  assumes ok: "http_ok S H E C V" and c: "C x = Some Y"
    and same: "ch_ctx Z = ch_ctx Y" "ch_service Z = ch_service Y" "ch_listen Z = ch_listen Y" "ch_io Z = ch_io Y"
  shows "http_ok S H E (C(x \<mapsto> Z)) V"
proof (rule http_ok_change [OF ok])
  fix a i k K assume "chain H E C V a i k K"
  then show "\<exists>K'. chain H E (C(x \<mapsto> Z)) V a i k K' \<and> co_ca K' = co_ca K \<and> co_ba K' = co_ba K"
    using c same by (intro exI [of _ "if co_ca K = x then K\<lparr>co_ch := Z\<rparr> else K"]) (auto simp: chain_def)
qed (use http_ok_body [OF ok] http_ok_live_body [OF ok] in blast)+

text \<open>Releasing the HTTP session of a slot with all that hangs on it.\<close>

lemma slot_clear:
  assumes "S a = Some s" "length (ss_http s) = 3" "ss_http s' = (ss_http s)[i := None]"
  shows "slot (S(a \<mapsto> s')) a' i' k \<longleftrightarrow> slot S a' i' k \<and> (a' = a \<longrightarrow> i' \<noteq> i)"
proof -
  have "(ss_http s)[i := None] ! i' = Some k \<longleftrightarrow> ss_http s ! i' = Some k \<and> i' \<noteq> i" if "i' < 3"
    using assms(2) that by (cases "i' = i") simp_all
  with assms show ?thesis by (auto simp: slot_def)
qed

lemma http_ok_clear:
  assumes ok: "http_ok S H E C V" and s: "S a = Some s" "length (ss_http s) = 3" "ss_http s ! i = Some h" "i < 3"
    and K: "chain H E C V a i h K" and s': "ss_http s' = (ss_http s)[i := None]"
    and E': "E' = E - {e. hs_body (co_hs K) = Some e}"
  shows "http_ok (S(a \<mapsto> s')) (H(h := None)) E' (C(co_ca K := None)) (V(co_ba K := None))"
proof -
  have sl: "slot (S(a \<mapsto> s')) a' i' k \<longleftrightarrow> slot S a' i' k \<and> (a' = a \<longrightarrow> i' \<noteq> i)" for a' i' k
    by (rule slot_clear; fact)
  have sh: "slot S a i h" using s by (simp add: slot_def)
  have other: "k \<noteq> h" if sk: "slot S a' i' k" "\<not> (a' = a \<and> i' = i)" for a' i' k
  proof
    assume k: "k = h"
    obtain K' where K': "chain H E C V a' i' h K'" using http_ok_link [OF ok sk(1)] k by blast
    have "a' = a" "i' = i" using chain_fun [OF K K'] chain_slot_unique [OF K K' s(4)] sk(1)
      by (auto simp: slot_def)
    with sk(2) show False by simp
  qed
  show ?thesis
  proof (rule http_ok_change [OF ok])
    fix a' i' k K' assume A: "slot S a' i' k" "slot (S(a \<mapsto> s')) a' i' k" "chain H E C V a' i' k K'"
    then have k: "k \<noteq> h" using other sl by blast
    have "co_ca K' \<noteq> co_ca K" "co_ba K' \<noteq> co_ba K"
      using chain_channel_unique [OF K A(3)] chain_bev_unique [OF K A(3)] k by auto
    moreover have "hs_body (co_hs K') = Some e \<Longrightarrow> hs_body (co_hs K) \<noteq> Some e" for e
      using http_ok_body [OF ok, of h _ k] K A(3) k by (auto simp: chain_def)
    ultimately show "\<exists>K''. chain (H(h := None)) E' (C(co_ca K := None)) (V(co_ba K := None)) a' i' k K'' \<and>
        co_ca K'' = co_ca K' \<and> co_ba K'' = co_ba K'"
      using A(3) k by (intro exI [of _ K']) (auto simp: chain_def E')
  next
    fix a' i' k K' B assume A: "slot S a' i' k" "\<not> slot (S(a \<mapsto> s')) a' i' k" "chain H E C V a' i' k K'"
      "(V(co_ba K := None)) (co_ba K') = Some B"
    then have "a' = a" "i' = i" using sl by auto
    then have "k = h" using A(1) s by (simp add: slot_def)
    then have "K' = K" using chain_fun [OF A(3)] K by blast
    with A(4) show "bev_arg B = None" by simp
  next
    fix k k' X X' e
    assume "(H(h := None)) k = Some X" "(H(h := None)) k' = Some X'" "hs_body X = Some e" "hs_body X' = Some e"
    then show "k = k'" using http_ok_body [OF ok] by (auto split: if_splits)
  next
    fix k Z e assume Z: "(H(h := None)) k = Some Z" "hs_body Z = Some e"
    then have "k \<noteq> h" "H k = Some Z" by (auto split: if_splits)
    then have "hs_body (co_hs K) \<noteq> Some e" using http_ok_body [OF ok, of h _ k Z e] K Z by (auto simp: chain_def)
    then show "e \<in> E'" using http_ok_live_body [OF ok \<open>H k = Some Z\<close> Z(2)] by (simp add: E')
  qed (auto simp: sl split: if_splits)
qed

text \<open>A new HTTP session, with channel and bufferevent, in an empty slot.\<close>

lemma slot_fill:
  assumes "S a = Some s" "length (ss_http s) = 3" "ss_http s' = (ss_http s)[i := Some h]" "ss_http s ! i = None" "i < 3"
  shows "slot (S(a \<mapsto> s')) a' i' k \<longleftrightarrow> slot S a' i' k \<or> (a' = a \<and> i' = i \<and> k = h)"
proof -
  have "(ss_http s)[i := Some h] ! i' = Some k \<longleftrightarrow> ss_http s ! i' = Some k \<or> (i' = i \<and> k = h)" if "i' < 3"
    using assms(2,4) that by (cases "i' = i") auto
  with assms show ?thesis by (auto simp: slot_def)
qed

lemma http_ok_fill:
  assumes ok: "http_ok S H E C V" and s: "S a = Some s" "length (ss_http s) = 3" "ss_http s ! i = None" "i < 3"
    and s': "ss_http s' = (ss_http s)[i := Some h]"
    and free: "\<And>a i. \<not> slot S a i h" "\<And>a i k K. slot S a i k \<Longrightarrow> chain H E C V a i k K \<Longrightarrow> co_ca K \<noteq> c \<and> co_ba K \<noteq> b"
    and K: "chain (H(h \<mapsto> X)) E (C(c \<mapsto> Y)) (V(b \<mapsto> B)) a i h K" "co_ca K = c" "co_ba K = b" and body: "hs_body X = None"
  shows "http_ok (S(a \<mapsto> s')) (H(h \<mapsto> X)) E (C(c \<mapsto> Y)) (V(b \<mapsto> B))"
proof -
  have sl: "slot (S(a \<mapsto> s')) a' i' k \<longleftrightarrow> slot S a' i' k \<or> (a' = a \<and> i' = i \<and> k = h)" for a' i' k
    by (rule slot_fill; fact)
  show ?thesis
  proof (rule http_ok_change [OF ok])
    fix a' i' k K' assume A: "slot S a' i' k" "chain H E C V a' i' k K'"
    then have "k \<noteq> h" "co_ca K' \<noteq> c" "co_ba K' \<noteq> b" using free by blast+
    with A(2) show "\<exists>K''. chain (H(h \<mapsto> X)) E (C(c \<mapsto> Y)) (V(b \<mapsto> B)) a' i' k K'' \<and>
        co_ca K'' = co_ca K' \<and> co_ba K'' = co_ba K'"
      by (intro exI [of _ K']) (auto simp: chain_def)
  next
    fix a' i' k assume "slot (S(a \<mapsto> s')) a' i' k"
    with K(1) show "slot S a' i' k \<or> link (H(h \<mapsto> X)) E (C(c \<mapsto> Y)) (V(b \<mapsto> B)) a' i' k"
      unfolding sl link_def by blast
  next
    fix b' B' c' assume A: "(V(b \<mapsto> B)) b' = Some B'" "bev_arg B' = Some c'"
    show "(\<exists>B0. V b' = Some B0 \<and> bev_arg B0 = Some c') \<or> (\<exists>a' i' k K'. slot (S(a \<mapsto> s')) a' i' k \<and>
        chain (H(h \<mapsto> X)) E (C(c \<mapsto> Y)) (V(b \<mapsto> B)) a' i' k K' \<and> co_ca K' = c' \<and> co_ba K' = b')"
    proof (cases "b' = b")
      case True
      moreover from this have "c' = c" using A K by (auto simp: chain_def)
      moreover have "slot (S(a \<mapsto> s')) a i h" by (simp add: sl)
      ultimately show ?thesis using K by blast
    qed (use A in auto)
  next
    fix k k' Z Z' e
    assume "(H(h \<mapsto> X)) k = Some Z" "(H(h \<mapsto> X)) k' = Some Z'" "hs_body Z = Some e" "hs_body Z' = Some e"
    then show "k = k'" using http_ok_body [OF ok] body by (auto split: if_splits)
  next
    fix k Z e assume "(H(h \<mapsto> X)) k = Some Z" "hs_body Z = Some e"
    then show "e \<in> E" using http_ok_live_body [OF ok] body by (auto split: if_splits)
  qed (auto simp: sl)
qed

text \<open>What no slot uses may come and go.\<close>

lemma http_ok_idle_bev:
  assumes ok: "http_ok S H E C V" and "\<And>B. V b = Some B \<Longrightarrow> bev_arg B = None" "\<And>B. x = Some B \<Longrightarrow> bev_arg B = None"
  shows "http_ok S H E C (V(b := x))"
proof (rule http_ok_change [OF ok])
  fix a i k K assume "chain H E C V a i k K"
  with assms(2) show "\<exists>K'. chain H E C (V(b := x)) a i k K' \<and> co_ca K' = co_ca K \<and> co_ba K' = co_ba K"
    by (intro exI [of _ K]) (auto simp: chain_def)
qed (use http_ok_body [OF ok] http_ok_live_body [OF ok] assms(3) in \<open>auto split: if_splits\<close>)

lemma http_ok_idle_channel:
  assumes ok: "http_ok S H E C V" and "\<And>Y. C c = Some Y \<Longrightarrow> ch_io Y = None"
  shows "http_ok S H E (C(c := x)) V"
proof (rule http_ok_change [OF ok])
  fix a i k K assume "chain H E C V a i k K"
  with assms(2) show "\<exists>K'. chain H E (C(c := x)) V a i k K' \<and> co_ca K' = co_ca K \<and> co_ba K' = co_ba K"
    by (intro exI [of _ K]) (auto simp: chain_def)
qed (use http_ok_body [OF ok] http_ok_live_body [OF ok] in \<open>auto split: if_splits\<close>)

lemma http_ok_idle_hs:
  assumes ok: "http_ok S H E C V" and "\<And>a i. \<not> slot S a i h" "\<And>X. x = Some X \<Longrightarrow> hs_body X = None"
  shows "http_ok S (H(h := x)) E C V"
proof (rule http_ok_change [OF ok])
  fix a i k K assume "slot S a i k" "chain H E C V a i k K"
  with assms(2) show "\<exists>K'. chain (H(h := x)) E C V a i k K' \<and> co_ca K' = co_ca K \<and> co_ba K' = co_ba K"
    by (intro exI [of _ K]) (auto simp: chain_def)
next
  fix k k' Z Z' e
  assume "(H(h := x)) k = Some Z" "(H(h := x)) k' = Some Z'" "hs_body Z = Some e" "hs_body Z' = Some e"
  then show "k = k'" using http_ok_body [OF ok] assms(3) by (auto split: if_splits)
next
  fix k Z e assume "(H(h := x)) k = Some Z" "hs_body Z = Some e"
  then show "e \<in> E" using http_ok_live_body [OF ok] assms(3) by (auto split: if_splits)
qed auto

lemma slot_live: "http_ok S H E C V \<Longrightarrow> slot S a i h \<Longrightarrow> H h \<noteq> None"
  using http_ok_link by (fastforce simp: chain_def)

lemma slot_same_http: "S a = Some s \<Longrightarrow> ss_http s' = ss_http s \<Longrightarrow> slot (S(a \<mapsto> s')) a' i k = slot S a' i k"
  by (auto simp: slot_def)

lemma slot_no_http: "S a = Some s \<Longrightarrow> ss_http s = replicate 3 None \<Longrightarrow> slot (S(a := None)) a' i k = slot S a' i k"
  by (auto simp: slot_def)

lemma slot_zero: "S a = None \<Longrightarrow> ss_http s = replicate 3 None \<Longrightarrow> slot (S(a \<mapsto> s)) a' i k = slot S a' i k"
  by (auto simp: slot_def)

subsection \<open>Strings\<close>

definition str_ptrs :: "session \<Rightarrow> addr set" where
  "str_ptrs s = {p. Some p \<in> {ss_name s, ss_surname s, ss_joke s}}"

definition distinct_strs :: "session \<Rightarrow> bool" where
  "distinct_strs s \<longleftrightarrow> (\<forall>p. ss_name s = Some p \<longrightarrow> ss_surname s \<noteq> Some p \<and> ss_joke s \<noteq> Some p) \<and>
     (\<forall>p. ss_surname s = Some p \<longrightarrow> ss_joke s \<noteq> Some p)"

text \<open>A string from upstream: no NUL, at most 1000 characters.\<close>

definition text_ok :: "string \<Rightarrow> bool" where
  "text_ok t \<longleftrightarrow> c_string t \<and> length t \<le> 1000"

definition strs_ok :: "(addr \<rightharpoonup> session) \<Rightarrow> (addr \<rightharpoonup> string) \<Rightarrow> bool" where
  "strs_ok S T \<longleftrightarrow>
     (\<forall>a s. S a = Some s \<longrightarrow> distinct_strs s \<and> (\<forall>p \<in> str_ptrs s. \<exists>t. T p = Some t \<and> text_ok t)) \<and>
     (\<forall>a a' s s' p. S a = Some s \<longrightarrow> S a' = Some s' \<longrightarrow> p \<in> str_ptrs s \<longrightarrow> p \<in> str_ptrs s' \<longrightarrow> a = a')"

lemma strs_okD:
  assumes "strs_ok S T" "S a = Some s"
  shows "distinct_strs s" "p \<in> str_ptrs s \<Longrightarrow> \<exists>t. T p = Some t \<and> text_ok t"
    "S a' = Some s' \<Longrightarrow> p \<in> str_ptrs s \<Longrightarrow> p \<in> str_ptrs s' \<Longrightarrow> a = a'"
  using assms unfolding strs_ok_def by blast+

text \<open>Any change of one session: the new pointers were its own or new, the others are left alone.\<close>

lemma strs_ok_change:
  assumes ok: "strs_ok S T" and d: "distinct_strs s'"
    and own: "\<And>p. p \<in> str_ptrs s' \<Longrightarrow> (\<exists>s. S a = Some s \<and> p \<in> str_ptrs s) \<or> T p = None"
    and live: "\<And>p. p \<in> str_ptrs s' \<Longrightarrow> \<exists>t. T' p = Some t \<and> text_ok t"
    and rest: "\<And>a' s1 p. a' \<noteq> a \<Longrightarrow> S a' = Some s1 \<Longrightarrow> p \<in> str_ptrs s1 \<Longrightarrow> T' p = T p"
  shows "strs_ok (S(a \<mapsto> s')) T'"
proof -
  have new: "p \<notin> str_ptrs s1" if "p \<in> str_ptrs s'" "a' \<noteq> a" "S a' = Some s1" for p a' s1
    using own [OF that(1)] strs_okD(2) [OF ok that(3), of p] strs_okD(3) [OF ok that(3), of a _ p] that(2) by auto
  have "distinct_strs s1 \<and> (\<forall>p \<in> str_ptrs s1. \<exists>t. T' p = Some t \<and> text_ok t)"
    if "(S(a \<mapsto> s')) a1 = Some s1" for a1 s1
    using that d live rest strs_okD(1,2) [OF ok] by (auto split: if_splits)
  moreover have "a1 = a2" if "(S(a \<mapsto> s')) a1 = Some s1" "(S(a \<mapsto> s')) a2 = Some s2"
    "p \<in> str_ptrs s1" "p \<in> str_ptrs s2" for a1 a2 s1 s2 p
    using that new strs_okD(3) [OF ok] by (auto split: if_splits)
  ultimately show ?thesis unfolding strs_ok_def by blast
qed

lemma strs_ok_same:
  assumes "strs_ok S T" "S a = Some s" "ss_name s' = ss_name s" "ss_surname s' = ss_surname s" "ss_joke s' = ss_joke s"
  shows "strs_ok (S(a \<mapsto> s')) T"
proof (rule strs_ok_change [OF assms(1)])
  have p: "str_ptrs s' = str_ptrs s" using assms(3-5) by (simp add: str_ptrs_def)
  show "distinct_strs s'" using strs_okD(1) [OF assms(1,2)] assms(3-5) by (simp add: distinct_strs_def)
  fix p assume "p \<in> str_ptrs s'"
  then show "(\<exists>s. S a = Some s \<and> p \<in> str_ptrs s) \<or> T p = None" "\<exists>t. T p = Some t \<and> text_ok t"
    using strs_okD(2) [OF assms(1,2), of p] assms(2) p by auto
qed simp

lemma strs_ok_remove: "strs_ok S T \<Longrightarrow> strs_ok (S(a := None)) T"
  unfolding strs_ok_def by (auto split: if_splits)

lemma strs_ok_unowned:
  "strs_ok S T \<Longrightarrow> (\<And>a s. S a = Some s \<Longrightarrow> p \<notin> str_ptrs s) \<Longrightarrow> strs_ok S (T(p := x))"
  unfolding strs_ok_def by (metis fun_upd_other)

lemma strs_ok_new: "strs_ok S T \<Longrightarrow> T p = None \<Longrightarrow> strs_ok S (T(p := x))"
  by (rule strs_ok_unowned) (auto dest: strs_okD(2))

subsection \<open>References and DNS requests\<close>

definition pending :: "(addr \<rightharpoonup> dns_request) \<Rightarrow> addr \<Rightarrow> nat \<Rightarrow> bool" where
  "pending D r i \<longleftrightarrow> (\<exists>d X. D d = Some X \<and> dr_session X = Some r \<and> dr_idx X = i)"

definition weak_holders :: "(addr \<rightharpoonup> dns_request) \<Rightarrow> addr \<Rightarrow> int" where
  "weak_holders D r = (if pending D r NAME then 1 else 0) + (if pending D r JOKE then 1 else 0)"

definition ref_good :: "(addr \<rightharpoonup> session) \<Rightarrow> (addr \<rightharpoonup> dns_request) \<Rightarrow> addr \<Rightarrow> ref \<Rightarrow> bool" where
  "ref_good S D r X \<longleftrightarrow> \<not> free_fn X \<and> weak_refcnt X = weak_holders D r \<and>
     (ref_ptr X = None \<longrightarrow> refcnt X = 0 \<and> 0 < weak_refcnt X) \<and>
     (\<forall>a. ref_ptr X = Some a \<longrightarrow> refcnt X = 1 \<and> (\<exists>s. S a = Some s \<and> ss_me s = Some r))"

definition refs_ok :: "(addr \<rightharpoonup> session) \<Rightarrow> (addr \<rightharpoonup> ref) \<Rightarrow> (addr \<rightharpoonup> dns_request) \<Rightarrow> bool" where
  "refs_ok S R D \<longleftrightarrow>
     (\<forall>r X. R r = Some X \<longrightarrow> ref_good S D r X) \<and>
     (\<forall>a s r. S a = Some s \<longrightarrow> ss_me s = Some r \<longrightarrow> (\<exists>X. R r = Some X \<and> ref_ptr X = Some a))"

definition dns_ok :: "(addr \<rightharpoonup> dns_request) \<Rightarrow> (addr \<rightharpoonup> ref) \<Rightarrow> (addr \<rightharpoonup> addr) \<Rightarrow> bool" where
  "dns_ok D R Q \<longleftrightarrow>
     (\<forall>d X. D d = Some X \<longrightarrow> dr_idx X \<in> {NAME, JOKE} \<and> (\<exists>r. dr_session X = Some r \<and> R r \<noteq> None)) \<and>
     (\<forall>d d' X X'. D d = Some X \<longrightarrow> D d' = Some X' \<longrightarrow> dr_session X = dr_session X' \<longrightarrow> dr_idx X = dr_idx X' \<longrightarrow> d = d') \<and>
     (\<forall>q d. Q q = Some d \<longrightarrow> D d \<noteq> None) \<and>
     (\<forall>q q' d. Q q = Some d \<longrightarrow> Q q' = Some d \<longrightarrow> q = q')"

lemma refs_okI:
  assumes "\<And>r X. R r = Some X \<Longrightarrow> ref_good S D r X"
    and "\<And>a s r. S a = Some s \<Longrightarrow> ss_me s = Some r \<Longrightarrow> \<exists>X. R r = Some X \<and> ref_ptr X = Some a"
  shows "refs_ok S R D"
  using assms by (auto simp: refs_ok_def)

lemma refs_ok_good: "refs_ok S R D \<Longrightarrow> R r = Some X \<Longrightarrow> ref_good S D r X"
  by (simp add: refs_ok_def)

lemma ref_goodD:
  assumes "ref_good S D r X"
  shows "\<not> free_fn X" "weak_refcnt X = weak_holders D r"
    "ref_ptr X = None \<Longrightarrow> refcnt X = 0 \<and> 0 < weak_refcnt X"
    "ref_ptr X = Some a \<Longrightarrow> refcnt X = 1 \<and> (\<exists>s. S a = Some s \<and> ss_me s = Some r)"
  using assms unfolding ref_good_def by blast+

lemmas refs_okD = ref_goodD [OF refs_ok_good]

lemma ref_good_mono:
  assumes "ref_good S D r X" "weak_holders D' r = weak_holders D r"
    "\<And>a s. S a = Some s \<Longrightarrow> ss_me s = Some r \<Longrightarrow> ref_ptr X = Some a \<Longrightarrow> \<exists>s'. S' a = Some s' \<and> ss_me s' = Some r"
  shows "ref_good S' D' r X"
  using assms unfolding ref_good_def by metis

lemma refs_ok_me:
  assumes "refs_ok S R D" "S a = Some s" "ss_me s = Some r"
  obtains X where "R r = Some X" "ref_ptr X = Some a" "refcnt X = 1" "\<not> free_fn X" "weak_refcnt X = weak_holders D r"
proof -
  obtain X where X: "R r = Some X" "ref_ptr X = Some a" using assms unfolding refs_ok_def by blast
  with that ref_goodD [OF refs_ok_good [OF assms(1) X(1)]] show thesis by blast
qed

lemma dns_okD:
  assumes "dns_ok D R Q" "D d = Some X"
  shows "dr_idx X \<in> {NAME, JOKE}" "\<exists>r. dr_session X = Some r \<and> R r \<noteq> None"
    "D d' = Some X' \<Longrightarrow> dr_session X = dr_session X' \<Longrightarrow> dr_idx X = dr_idx X' \<Longrightarrow> d = d'"
  using assms unfolding dns_ok_def by blast+

lemma dns_okI:
  assumes "\<And>d X. D d = Some X \<Longrightarrow> dr_idx X \<in> {NAME, JOKE} \<and> (\<exists>r. dr_session X = Some r \<and> R r \<noteq> None)"
    and "\<And>d d' X X'. D d = Some X \<Longrightarrow> D d' = Some X' \<Longrightarrow> dr_session X = dr_session X' \<Longrightarrow> dr_idx X = dr_idx X' \<Longrightarrow> d = d'"
    and "\<And>q d. Q q = Some d \<Longrightarrow> D d \<noteq> None"
    and "\<And>q q' d. Q q = Some d \<Longrightarrow> Q q' = Some d \<Longrightarrow> q = q'"
  shows "dns_ok D R Q"
  unfolding dns_ok_def using assms by blast

lemma dns_ok_queue:
  assumes "dns_ok D R Q"
  shows "Q q = Some d \<Longrightarrow> D d \<noteq> None" "Q q = Some d \<Longrightarrow> Q q' = Some d \<Longrightarrow> q = q'"
  using assms unfolding dns_ok_def by blast+

text \<open>A change of the sessions that keeps their references.\<close>

lemma refs_ok_sessions:
  assumes ok: "refs_ok S R D"
    and me: "\<And>a r. (\<exists>s. S' a = Some s \<and> ss_me s = Some r) \<longleftrightarrow> (\<exists>s. S a = Some s \<and> ss_me s = Some r)"
  shows "refs_ok S' R D"
proof (rule refs_okI)
  fix r X assume "R r = Some X"
  from refs_ok_good [OF ok this] show "ref_good S' D r X" by (rule ref_good_mono) (use me in blast)+
next
  fix a s r assume "S' a = Some s" "ss_me s = Some r"
  with me obtain s' where "S a = Some s'" "ss_me s' = Some r" by blast
  then show "\<exists>X. R r = Some X \<and> ref_ptr X = Some a" by (rule refs_ok_me [OF ok]) blast
qed

lemma refs_ok_same: "refs_ok S R D \<Longrightarrow> S a = Some s \<Longrightarrow> ss_me s' = ss_me s \<Longrightarrow> refs_ok (S(a \<mapsto> s')) R D"
  by (erule refs_ok_sessions) auto

lemma refs_ok_remove: "refs_ok S R D \<Longrightarrow> S a = Some s \<Longrightarrow> ss_me s = None \<Longrightarrow> refs_ok (S(a := None)) R D"
  by (erule refs_ok_sessions) auto

lemma refs_ok_zero: "refs_ok S R D \<Longrightarrow> S a = None \<Longrightarrow> ss_me s = None \<Longrightarrow> refs_ok (S(a \<mapsto> s)) R D"
  by (erule refs_ok_sessions) auto

text \<open>The session takes the reference to itself.\<close>

lemma refs_ok_take:
  assumes ok: "refs_ok S R D" and dns: "dns_ok D R Q" and r: "R r = None"
    and s: "S a = Some s" "ss_me s = None" "ss_me s' = Some r"
  shows "refs_ok (S(a \<mapsto> s')) (R(r \<mapsto> \<lparr>ref_ptr = Some a, refcnt = 1, weak_refcnt = 0, free_fn = False\<rparr>)) D"
    (is "refs_ok ?S ?R D")
proof (rule refs_okI)
  have "\<not> pending D r i" for i using dns_okD(2) [OF dns] r unfolding pending_def by fastforce
  then have w: "weak_holders D r = 0" by (simp add: weak_holders_def)
  fix k X assume X: "?R k = Some X"
  show "ref_good ?S D k X"
  proof (cases "k = r")
    case True
    with X w s show ?thesis by (auto simp: ref_good_def)
  next
    case False
    with X have "ref_good S D k X" using refs_ok_good [OF ok] by simp
    then show ?thesis by (rule ref_good_mono) (use s in auto)
  qed
next
  fix b s1 k assume b: "?S b = Some s1" "ss_me s1 = Some k"
  show "\<exists>X. ?R k = Some X \<and> ref_ptr X = Some b"
  proof (cases "b = a")
    case False
    with b obtain X where "R k = Some X" "ref_ptr X = Some b" using refs_ok_me [OF ok] by (metis fun_upd_other)
    with r show ?thesis by auto
  qed (use b s in auto)
qed

lemma dns_ok_refs:
  assumes ok: "dns_ok D R Q" and live: "\<And>d X r. D d = Some X \<Longrightarrow> dr_session X = Some r \<Longrightarrow> R r \<noteq> None \<Longrightarrow> R' r \<noteq> None"
  shows "dns_ok D R' Q"
proof (rule dns_okI)
  fix d X assume X: "D d = Some X"
  with dns_okD(1,2) [OF ok X] live [OF X] show "dr_idx X \<in> {NAME, JOKE} \<and> (\<exists>r. dr_session X = Some r \<and> R' r \<noteq> None)"
    by blast
qed (fact dns_okD(3) [OF ok] dns_ok_queue [OF ok])+

lemma dns_ok_more: "dns_ok D R Q \<Longrightarrow> dns_ok D (R(r \<mapsto> X)) Q"
  by (erule dns_ok_refs) simp

text \<open>It drops it: with requests pending the struct stays, without its pointer.\<close>

lemma refs_ok_drop:
  assumes ok: "refs_ok S R D" and s: "S a = Some s" "ss_me s = Some r" "R r = Some X" "ss_me s' = None"
    and R': "R' = R(r := if weak_refcnt X = 0 then None else Some (X\<lparr>refcnt := 0, ref_ptr := None\<rparr>))"
  shows "refs_ok (S(a \<mapsto> s')) R' D"
proof (rule refs_okI)
  fix k Y assume Y: "R' k = Some Y"
  show "ref_good (S(a \<mapsto> s')) D k Y"
  proof (cases "k = r")
    case True
    note G = ref_goodD [OF refs_ok_good [OF ok s(3)]]
    have "0 \<le> weak_holders D r" by (simp add: weak_holders_def)
    with True Y G(1,2) show ?thesis by (auto simp: R' ref_good_def split: if_splits)
  next
    case False
    with Y have "ref_good S D k Y" using refs_ok_good [OF ok] by (simp add: R')
    then show ?thesis by (rule ref_good_mono) (use s(1,2) False in auto)
  qed
next
  fix b s1 k assume b: "(S(a \<mapsto> s')) b = Some s1" "ss_me s1 = Some k"
  then have "b \<noteq> a" "S b = Some s1" using s(4) by (auto split: if_splits)
  moreover from this b(2) obtain Y where Y: "R k = Some Y" "ref_ptr Y = Some b" using refs_ok_me [OF ok] by metis
  ultimately have "k \<noteq> r" using refs_ok_me [OF ok s(1,2)] s(3) by (metis option.inject)
  with Y show "\<exists>X. R' k = Some X \<and> ref_ptr X = Some b" by (simp add: R')
qed

lemma dns_ok_drop:
  assumes dns: "dns_ok D R Q" and ok: "refs_ok S R D" and X: "R r = Some X"
    and R': "R' = R(r := if weak_refcnt X = 0 then None else Some Y)"
  shows "dns_ok D R' Q"
proof (rule dns_ok_refs [OF dns])
  fix d Z k assume Z: "D d = Some Z" "dr_session Z = Some k" "R k \<noteq> None"
  have "weak_refcnt X \<noteq> 0" if "k = r"
    using refs_okD(2) [OF ok X] Z that dns_okD(1) [OF dns Z(1)]
    by (auto simp: weak_holders_def pending_def split: if_splits)
  with Z show "R' k \<noteq> None" by (auto simp: R')
qed

text \<open>A DNS request is made.\<close>

lemma pending_new:
  "D d = None \<Longrightarrow> dr_session X = Some r \<Longrightarrow> dr_idx X = i \<Longrightarrow>
   pending (D(d \<mapsto> X)) r' i' \<longleftrightarrow> pending D r' i' \<or> (r' = r \<and> i' = i)"
  unfolding pending_def by (rule iffI) (auto split: if_splits, metis option.distinct(1))

lemma pending_same:
  "D d = Some X \<Longrightarrow> dr_session Y = dr_session X \<Longrightarrow> dr_idx Y = dr_idx X \<Longrightarrow> pending (D(d \<mapsto> Y)) r i = pending D r i"
  unfolding pending_def by (metis fun_upd_apply option.inject)

lemma refs_ok_ask:
  assumes ok: "refs_ok S R D" and X: "R r = Some X" and d: "D d = None"
    and Y: "dr_session Y = Some r" "dr_idx Y = i" "i \<in> {NAME, JOKE}" "\<not> pending D r i"
  shows "refs_ok S (R(r \<mapsto> X\<lparr>weak_refcnt := weak_refcnt X + 1\<rparr>)) (D(d \<mapsto> Y))" (is "refs_ok S ?R ?D")
proof (rule refs_okI)
  note p = pending_new [of D d Y r i, OF d Y(1,2)]
  have w: "weak_holders ?D k = weak_holders D k + (if k = r then 1 else 0)" for k
    using Y(3,4) unfolding weak_holders_def p by (auto simp: slots)
  fix k Z assume Z: "?R k = Some Z"
  show "ref_good S ?D k Z"
  proof (cases "k = r")
    case True
    with Z w refs_ok_good [OF ok X] show ?thesis by (auto simp: ref_good_def)
  next
    case False
    with Z have "ref_good S D k Z" using refs_ok_good [OF ok] by simp
    then show ?thesis by (rule ref_good_mono) (use w False in auto)
  qed
next
  fix a s k assume "S a = Some s" "ss_me s = Some k"
  then obtain Z where "R k = Some Z" "ref_ptr Z = Some a" by (rule refs_ok_me [OF ok])
  with X show "\<exists>X. ?R k = Some X \<and> ref_ptr X = Some a" by auto
qed

lemma dns_ok_ask:
  assumes ok: "dns_ok D R Q" and r: "R r \<noteq> None" and d: "D d = None"
    and Y: "dr_session Y = Some r" "dr_idx Y = i" "i \<in> {NAME, JOKE}" "\<not> pending D r i"
  shows "dns_ok (D(d \<mapsto> Y)) (R(r \<mapsto> X)) (Q(q \<mapsto> d))"
proof (rule dns_okI)
  have other: "\<not> (dr_session Z = Some r \<and> dr_idx Z = i)" if "D d' = Some Z" for d' Z
    using Y(4) that by (auto simp: pending_def)
  fix d1 d2 X1 X2
  assume "(D(d \<mapsto> Y)) d1 = Some X1" "(D(d \<mapsto> Y)) d2 = Some X2" "dr_session X1 = dr_session X2" "dr_idx X1 = dr_idx X2"
  then show "d1 = d2" using other Y(1,2) dns_okD(3) [OF ok] by (auto split: if_splits)
next
  fix d1 X1 assume "(D(d \<mapsto> Y)) d1 = Some X1"
  then show "dr_idx X1 \<in> {NAME, JOKE} \<and> (\<exists>k. dr_session X1 = Some k \<and> (R(r \<mapsto> X)) k \<noteq> None)"
    using Y dns_okD(1,2) [OF ok, of d1 X1] by (auto split: if_splits)
next
  have "Q q' \<noteq> Some d" for q' using dns_ok_queue(1) [OF ok, of q' d] d by auto
  then show "(Q(q \<mapsto> d)) q1 = Some d' \<Longrightarrow> (Q(q \<mapsto> d)) q2 = Some d' \<Longrightarrow> q1 = q2" for q1 q2 d'
    using dns_ok_queue(2) [OF ok] by (auto split: if_splits)
qed (use dns_ok_queue(1) [OF ok] in \<open>auto split: if_splits\<close>)

text \<open>It goes.\<close>

lemma pending_gone:
  assumes "dns_ok D R Q" "D d = Some X" "dr_session X = Some r" "dr_idx X = i"
  shows "pending (D(d := None)) r' i' \<longleftrightarrow> pending D r' i' \<and> \<not> (r' = r \<and> i' = i)"
proof
  assume "pending (D(d := None)) r' i'"
  then obtain d' Z where Z: "D d' = Some Z" "d' \<noteq> d" "dr_session Z = Some r'" "dr_idx Z = i'"
    by (auto simp: pending_def split: if_splits)
  then have "\<not> (r' = r \<and> i' = i)" using assms(3,4) dns_okD(3) [OF assms(1,2), of d' Z] by auto
  with Z show "pending D r' i' \<and> \<not> (r' = r \<and> i' = i)" by (auto simp: pending_def)
next
  assume A: "pending D r' i' \<and> \<not> (r' = r \<and> i' = i)"
  then obtain d' Z where Z: "D d' = Some Z" "dr_session Z = Some r'" "dr_idx Z = i'" by (auto simp: pending_def)
  with A assms(2-4) have "d' \<noteq> d" by auto
  with Z show "pending (D(d := None)) r' i'" by (auto simp: pending_def)
qed

lemma refs_ok_answered:
  assumes ok: "refs_ok S R D" and dns: "dns_ok D R Q" and d: "D d = Some Y" "dr_session Y = Some r" and X: "R r = Some X"
    and R': "R' = R(r := if weak_refcnt X = 1 \<and> ref_ptr X = None then None else Some (X\<lparr>weak_refcnt := weak_refcnt X - 1\<rparr>))"
  shows "refs_ok S R' (D(d := None))"
proof -
  note p = pending_gone [OF dns d refl]
  have i: "dr_idx Y \<in> {NAME, JOKE}" using dns_okD [OF dns d(1)] by simp
  have "pending D r (dr_idx Y)" using d by (auto simp: pending_def)
  then have w: "weak_holders (D(d := None)) k = weak_holders D k - (if k = r then 1 else 0)" for k
    using i unfolding weak_holders_def p by (auto simp: slots)
  show ?thesis
  proof (rule refs_okI)
    fix k Z assume Z: "R' k = Some Z"
    show "ref_good S (D(d := None)) k Z"
    proof (cases "k = r")
      case True
      note G = ref_goodD [OF refs_ok_good [OF ok X]]
      have "0 < weak_refcnt X"
        using \<open>pending D r (dr_idx Y)\<close> i G(2) by (auto simp: weak_holders_def split: if_splits)
      with True Z G(1,2,3) refs_ok_good [OF ok X] w show ?thesis by (auto simp: R' ref_good_def split: if_splits)
    next
      case False
      with Z have "ref_good S D k Z" using refs_ok_good [OF ok] by (simp add: R')
      then show ?thesis by (rule ref_good_mono) (use w False in auto)
    qed
  next
    fix a s k assume "S a = Some s" "ss_me s = Some k"
    then obtain Z where "R k = Some Z" "ref_ptr Z = Some a" by (rule refs_ok_me [OF ok])
    with X show "\<exists>X. R' k = Some X \<and> ref_ptr X = Some a" by (auto simp: R')
  qed
qed

lemma dns_ok_answered:
  assumes ok: "refs_ok S R D" and dns: "dns_ok D R Q" and d: "D d = Some Y" "dr_session Y = Some r" and X: "R r = Some X"
    and Q: "\<And>q. Q q \<noteq> Some d"
    and R': "R' = R(r := if weak_refcnt X = 1 \<and> ref_ptr X = None then None else Some (X\<lparr>weak_refcnt := weak_refcnt X - 1\<rparr>))"
  shows "dns_ok (D(d := None)) R' Q"
proof -
  have *: "weak_refcnt X \<noteq> 1" if Z: "D d' = Some Z" "dr_session Z = Some r" "d' \<noteq> d" for d' Z
  proof -
    have "pending D r (dr_idx Y)" "pending D r (dr_idx Z)" "dr_idx Y \<noteq> dr_idx Z"
      "dr_idx Y \<in> {NAME, JOKE}" "dr_idx Z \<in> {NAME, JOKE}"
      using d Z dns_okD [OF dns] unfolding pending_def by metis+
    then show ?thesis using refs_okD(2) [OF ok X] by (auto simp: weak_holders_def slots)
  qed
  have live: "\<exists>k. dr_session Z = Some k \<and> R' k \<noteq> None" if Z: "D d' = Some Z" "d' \<noteq> d" for d' Z
  proof -
    obtain k where k: "dr_session Z = Some k" "R k \<noteq> None" using dns_okD(2) [OF dns Z(1)] by blast
    then have "weak_refcnt X \<noteq> 1" if "k = r" using Z that * by simp
    with k show ?thesis by (auto simp: R')
  qed
  show ?thesis
  proof (rule dns_okI)
    fix d1 X1 assume "(D(d := None)) d1 = Some X1"
    then show "dr_idx X1 \<in> {NAME, JOKE} \<and> (\<exists>r. dr_session X1 = Some r \<and> R' r \<noteq> None)"
      using live dns_okD(1) [OF dns] by (simp split: if_splits)
  next
    fix d1 d2 X1 X2
    assume "(D(d := None)) d1 = Some X1" "(D(d := None)) d2 = Some X2" "dr_session X1 = dr_session X2" "dr_idx X1 = dr_idx X2"
    then show "d1 = d2" using dns_okD(3) [OF dns] by (simp split: if_splits)
  qed (use dns_ok_queue [OF dns] Q in \<open>auto split: if_splits\<close>)
qed

subsection \<open>Listeners\<close>

definition lst_ok :: "(addr \<rightharpoonup> listener) \<Rightarrow> (addr \<rightharpoonup> channel) \<Rightarrow> bool" where
  "lst_ok K C \<longleftrightarrow> (\<forall>l X. K l = Some X \<longrightarrow> (\<exists>c Y. lst_arg X = Some c \<and> C c = Some Y \<and>
     ch_service Y = Some Http_io_service \<and> ch_listen Y \<and> ch_io Y = Some l))"

lemma lst_ok_channel:
  "lst_ok K C \<Longrightarrow> (\<And>Y. C c = Some Y \<Longrightarrow> \<not> ch_listen Y) \<Longrightarrow> lst_ok K (C(c := x))"
  unfolding lst_ok_def by (metis fun_upd_other)

subsection \<open>The invariant\<close>

definition core :: "('e, 'p) world \<Rightarrow> bool" where
  "core w \<longleftrightarrow> fresh_ok w \<and> len_ok (sessions w) \<and>
     http_ok (sessions w) (hsessions w) (bodies w) (channels w) (bevs w) \<and>
     strs_ok (sessions w) (strs w) \<and> refs_ok (sessions w) (refs w) (dns_requests w) \<and>
     dns_ok (dns_requests w) (refs w) (resolving w) \<and> lst_ok (listeners w) (channels w)"

lemma coreD:
  assumes "core w"
  shows "fresh_ok w" "len_ok (sessions w)" "http_ok (sessions w) (hsessions w) (bodies w) (channels w) (bevs w)"
    "strs_ok (sessions w) (strs w)" "refs_ok (sessions w) (refs w) (dns_requests w)"
    "dns_ok (dns_requests w) (refs w) (resolving w)" "lst_ok (listeners w) (channels w)"
  using assms by (simp_all add: core_def)

text \<open>The invariant does not look at the libraries' state, the answers, the sockets, the list or the locks.\<close>

lemma core_frame [simp]:
  "core (w\<lparr>ext := e\<rparr>) = core w" "core (w\<lparr>answers := bs\<rparr>) = core w" "core (w\<lparr>fds := F\<rparr>) = core w"
  "core (w\<lparr>mutexes := M\<rparr>) = core w" "core (w\<lparr>lh := l\<rparr>) = core w"
  by (simp_all add: core_def fresh_ok_def)

end
