(* ===== verification/Lifetimes.thy ===== *)
theory Lifetimes
  imports Ownership
begin

section \<open>The operations keep the ownership invariant\<close>

text \<open>
  For every operation of the service that creates, changes or releases objects: in a state that
  satisfies \<open>core\<close> it runs (no undefined behaviour), and \<open>core\<close> holds again where it returns.
  \<open>others\<close> says that an operation on one session leaves the other sessions alone.
\<close>

subsection \<open>Frames\<close>

definition same_env :: "('e, 'p) world \<Rightarrow> ('e, 'p) world \<Rightarrow> bool" where
  "same_env w w' \<longleftrightarrow> svc_sessions w' = svc_sessions w \<and> svc_mutex w' = svc_mutex w \<and>
     mutexes w' = mutexes w \<and> lh w' = lh w \<and> this_dns w' = this_dns w \<and> listeners w' = listeners w"

lemma same_env_refl [simp]: "same_env w w"
  by (simp add: same_env_def)

lemma same_env_trans: "same_env w w' \<Longrightarrow> same_env w' w'' \<Longrightarrow> same_env w w''"
  by (simp add: same_env_def)

definition others :: "addr \<Rightarrow> ('e, 'p) world \<Rightarrow> ('e, 'p) world \<Rightarrow> bool" where
  "others a w w' \<longleftrightarrow>
     (\<forall>b. b \<noteq> a \<longrightarrow> sessions w' b = sessions w b) \<and>
     (\<forall>b i h. b \<noteq> a \<longrightarrow> slot (sessions w) b i h \<longrightarrow> hsessions w' h = hsessions w h) \<and>
     (\<forall>b s r i. b \<noteq> a \<longrightarrow> sessions w b = Some s \<longrightarrow> ss_me s = Some r \<longrightarrow>
        pending (dns_requests w') r i = pending (dns_requests w) r i) \<and>
     listeners w' = listeners w"

lemma others_refl [simp]: "others a w w"
  by (simp add: others_def)

lemma others_trans:
  assumes "others a w w'" "others a w' w''"
  shows "others a w w''"
proof -
  have "slot (sessions w') b i h = slot (sessions w) b i h" if "b \<noteq> a" for b i h
    using assms(1) that by (simp add: others_def slot_def)
  with assms show ?thesis by (simp add: others_def)
qed

lemma others_session:
  "others a w (w\<lparr>sessions := (sessions w)(a := x)\<rparr>)"
  by (simp add: others_def)

text \<open>An HTTP session of one session is in no slot of another.\<close>

lemma slot_other:
  assumes "core w" "slot (sessions w) a i h" "slot (sessions w) b j h"
  shows "a = b"
  using http_ok_link [OF coreD(3) [OF assms(1)] assms(2)] http_ok_link [OF coreD(3) [OF assms(1)] assms(3)]
    chain_fun by blast

lemma others_hs:
  assumes "core w" "slot (sessions w) a i h"
  shows "others a w (w\<lparr>hsessions := (hsessions w)(h := x)\<rparr>)"
  using slot_other [OF assms] by (auto simp: others_def)

subsection \<open>Releasing a session\<close>

lemma http_ok_same:
  assumes "http_ok S H E C V" "S a = Some s" "ss_http s' = ss_http s"
  shows "http_ok (S(a \<mapsto> s')) H E C V"
proof -
  have "slot (S(a \<mapsto> s')) b i k = slot S b i k" for b i k by (rule slot_same_http; fact)
  then show ?thesis using http_ok_slots assms(1) by blast
qed

lemma http_ok_remove:
  assumes "http_ok S H E C V" "S a = Some s" "ss_http s = replicate 3 None"
  shows "http_ok (S(a := None)) H E C V"
proof -
  have "slot (S(a := None)) b i k = slot S b i k" for b i k by (rule slot_no_http; fact)
  then show ?thesis using http_ok_slots assms(1) by blast
qed

lemma http_ok_zero:
  assumes "http_ok S H E C V" "S a = None" "ss_http s = replicate 3 None"
  shows "http_ok (S(a \<mapsto> s)) H E C V"
proof -
  have "slot (S(a \<mapsto> s)) b i k = slot S b i k" for b i k by (rule slot_zero; fact)
  then show ?thesis using http_ok_slots assms(1) by blast
qed

lemma core_session:
  assumes core: "core w" and s: "sessions w a = Some s" and same: "ss_http s' = ss_http s" "ss_me s' = ss_me s"
    "ss_name s' = ss_name s" "ss_surname s' = ss_surname s" "ss_joke s' = ss_joke s"
  shows "core (w\<lparr>sessions := (sessions w)(a \<mapsto> s')\<rparr>)"
  using coreD [OF core] s same http_ok_same [OF coreD(3) [OF core] s same(1)]
  by (simp add: core_def fresh_ok_def unused_upd len_ok_def strs_ok_same refs_ok_same)

lemma free_chain:
  assumes K: "chain (hsessions w) (bodies w) (channels w) (bevs w) a i h K"
  shows "\<exists>F. http_session_free (Some h) w = Some (w\<lparr>hsessions := (hsessions w)(h := None),
     bodies := bodies w - {e. hs_body (co_hs K) = Some e}, channels := (channels w)(co_ca K := None),
     bevs := (bevs w)(co_ba K := None), fds := F\<rparr>)"
proof (rule exI [of _ "fds w - {bev_fd (co_bev K)}"])
  note k = K [unfolded chain_def]
  note d = http_session_free_def channel_free_def tcp_socket_free_def bufferevent_free_def
    evutil_closesocket_def set_channel_def set_hs_def evbuffer_free_def
  show "http_session_free (Some h) w = Some (w\<lparr>hsessions := (hsessions w)(h := None),
     bodies := bodies w - {e. hs_body (co_hs K) = Some e}, channels := (channels w)(co_ca K := None),
     bevs := (bevs w)(co_ba K := None), fds := fds w - {bev_fd (co_bev K)}\<rparr>)"
  proof (cases "hs_body (co_hs K)")
    case None
    with k show ?thesis by (simp add: d)
  next
    case (Some e)
    with k show ?thesis by (simp add: d)
  qed
qed

text \<open>The frame of a release.\<close>

definition keeps :: "addr \<Rightarrow> ('e, 'p) world \<Rightarrow> ('e, 'p) world \<Rightarrow> bool" where
  "keeps a w w' \<longleftrightarrow> others a w w' \<and> same_env w w' \<and> dns_requests w' = dns_requests w \<and>
     resolving w' = resolving w \<and> listeners w' = listeners w \<and> fresh w' = fresh w"

lemma keeps_trans: "keeps a w w' \<Longrightarrow> keeps a w' w'' \<Longrightarrow> keeps a w w''"
  unfolding keeps_def using others_trans same_env_trans by metis

lemma keeps_refl [simp]: "keeps a w w"
  by (simp add: keeps_def)

text \<open>What only the HTTP sessions of a session go through.\<close>

definition http_only :: "('e, 'p) world \<Rightarrow> ('e, 'p) world \<Rightarrow> bool" where
  "http_only w w' \<longleftrightarrow> same_env w w' \<and> strs w' = strs w \<and> refs w' = refs w \<and>
     dns_requests w' = dns_requests w \<and> resolving w' = resolving w \<and> listeners w' = listeners w \<and>
     fresh w' = fresh w"

definition same_refs :: "session \<Rightarrow> session \<Rightarrow> bool" where
  "same_refs s s' \<longleftrightarrow> ss_me s' = ss_me s \<and> ss_name s' = ss_name s \<and> ss_surname s' = ss_surname s \<and> ss_joke s' = ss_joke s"

lemma free_slot:
  assumes core: "core w" and s: "sessions w a = Some s" and i: "i < 3"
  obtains w1 where "http_session_free (ss_http s ! i) w = Some w1" "http_only w w1" "sessions w1 = sessions w"
    "hsessions w1 = (case ss_http s ! i of None \<Rightarrow> hsessions w | Some h \<Rightarrow> (hsessions w)(h := None))"
    "\<And>s'. ss_http s' = (ss_http s)[i := None] \<Longrightarrow> same_refs s s' \<Longrightarrow>
       core (w1\<lparr>sessions := (sessions w)(a \<mapsto> s')\<rparr>) \<and> others a w (w1\<lparr>sessions := (sessions w)(a \<mapsto> s')\<rparr>)"
proof (cases "ss_http s ! i")
  case None
  then have "(ss_http s)[i := None] = ss_http s" by (metis list_update_id)
  with None core_session [OF core s] show ?thesis
    by (intro that [of w]) (simp_all add: http_session_free_def http_only_def same_refs_def others_session)
next
  case (Some h)
  note C = coreD [OF core]
  have sl: "slot (sessions w) a i h" using s i Some by (simp add: slot_def)
  then obtain K where K: "chain (hsessions w) (bodies w) (channels w) (bevs w) a i h K"
    using http_ok_link [OF C(3)] by blast
  obtain F where F: "http_session_free (Some h) w = Some (w\<lparr>hsessions := (hsessions w)(h := None),
     bodies := bodies w - {e. hs_body (co_hs K) = Some e}, channels := (channels w)(co_ca K := None),
     bevs := (bevs w)(co_ba K := None), fds := F\<rparr>)" (is "_ = Some ?w1") using free_chain [OF K] by blast
  have len: "length (ss_http s) = 3" using C(2) s by (simp add: len_ok_def)
  have "core (?w1\<lparr>sessions := (sessions w)(a \<mapsto> s')\<rparr>) \<and> others a w (?w1\<lparr>sessions := (sessions w)(a \<mapsto> s')\<rparr>)"
    if s': "ss_http s' = (ss_http s)[i := None]" "same_refs s s'" for s'
  proof
    have "http_ok ((sessions w)(a \<mapsto> s')) ((hsessions w)(h := None)) (bodies w - {e. hs_body (co_hs K) = Some e})
        ((channels w)(co_ca K := None)) ((bevs w)(co_ba K := None))"
      by (rule http_ok_clear [OF C(3) s len Some i K s'(1) refl])
    moreover have "lst_ok (listeners w) ((channels w)(co_ca K := None))"
      by (rule lst_ok_channel [OF C(7)]) (use K in \<open>simp add: chain_def\<close>)
    ultimately show "core (?w1\<lparr>sessions := (sessions w)(a \<mapsto> s')\<rparr>)"
      using C s s' len
      by (simp add: core_def fresh_ok_def unused_upd len_ok_def strs_ok_same refs_ok_same same_refs_def)
    show "others a w (?w1\<lparr>sessions := (sessions w)(a \<mapsto> s')\<rparr>)"
      using slot_other [OF core sl] by (auto simp: others_def)
  qed
  with F Some show ?thesis by (intro that [of ?w1]) (simp_all add: http_only_def same_env_def)
qed

lemma upd_session_simp: "sessions w a = Some s \<Longrightarrow> upd_session a f w = Some (w\<lparr>sessions := (sessions w)(a \<mapsto> f s)\<rparr>)"
  by (simp add: upd_session_def)

lemma free_slots:
  assumes "core w" "sessions w a = Some s" "\<forall>i \<in> set is. i < 3"
  shows "runs (session_free_slots a is w) (\<lambda>w'. core w' \<and> http_only w w' \<and> others a w w' \<and>
     (\<exists>s'. sessions w' a = Some s' \<and> same_refs s s' \<and> (\<forall>i < 3. ss_http s' ! i = (if i \<in> set is then None else ss_http s ! i))))"
  using assms
proof (induction "is" arbitrary: w s)
  case Nil
  then show ?case by (simp add: http_only_def same_refs_def)
next
  case (Cons i "is")
  have len: "length (ss_http s) = 3" using coreD(2) [OF Cons.prems(1)] Cons.prems(2) by (simp add: len_ok_def)
  have i: "i < 3" using Cons.prems(3) by simp
  obtain w1 where w1: "http_session_free (ss_http s ! i) w = Some w1" "http_only w w1" "sessions w1 = sessions w"
    "\<And>s'. ss_http s' = (ss_http s)[i := None] \<Longrightarrow> same_refs s s' \<Longrightarrow>
       core (w1\<lparr>sessions := (sessions w)(a \<mapsto> s')\<rparr>) \<and> others a w (w1\<lparr>sessions := (sessions w)(a \<mapsto> s')\<rparr>)"
    using free_slot [OF Cons.prems(1,2) i] by metis
  let ?s = "s\<lparr>ss_http := (ss_http s)[i := None]\<rparr>"
  let ?w2 = "w1\<lparr>sessions := (sessions w)(a \<mapsto> ?s)\<rparr>"
  have step: "session_free_slots a (i # is) w = session_free_slots a is ?w2"
    using Cons.prems(2) w1(1,3) i len by (simp add: upd_session_simp [of w1 a s])
  have 2: "core ?w2" "others a w ?w2" using w1(4) [of ?s] by (simp_all add: same_refs_def)
  have "runs (session_free_slots a is ?w2) (\<lambda>w'. core w' \<and> http_only ?w2 w' \<and> others a ?w2 w' \<and>
     (\<exists>s'. sessions w' a = Some s' \<and> same_refs ?s s' \<and> (\<forall>j < 3. ss_http s' ! j = (if j \<in> set is then None else ss_http ?s ! j))))"
    by (rule Cons.IH [OF 2(1)]) (use Cons.prems(3) in simp_all)
  then show ?case
    unfolding step
  proof (rule runs_mono)
    fix w' assume A: "core w' \<and> http_only ?w2 w' \<and> others a ?w2 w' \<and>
     (\<exists>s'. sessions w' a = Some s' \<and> same_refs ?s s' \<and> (\<forall>j < 3. ss_http s' ! j = (if j \<in> set is then None else ss_http ?s ! j)))"
    then have "others a w w'" using 2(2) others_trans by blast
    moreover have "http_only w w'" using A w1(2) by (simp add: http_only_def same_env_def)
    ultimately show "core w' \<and> http_only w w' \<and> others a w w' \<and>
     (\<exists>s'. sessions w' a = Some s' \<and> same_refs s s' \<and> (\<forall>j < 3. ss_http s' ! j = (if j \<in> set (i # is) then None else ss_http s ! j)))"
      using A len by (auto simp: same_refs_def nth_list_update)
  qed
qed

text \<open>The session's reference to itself.\<close>

lemma drop_me:
  assumes core: "core w" and s: "sessions w a = Some s"
  obtains n cs w1 w2 where "reference_dec (ss_me s) w = Some ((n, cs), w1)"
    "upd_session a (\<lambda>s. s\<lparr>ss_me := None\<rparr>) w1 = Some w2" "core w2" "keeps a w w2"
    "sessions w2 a = Some (s\<lparr>ss_me := None\<rparr>)" "hsessions w2 = hsessions w"
proof (cases "ss_me s")
  case None
  then have "s\<lparr>ss_me := None\<rparr> = s" by simp
  with None core s show ?thesis
    by (intro that [of 0 "[]" w w]) (simp_all add: reference_dec_def fun_upd_idem upd_session_def)
next
  case (Some r)
  note C = coreD [OF core]
  obtain X where X: "refs w r = Some X" "ref_ptr X = Some a" "refcnt X = 1" "\<not> free_fn X"
    using refs_ok_me [OF C(5) s Some] by metis
  define R where "R = (refs w)(r := if weak_refcnt X = 0 then None else Some (X\<lparr>refcnt := 0, ref_ptr := None\<rparr>))"
  let ?s = "s\<lparr>ss_me := None\<rparr>"
  have dec: "reference_dec (Some r) w = Some ((0, []), w\<lparr>refs := R\<rparr>)"
    using X by (simp add: reference_dec_def Let_def int_ok_def R_def)
  have "http_ok ((sessions w)(a \<mapsto> ?s)) (hsessions w) (bodies w) (channels w) (bevs w)"
    by (rule http_ok_same [OF C(3) s]) simp
  moreover have "refs_ok ((sessions w)(a \<mapsto> ?s)) R (dns_requests w)"
    by (rule refs_ok_drop [OF C(5) s Some X(1) _ R_def]) simp
  moreover have "dns_ok (dns_requests w) R (resolving w)" by (rule dns_ok_drop [OF C(6,5) X(1) R_def])
  moreover have "unused (fresh w) R" using C(1) X(1) by (simp add: R_def fresh_ok_def unused_upd)
  ultimately have "core (w\<lparr>refs := R, sessions := (sessions w)(a \<mapsto> ?s)\<rparr>)"
    using C s by (simp add: core_def fresh_ok_def unused_upd len_ok_def strs_ok_same)
  with dec Some s show ?thesis
    by (intro that [of 0 "[]" "w\<lparr>refs := R\<rparr>" "w\<lparr>refs := R, sessions := (sessions w)(a \<mapsto> ?s)\<rparr>"])
       (simp_all add: upd_session_def keeps_def others_def same_env_def)
qed

text \<open>A change of the session's strings.\<close>

lemma core_strs:
  assumes core: "core w" and s: "sessions w a = Some s" and same: "ss_http s' = ss_http s" "ss_me s' = ss_me s"
    and ok: "strs_ok ((sessions w)(a \<mapsto> s')) T" and T: "unused (fresh w) T"
  shows "core (w\<lparr>strs := T, sessions := (sessions w)(a \<mapsto> s')\<rparr>)"
proof -
  note C = coreD [OF core]
  show ?thesis using C s same ok T http_ok_same [OF C(3) s same(1)] by (simp add: core_def fresh_ok_def unused_upd len_ok_def refs_ok_same)
qed

text \<open>Releasing one string of a session, \<open>p\<close>, and clearing its field.\<close>

lemma drop_str:
  assumes core: "core w" and s: "sessions w a = Some s" and same: "ss_http (f s) = ss_http s" "ss_me (f s) = ss_me s"
    and p: "\<And>x. p = Some x \<Longrightarrow> x \<in> str_ptrs s"
    and s': "distinct_strs (f s)" "\<And>x. x \<in> str_ptrs (f s) \<Longrightarrow> x \<in> str_ptrs s \<and> p \<noteq> Some x"
  obtains w1 w2 where "free_str p w = Some w1" "upd_session a f w1 = Some w2" "core w2" "keeps a w w2"
    "sessions w2 a = Some (f s)" "hsessions w2 = hsessions w"
proof -
  note C = coreD [OF core]
  define T where "T = (\<lambda>x. if p = Some x then None else strs w x)"
  have f: "free_str p w = Some (w\<lparr>strs := T\<rparr>)"
  proof (cases p)
    case (Some x)
    then obtain t where "strs w x = Some t" using strs_okD(2) [OF C(4) s p] by blast
    moreover have "T = (strs w)(x := None)" using Some by (auto simp: T_def)
    ultimately show ?thesis using Some by (simp add: free_str_def)
  qed (simp add: free_str_def T_def)
  have "strs_ok ((sessions w)(a \<mapsto> f s)) T"
    by (rule strs_ok_change [OF C(4) s'(1)])
       (use s' p s strs_okD(2) [OF C(4) s] strs_okD(3) [OF C(4) s] in \<open>fastforce simp: T_def\<close>)+
  moreover have "unused (fresh w) T" using C(1) by (simp add: fresh_ok_def unused_def T_def)
  ultimately have "core (w\<lparr>strs := T, sessions := (sessions w)(a \<mapsto> f s)\<rparr>)" by (rule core_strs [OF core s same])
  with f s show ?thesis
    by (intro that [of "w\<lparr>strs := T\<rparr>" "w\<lparr>strs := T, sessions := (sessions w)(a \<mapsto> f s)\<rparr>"])
       (simp_all add: upd_session_def keeps_def others_def same_env_def)
qed

lemma core_remove:
  assumes core: "core w" and s: "sessions w a = Some s" "ss_http s = replicate 3 None" "ss_me s = None"
  shows "core (w\<lparr>sessions := (sessions w)(a := None)\<rparr>)"
proof -
  note C = coreD [OF core]
  show ?thesis using C s http_ok_remove [OF C(3) s(1,2)]
    by (simp add: core_def fresh_ok_def len_ok_def strs_ok_remove refs_ok_remove)
qed

theorem session_free_runs:
  assumes core: "core w" and s: "sessions w a = Some s"
  shows "runs (session_free (Some a) w) (\<lambda>w'. core w' \<and> keeps a w w' \<and> sessions w' a = None)"
proof -
  have "runs (session_free_slots a [0..<COUNT] w) (\<lambda>w'. core w' \<and> http_only w w' \<and> others a w w' \<and>
     (\<exists>s'. sessions w' a = Some s' \<and> same_refs s s' \<and> (\<forall>i < 3. ss_http s' ! i = (if i \<in> set [0..<COUNT] then None else ss_http s ! i))))"
    by (rule free_slots [OF core s]) (simp add: slots)
  then obtain w1 s1 where w1: "session_free_slots a [0..<COUNT] w = Some w1" "core w1" "http_only w w1" "others a w w1"
    "sessions w1 a = Some s1" "\<forall>i < 3. ss_http s1 ! i = None"
    by (auto simp: runs_def slots)
  have http: "ss_http s1 = replicate 3 None"
    using coreD(2) [OF w1(2)] w1(5,6) by (intro nth_equalityI) (auto simp: len_ok_def)
  have d: "distinct_strs s1" using strs_okD(1) [OF coreD(4) [OF w1(2)] w1(5)] .
  obtain n cs w2 w3 where w3: "reference_dec (ss_me s1) w1 = Some ((n, cs), w2)"
    "upd_session a (\<lambda>s. s\<lparr>ss_me := None\<rparr>) w2 = Some w3" "core w3" "keeps a w1 w3"
    "sessions w3 a = Some (s1\<lparr>ss_me := None\<rparr>)" using drop_me [OF w1(2,5)] by metis
  obtain w4 w5 where w5: "free_str (ss_name s1) w3 = Some w4" "upd_session a (\<lambda>s. s\<lparr>ss_name := None\<rparr>) w4 = Some w5"
    "core w5" "keeps a w3 w5" "sessions w5 a = Some (s1\<lparr>ss_me := None, ss_name := None\<rparr>)"
    by (rule drop_str [OF w3(3,5), of "\<lambda>s. s\<lparr>ss_name := None\<rparr>" "ss_name s1"])
       (use d in \<open>auto simp: distinct_strs_def str_ptrs_def\<close>)
  obtain w6 w7 where w7: "free_str (ss_surname s1) w5 = Some w6" "upd_session a (\<lambda>s. s\<lparr>ss_surname := None\<rparr>) w6 = Some w7"
    "core w7" "keeps a w5 w7" "sessions w7 a = Some (s1\<lparr>ss_me := None, ss_name := None, ss_surname := None\<rparr>)"
    by (rule drop_str [OF w5(3,5), of "\<lambda>s. s\<lparr>ss_surname := None\<rparr>" "ss_surname s1"])
       (use d in \<open>auto simp: distinct_strs_def str_ptrs_def\<close>)
  obtain w8 w9 where w9: "free_str (ss_joke s1) w7 = Some w8" "upd_session a (\<lambda>s. s\<lparr>ss_joke := None\<rparr>) w8 = Some w9"
    "core w9" "keeps a w7 w9" "sessions w9 a = Some (s1\<lparr>ss_me := None, ss_name := None, ss_surname := None, ss_joke := None\<rparr>)"
    by (rule drop_str [OF w7(3,5), of "\<lambda>s. s\<lparr>ss_joke := None\<rparr>" "ss_joke s1"])
       (use d in \<open>auto simp: distinct_strs_def str_ptrs_def\<close>)
  let ?w = "w9\<lparr>sessions := (sessions w9)(a := None)\<rparr>"
  have "session_free (Some a) w = Some ?w"
    using w1(1,5) w3(1,2) w5(1,2) w7(1,2) w9(1,2) by (simp add: session_free_def)
  moreover have "core ?w" by (rule core_remove [OF w9(3,5)]) (simp_all add: http)
  moreover have "keeps a w w1" using w1(3,4) by (simp add: keeps_def http_only_def)
  then have "keeps a w w9" using w3(4) w5(4) w7(4) w9(4) by (blast intro: keeps_trans)
  then have "keeps a w ?w" by (rule keeps_trans) (simp add: keeps_def others_def same_env_def)
  ultimately show ?thesis by simp
qed

subsection \<open>The list of sessions\<close>

text \<open>The list holds exactly the live sessions, each once, and its mutex is free.\<close>

definition svc_ok :: "('e, 'p) world \<Rightarrow> bool" where
  "svc_ok w \<longleftrightarrow> (\<exists>l m ds. svc_sessions w = Some l \<and> svc_mutex w = Some m \<and> mutexes w m = Some False \<and>
     list_queue.holds (store_heap (lh w)) l (map Some ds) \<and> distinct ds \<and> set ds = dom (sessions w))"

text \<open>What an operation on the session \<open>a\<close> guarantees to everybody else.\<close>

definition step_ok :: "addr \<Rightarrow> ('e, 'p) world \<Rightarrow> ('e, 'p) world \<Rightarrow> bool" where
  "step_ok a w w' \<longleftrightarrow> core w' \<and> svc_ok w' \<and> others a w w' \<and> this_dns w' = this_dns w"

lemma step_ok_trans: "step_ok a w w' \<Longrightarrow> step_ok a w' w'' \<Longrightarrow> step_ok a w w''"
  unfolding step_ok_def using others_trans by metis

lemma step_ok_refl: "core w \<Longrightarrow> svc_ok w \<Longrightarrow> step_ok a w w"
  by (simp add: step_ok_def)

lemma svc_ok_mono:
  assumes "svc_ok w" "same_env w w'" "dom (sessions w') = dom (sessions w)"
  shows "svc_ok w'"
  using assms unfolding svc_ok_def same_env_def by metis

lemma remove1_map_Some: "remove1 (Some a) (map Some ds) = map Some (remove1 a ds)"
  by (induction ds) auto

theorem http_service_session_remove_runs:
  assumes core: "core w" and svc: "svc_ok w" and s: "sessions w a = Some s"
  shows "runs (http_service_session_remove a w) (\<lambda>w'. step_ok a w w' \<and> sessions w' a = None)"
proof -
  from svc obtain l m ds where L: "svc_sessions w = Some l" "svc_mutex w = Some m" "mutexes w m = Some False"
    "list_queue.holds (store_heap (lh w)) l (map Some ds)" "distinct ds" "set ds = dom (sessions w)"
    unfolding svc_ok_def by blast
  let ?w1 = "w\<lparr>mutexes := (mutexes w)(m \<mapsto> True)\<rparr>"
  have lock: "mutex_lock (svc_mutex w) w = Some ?w1" using L by (simp add: mutex_lock_def)
  have "a \<in> set ds" using L(6) s by auto
  then obtain n h where h: "list_find_node l (Some a) (store_heap (lh w)) = Some (Some n)"
    "list_remove l (Some n) (store_heap (lh w)) = Some (Some a, h)"
    "list_queue.holds h l (map Some (remove1 a ds))"
    using list_queue.find_and_remove [OF L(4), of "Some a"] by (auto simp: remove1_map_Some)
  let ?w2 = "?w1\<lparr>lh := List_Store h\<rparr>"
  have "runs (session_free (Some a) ?w2) (\<lambda>w'. core w' \<and> keeps a ?w2 w' \<and> sessions w' a = None)"
    by (rule session_free_runs [of _ _ s]) (simp_all add: core s)
  then obtain w3 where w3: "session_free (Some a) ?w2 = Some w3" "core w3" "keeps a ?w2 w3" "sessions w3 a = None"
    by (auto simp: runs_def)
  have env: "svc_sessions w3 = Some l" "svc_mutex w3 = Some m" "mutexes w3 = (mutexes w)(m \<mapsto> True)"
    "lh w3 = List_Store h" "this_dns w3 = this_dns w" using w3(3) L by (simp_all add: keeps_def same_env_def)
  let ?w4 = "w3\<lparr>mutexes := (mutexes w3)(m \<mapsto> False)\<rparr>"
  have run: "http_service_session_remove a w = Some ?w4"
    using lock L h(1,2) w3(1) env by (simp add: http_service_session_remove_def mutex_unlock_def)
  have "sessions w3 x = (if x = a then None else sessions w x)" for x
    using w3(3,4) by (simp add: keeps_def others_def)
  then have gone: "dom (sessions w3) = dom (sessions w) - {a}" by (simp add: dom_def set_eq_iff)
  have "svc_ok ?w4"
    unfolding svc_ok_def using env L(5) h(3) gone
    by (intro exI [of _ l] exI [of _ m] exI [of _ "remove1 a ds"]) (simp add: L(6))
  moreover have "others a w ?w4" using w3(3) by (simp add: keeps_def others_def)
  ultimately show ?thesis using run w3(2,4) env(5) by (simp add: step_ok_def)
qed

lemma http_service_session_add_runs:
  assumes core: "core w" and svc: "svc_ok (w\<lparr>sessions := (sessions w)(a := None)\<rparr>)" and s: "sessions w a = Some s"
    and mem: "will_succeed (store_heap (lh w))"
  shows "runs (http_service_session_add a w) (\<lambda>w'. step_ok a w w' \<and> sessions w' = sessions w \<and>
     hsessions w' = hsessions w \<and> dns_requests w' = dns_requests w)"
proof -
  from svc obtain l m ds where L: "svc_sessions w = Some l" "svc_mutex w = Some m" "mutexes w m = Some False"
    "list_queue.holds (store_heap (lh w)) l (map Some ds)" "distinct ds" "set ds = dom (sessions w) - {a}"
    unfolding svc_ok_def by auto
  obtain h where h: "list_push_back l (Some a) (store_heap (lh w)) = Some h" "list_queue.holds h l (map Some ds @ [Some a])"
    using list_queue.holds_push_back [OF L(4) mem] by blast
  let ?w = "w\<lparr>mutexes := (mutexes w)(m \<mapsto> False), lh := List_Store h\<rparr>"
  have "http_service_session_add a w = Some ?w"
    using L h by (simp add: http_service_session_add_def mutex_lock_def mutex_unlock_def)
  moreover have "dom (sessions w) = insert a (set ds)" "a \<notin> set ds" using s by (auto simp: L(6))
  then have "svc_ok ?w"
    unfolding svc_ok_def using L(1-5) h(2)
    by (intro exI [of _ l] exI [of _ m] exI [of _ "ds @ [a]"]) simp
  ultimately show ?thesis using core by (simp add: step_ok_def others_def)
qed

end
