(* ===== verification/Engine_Safety.thy ===== *)
theory Engine_Safety
  imports Lifetimes
begin

section \<open>The HTTP engine keeps the invariant\<close>

text \<open>
  What http\_parser promises about the order of its callbacks (\<open>parser_laws\<close>), and that with
  it the engine keeps the state of an HTTP session and the phase of its parser in step, has a
  body whenever a message has begun, and leaves everything else alone (\<open>eng\<close>).
\<close>

subsection \<open>The order of the parser's callbacks\<close>

text \<open>
  \<open>ph p\<close> is the phase of the parser \<open>p\<close>: 0 before a message, 1 in its head, 2 in its body, 4
  when it has failed. A callback that fails stops the run with an error, one that pauses stops
  it with \<open>HPE_PAUSED\<close>; a parser that has failed fails again.
\<close>

definition cb_phase :: "parser_cb \<Rightarrow> nat" where
  "cb_phase cb = (case cb of On_message_begin \<Rightarrow> 0 | On_headers_complete \<Rightarrow> 1 | On_body at \<Rightarrow> 2 | On_message_complete \<Rightarrow> 2)"

definition cb_next :: "parser_cb \<Rightarrow> nat" where
  "cb_next cb = (case cb of On_message_begin \<Rightarrow> 1 | On_headers_complete \<Rightarrow> 2 | On_body at \<Rightarrow> 2 | On_message_complete \<Rightarrow> 0)"

primrec tree_ok :: "('p \<Rightarrow> nat) \<Rightarrow> 'p prun \<Rightarrow> nat \<Rightarrow> bool" where
  "tree_ok ph (Returns m err p) n \<longleftrightarrow> (if err = HPE_OTHER then ph p = 4 else n \<noteq> 4 \<and> ph p = n)"
| "tree_ok ph (Calls cb k) n \<longleftrightarrow> n = cb_phase cb \<and>
     (\<forall>r b. if r \<noteq> 0 then \<exists>m p. k (r, b) = Returns m HPE_OTHER p \<and> ph p = 4
            else tree_ok ph (k (r, b)) (cb_next cb) \<and> (b \<longrightarrow> (\<exists>m p. k (r, b) = Returns m HPE_PAUSED p)))"

definition parser_laws :: "('e, 'p) lib \<Rightarrow> ('p \<Rightarrow> nat) \<Rightarrow> bool" where
  "parser_laws L ph \<longleftrightarrow>
     (\<forall>t. ph (http_parser_init L t) = 0) \<and> (\<forall>p. ph (http_parser_unpause L p) = ph p) \<and>
     (\<forall>p s. tree_ok ph (http_parser_execute L p s) (ph p))"

lemma parser_lawsD:
  assumes "parser_laws L ph"
  shows "ph (http_parser_init L t) = 0" "ph (http_parser_unpause L p) = ph p"
    "tree_ok ph (http_parser_execute L p s) (ph p)"
  using assms by (simp_all add: parser_laws_def)

subsection \<open>The state of an HTTP session\<close>

definition state_rank :: "http_state \<Rightarrow> nat" where
  "state_rank st = (case st of HTTP_MESSAGE_BEGIN \<Rightarrow> 0 | HTTP_MESSAGE_PARSE_BEGIN \<Rightarrow> 1 | HTTP_HEADERS_COMPLETE \<Rightarrow> 2
     | HTTP_BODY_PARSE \<Rightarrow> 3 | HTTP_MESSAGE_COMPLETE \<Rightarrow> 4)"

definition state_phase :: "http_state \<Rightarrow> nat" where
  "state_phase st = (case st of HTTP_MESSAGE_BEGIN \<Rightarrow> 0 | HTTP_MESSAGE_PARSE_BEGIN \<Rightarrow> 1 | HTTP_HEADERS_COMPLETE \<Rightarrow> 2
     | HTTP_BODY_PARSE \<Rightarrow> 2 | HTTP_MESSAGE_COMPLETE \<Rightarrow> 0)"

lemma state_rank_simps [simp]:
  "state_rank HTTP_MESSAGE_BEGIN = 0" "state_rank HTTP_MESSAGE_PARSE_BEGIN = 1" "state_rank HTTP_HEADERS_COMPLETE = 2"
  "state_rank HTTP_BODY_PARSE = 3" "state_rank HTTP_MESSAGE_COMPLETE = 4"
  by (simp_all add: state_rank_def)

lemma state_rank_inj: "state_rank st = state_rank st' \<longleftrightarrow> st = st'"
  by (cases st; cases st') simp_all

definition body_ok :: "'p http_session \<Rightarrow> bool" where
  "body_ok X \<longleftrightarrow> (hs_state X \<noteq> HTTP_MESSAGE_BEGIN \<longrightarrow> hs_body X \<noteq> None)"

definition hs_good :: "('p \<Rightarrow> nat) \<Rightarrow> 'p http_session \<Rightarrow> bool" where
  "hs_good ph X \<longleftrightarrow> body_ok X \<and>
     (hs_state X \<noteq> HTTP_MESSAGE_COMPLETE \<longrightarrow> ph (hs_parser X) = state_phase (hs_state X) \<or> ph (hs_parser X) = 4)"

text \<open>The parts of an HTTP session that never change.\<close>

definition same_id :: "'p http_session \<Rightarrow> 'p http_session \<Rightarrow> bool" where
  "same_id X Y \<longleftrightarrow> hs_master Y = hs_master X \<and> hs_cbs Y = hs_cbs X \<and> hs_channel Y = hs_channel X"

lemma same_id_refl [simp]: "same_id X X"
  by (simp add: same_id_def)

text \<open>\<open>eng h w w'\<close>: from \<open>w\<close> to \<open>w'\<close> only the HTTP session \<open>h\<close> has changed, and it is at least as far.\<close>

definition eng :: "addr \<Rightarrow> ('e, 'p) world \<Rightarrow> ('e, 'p) world \<Rightarrow> bool" where
  "eng h w w' \<longleftrightarrow> core w' \<and> same_env w w' \<and> sessions w' = sessions w \<and> dns_requests w' = dns_requests w \<and>
     (\<forall>k. k \<noteq> h \<longrightarrow> hsessions w' k = hsessions w k) \<and>
     (\<exists>X Y. hsessions w h = Some X \<and> hsessions w' h = Some Y \<and> same_id X Y \<and>
        state_rank (hs_state X) \<le> state_rank (hs_state Y))"

lemma eng_refl: "core w \<Longrightarrow> hsessions w h = Some X \<Longrightarrow> eng h w w"
  by (simp add: eng_def)

lemma eng_trans: "eng h w w' \<Longrightarrow> eng h w' w'' \<Longrightarrow> eng h w w''"
  unfolding eng_def same_id_def using same_env_trans by (auto intro: order_trans)

lemma engD: "eng h w w' \<Longrightarrow> core w'"
  by (simp add: eng_def)

lemma eng_rank:
  "eng h w w' \<Longrightarrow> hsessions w h = Some X \<Longrightarrow> hsessions w' h = Some Y \<Longrightarrow> state_rank (hs_state X) \<le> state_rank (hs_state Y)"
  by (auto simp: eng_def)

lemma eng_hs: "eng h w w' \<Longrightarrow> \<exists>Y. hsessions w' h = Some Y"
  by (auto simp: eng_def)

text \<open>The changes the engine makes to an HTTP session.\<close>

lemma core_set_hs:
  assumes core: "core w" and h: "hsessions w h = Some X" and same: "same_id X Y"
    and body: "hs_body Y = hs_body X \<or> hs_body Y = None"
  shows "core (set_hs h Y w)"
proof -
  note C = coreD [OF core]
  have "http_ok (sessions w) ((hsessions w)(h \<mapsto> Y)) (bodies w) (channels w) (bevs w)"
    by (rule http_ok_set_hs [OF C(3) h]) (use same body in \<open>auto simp: same_id_def\<close>)
  with C h show ?thesis by (simp add: core_def fresh_ok_def set_hs_def unused_upd)
qed

lemma eng_set_hs:
  assumes "core w" "hsessions w h = Some X" "same_id X Y" "hs_body Y = hs_body X \<or> hs_body Y = None"
    "state_rank (hs_state X) \<le> state_rank (hs_state Y)"
  shows "eng h w (set_hs h Y w)"
  using core_set_hs [OF assms(1-4)] assms by (simp add: eng_def set_hs_def same_env_def)

lemma core_new_body:
  assumes core: "core w" and h: "hsessions w h = Some X" and same: "same_id X Y" and body: "hs_body Y = Some (fresh w)"
  shows "core (set_hs h Y (w\<lparr>answers := bs, fresh := Suc (fresh w), bodies := insert (fresh w) (bodies w)\<rparr>))"
proof -
  note C = coreD [OF core]
  have "\<forall>h' X'. hsessions w h' = Some X' \<longrightarrow> hs_body X' \<noteq> Some (fresh w)"
    using http_ok_live_body [OF C(3)] C(1) by (auto simp: fresh_ok_def unused_set_def)
  then have "http_ok (sessions w) ((hsessions w)(h \<mapsto> Y)) (insert (fresh w) (bodies w)) (channels w) (bevs w)"
    by (intro http_ok_set_hs [OF C(3) h]) (use same body in \<open>auto simp: same_id_def\<close>)
  with C h show ?thesis
    by (simp add: core_def fresh_ok_def set_hs_def unused_upd [OF unused_Suc] unused_Suc unused_set_new)
qed

subsection \<open>The callbacks\<close>

lemma parser_hook_runs:
  assumes core: "core w" and h: "hsessions w h = Some X" and phase: "state_phase (hs_state X) = cb_phase cb"
    and st: "hs_state X \<noteq> HTTP_MESSAGE_COMPLETE" and body: "body_ok X"
  shows "runs (parser_hook L h cb w) (\<lambda>((r, b), w'). eng h w w' \<and> (\<exists>Y. hsessions w' h = Some Y \<and> body_ok Y \<and>
     (if r \<noteq> 0 then hs_state Y \<noteq> HTTP_MESSAGE_COMPLETE
      else (hs_state Y \<noteq> HTTP_MESSAGE_COMPLETE \<longrightarrow> state_phase (hs_state Y) = cb_next cb) \<and>
           (hs_state Y = HTTP_MESSAGE_COMPLETE \<longrightarrow> b))))"
proof (cases cb)
  case On_message_begin
  with phase st have start: "hs_state X = HTTP_MESSAGE_BEGIN"
    by (auto simp: state_phase_def cb_phase_def split: http_state.splits)
  show ?thesis
  proof (cases rule: new_addr_cases [of w])
    case null
    let ?w = "set_hs h (X\<lparr>hs_body := None\<rparr>) (w\<lparr>answers := tl (answers w)\<rparr>)"
    have "eng h w ?w"
      using eng_set_hs [of "w\<lparr>answers := tl (answers w)\<rparr>" h X "X\<lparr>hs_body := None\<rparr>"] core h
      by (simp add: same_id_def eng_def same_env_def)
    with null start h On_message_begin show ?thesis
      by (simp add: parser_hook_def message_begin_def evbuffer_new_def set_hs_def body_ok_def)
  next
    case ok
    let ?Y = "X\<lparr>hs_body := Some (fresh w), hs_state := HTTP_MESSAGE_PARSE_BEGIN\<rparr>"
    let ?w = "set_hs h ?Y (w\<lparr>answers := tl (answers w), fresh := Suc (fresh w), bodies := insert (fresh w) (bodies w)\<rparr>)"
    have "core ?w" by (rule core_new_body [OF core h]) (simp_all add: same_id_def)
    then have "eng h w ?w" using h start by (simp add: eng_def same_env_def set_hs_def same_id_def)
    with ok h On_message_begin show ?thesis
      by (simp add: parser_hook_def message_begin_def evbuffer_new_def set_hs_def body_ok_def state_phase_def cb_next_def)
  qed
next
  case On_headers_complete
  let ?Y = "X\<lparr>hs_state := HTTP_HEADERS_COMPLETE\<rparr>"
  from On_headers_complete phase st have "hs_state X = HTTP_MESSAGE_PARSE_BEGIN"
    by (auto simp: state_phase_def cb_phase_def split: http_state.splits)
  moreover from this have "eng h w (set_hs h ?Y w)" by (intro eng_set_hs [OF core h]) (simp_all add: same_id_def)
  ultimately show ?thesis using h On_headers_complete body
    by (simp add: parser_hook_def headers_parse_complete_def body_ok_def state_phase_def cb_next_def set_hs_def)
next
  case On_message_complete
  let ?Y = "X\<lparr>hs_state := HTTP_MESSAGE_COMPLETE\<rparr>"
  from On_message_complete phase st have "hs_state X \<noteq> HTTP_MESSAGE_BEGIN" "state_rank (hs_state X) \<le> 4"
    by (auto simp: state_phase_def cb_phase_def state_rank_def split: http_state.splits)
  moreover from this have "eng h w (set_hs h ?Y w)" by (intro eng_set_hs [OF core h]) (simp_all add: same_id_def)
  ultimately show ?thesis using h On_message_complete body
    by (simp add: parser_hook_def message_parse_complete_def body_ok_def set_hs_def)
next
  case (On_body at)
  with phase st have "hs_state X \<noteq> HTTP_MESSAGE_BEGIN" "state_phase (hs_state X) = 2"
    by (auto simp: state_phase_def cb_phase_def split: http_state.splits)
  moreover from this body obtain e where e: "hs_body X = Some e" by (auto simp: body_ok_def)
  moreover have "e \<in> bodies w" by (rule http_ok_live_body [OF coreD(3) [OF core] h e])
  moreover obtain r x where "evbuffer_add L (Body e) at (ext w) = (r, x)" by fastforce
  moreover have "eng h w (w\<lparr>ext := x\<rparr>)" for x using core h by (simp add: eng_def same_env_def)
  ultimately show ?thesis using h On_body body st
    by (simp add: parser_hook_def message_body_def call_ext_def body_ok_def cb_next_def)
qed

subsection \<open>Runs of the parser\<close>

text \<open>What holds of the HTTP session and the new parser state after a run.\<close>

definition run_good :: "('p \<Rightarrow> nat) \<Rightarrow> http_errno \<Rightarrow> 'p \<Rightarrow> 'p http_session \<Rightarrow> bool" where
  "run_good ph err p Y \<longleftrightarrow> body_ok Y \<and>
     (hs_state Y \<noteq> HTTP_MESSAGE_COMPLETE \<longrightarrow> ph p = state_phase (hs_state Y) \<or> ph p = 4) \<and>
     (hs_state Y = HTTP_MESSAGE_COMPLETE \<longrightarrow> err = HPE_PAUSED)"

lemma run_parser_runs:
  assumes "tree_ok ph t n" "core w" "hsessions w h = Some X" "n = state_phase (hs_state X) \<or> n = 4"
    "hs_state X \<noteq> HTTP_MESSAGE_COMPLETE" "body_ok X"
  shows "runs (run_parser L h t w)
    (\<lambda>((m, err, p), w'). eng h w w' \<and> (\<exists>Y. hsessions w' h = Some Y \<and> run_good ph err p Y))"
  using assms
proof (induction t arbitrary: n w X)
  case (Returns m err p)
  then show ?case by (auto simp: run_good_def eng_refl split: if_splits)
next
  case (Calls cb k)
  have n: "n = cb_phase cb" using Calls.prems(1) by simp
  then have "n \<noteq> 4" by (simp add: cb_phase_def split: parser_cb.splits)
  with Calls.prems(4) n have "state_phase (hs_state X) = cb_phase cb" by simp
  note H = parser_hook_runs [OF Calls.prems(2,3) this Calls.prems(5,6), of L]
  from H obtain r b w1 Y where Y: "parser_hook L h cb w = Some ((r, b), w1)" "eng h w w1" "hsessions w1 h = Some Y"
    "body_ok Y" "r \<noteq> 0 \<Longrightarrow> hs_state Y \<noteq> HTTP_MESSAGE_COMPLETE"
    "r = 0 \<Longrightarrow> hs_state Y \<noteq> HTTP_MESSAGE_COMPLETE \<Longrightarrow> state_phase (hs_state Y) = cb_next cb"
    "r = 0 \<Longrightarrow> hs_state Y = HTTP_MESSAGE_COMPLETE \<Longrightarrow> b"
    by (elim runsE) (auto split: if_splits prod.splits)
  show ?case
  proof (cases "r = 0")
    case False
    with Calls.prems(1) obtain m p where "k (r, b) = Returns m HPE_OTHER p" "ph p = 4" by auto metis
    with Y False show ?thesis by (auto simp: run_good_def)
  next
    case True
    with Calls.prems(1) have t: "tree_ok ph (k (r, b)) (cb_next cb)" "b \<Longrightarrow> \<exists>m p. k (r, b) = Returns m HPE_PAUSED p" by auto
    show ?thesis
    proof (cases b)
      case b: True
      with t obtain m p where p: "k (r, b) = Returns m HPE_PAUSED p" "ph p = cb_next cb" by auto
      with Y True show ?thesis by (auto simp: run_good_def)
    next
      case False
      with Y(7) True have st: "hs_state Y \<noteq> HTTP_MESSAGE_COMPLETE" by blast
      have "runs (run_parser L h (k (r, b)) w1)
          (\<lambda>((m, err, p), w'). eng h w1 w' \<and> (\<exists>Y. hsessions w' h = Some Y \<and> run_good ph err p Y))"
        by (rule Calls.IH [OF _ t(1) engD [OF Y(2)] Y(3) _ st Y(4)]) (use Y(6) True st in auto)
      then have "runs (run_parser L h (k (r, b)) w1)
          (\<lambda>((m, err, p), w'). eng h w w' \<and> (\<exists>Y. hsessions w' h = Some Y \<and> run_good ph err p Y))"
        by (rule runs_mono) (use eng_trans [OF Y(2)] in auto)
      with Y(1) show ?thesis by simp
    qed
  qed
qed

lemma upd_hs_simp: "hsessions w h = Some X \<Longrightarrow> upd_hs h f w = Some (set_hs h (f X) w)"
  by (simp add: upd_hs_def)

lemma set_hs_hs [simp]: "hsessions (set_hs h X w) h = Some X"
  by (simp add: set_hs_def)

text \<open>A change that the invariant and the state machine do not look at.\<close>

lemma eng_tweak:
  assumes "core w" "hsessions w h = Some X" "same_id X Y" "hs_state Y = hs_state X" "hs_body Y = hs_body X"
  shows "eng h w (set_hs h Y w)"
  by (rule eng_set_hs) (use assms in auto)

lemma execute_parser_runs:
  assumes laws: "parser_laws L ph" and core: "core w" and h: "hsessions w h = Some X" and good: "hs_good ph X"
    and st: "hs_state X \<noteq> HTTP_MESSAGE_COMPLETE"
  shows "runs (execute_parser L h data w) (\<lambda>((m, err), w'). eng h w w' \<and>
    (\<exists>Y. hsessions w' h = Some Y \<and> hs_good ph Y \<and> (hs_state Y = HTTP_MESSAGE_COMPLETE \<longrightarrow> err = HPE_PAUSED)))"
proof -
  have "runs (run_parser L h (http_parser_execute L (hs_parser X) data) w)
    (\<lambda>((m, err, p), w'). eng h w w' \<and> (\<exists>Y. hsessions w' h = Some Y \<and> run_good ph err p Y))"
    by (rule run_parser_runs [OF parser_lawsD(3) [OF laws] core h]) (use good st in \<open>auto simp: hs_good_def\<close>)
  then obtain m err p w1 Y where Y: "run_parser L h (http_parser_execute L (hs_parser X) data) w = Some ((m, err, p), w1)"
    "eng h w w1" "hsessions w1 h = Some Y" "run_good ph err p Y" by (auto elim!: runsE)
  let ?Y = "Y\<lparr>hs_parser := p\<rparr>"
  have "eng h w1 (set_hs h ?Y w1)" by (rule eng_tweak [OF engD [OF Y(2)] Y(3)]) (simp_all add: same_id_def)
  then have "eng h w (set_hs h ?Y w1)" by (rule eng_trans [OF Y(2)])
  with Y h show ?thesis by (simp add: execute_parser_def run_good_def hs_good_def body_ok_def)
qed

lemma parse_chunks_runs:
  assumes laws: "parser_laws L ph"
  shows "core w \<Longrightarrow> hsessions w h = Some X \<Longrightarrow> hs_good ph X \<Longrightarrow> hs_state X \<noteq> HTTP_MESSAGE_COMPLETE \<Longrightarrow>
    runs (parse_chunks L h vs w) (\<lambda>(err, w'). eng h w w' \<and> (\<exists>Y. hsessions w' h = Some Y \<and> hs_good ph Y))"
proof (induction vs arbitrary: w X)
  case Nil
  then show ?case by (simp add: eng_refl)
next
  case (Cons v vs)
  from execute_parser_runs [OF laws Cons.prems, of v] obtain m err w1 Y where
    1: "execute_parser L h v w = Some ((m, err), w1)" "eng h w w1" "hsessions w1 h = Some Y" "hs_good ph Y"
      "hs_state Y = HTTP_MESSAGE_COMPLETE \<Longrightarrow> err = HPE_PAUSED" by (auto elim!: runsE)
  let ?Y2 = "Y\<lparr>hs_len := hs_len Y + m\<rparr>"
  let ?w2 = "set_hs h ?Y2 w1"
  have 2: "eng h w ?w2" "hs_good ph ?Y2"
    using eng_trans [OF 1(2) eng_tweak [OF engD [OF 1(2)] 1(3), of ?Y2]] 1(4) by (simp_all add: same_id_def hs_good_def body_ok_def)
  have u2: "upd_hs h (\<lambda>s. s\<lparr>hs_len := hs_len s + m\<rparr>) w1 = Some ?w2" using upd_hs_simp [OF 1(3)] by simp
  let ?Y3 = "?Y2\<lparr>hs_parser := http_parser_unpause L (hs_parser ?Y2)\<rparr>"
  let ?w3 = "set_hs h ?Y3 ?w2"
  have 3: "eng h w ?w3" "hs_good ph ?Y3"
    using eng_trans [OF 2(1) eng_tweak [OF engD [OF 2(1)], of h ?Y2 ?Y3]] 2(2) parser_lawsD(2) [OF laws]
    by (simp_all add: same_id_def hs_good_def body_ok_def)
  have u3: "upd_hs h (\<lambda>s. s\<lparr>hs_parser := http_parser_unpause L (hs_parser s)\<rparr>) ?w2 = Some ?w3"
    using upd_hs_simp [of ?w2 h ?Y2] by simp
  consider (headers) "err = HPE_PAUSED" "hs_state Y = HTTP_HEADERS_COMPLETE" "m < length v"
    | (paused) "err = HPE_PAUSED" "\<not> (hs_state Y = HTTP_HEADERS_COMPLETE \<and> m < length v)"
    | (failed) "err \<noteq> HPE_PAUSED" "err \<noteq> HPE_OK \<or> m < length v"
    | (rest) "err = HPE_OK" "\<not> m < length v" by blast
  then show ?case
  proof cases
    case headers
    have st3: "hs_state ?Y3 \<noteq> HTTP_MESSAGE_COMPLETE" using headers(2) by simp
    from execute_parser_runs [OF laws engD [OF 3(1)] set_hs_hs 3(2) st3, of "[v ! m]"] obtain m1 err1 w4 Y4 where
      4: "execute_parser L h [v ! m] ?w3 = Some ((m1, err1), w4)" "eng h ?w3 w4" "hsessions w4 h = Some Y4" "hs_good ph Y4"
      by (auto elim!: runsE)
    let ?Y5 = "Y4\<lparr>hs_len := hs_len Y4 + m1\<rparr>"
    let ?w5 = "set_hs h ?Y5 w4"
    have e4: "eng h w w4" by (rule eng_trans [OF 3(1) 4(2)])
    have 5: "eng h w ?w5" "hs_good ph ?Y5"
      using eng_trans [OF e4 eng_tweak [OF engD [OF e4] 4(3), of ?Y5]] 4(4) by (simp_all add: same_id_def hs_good_def body_ok_def)
    have u5: "upd_hs h (\<lambda>s. s\<lparr>hs_len := hs_len s + m1\<rparr>) w4 = Some ?w5" using upd_hs_simp [OF 4(3)] by simp
    show ?thesis using 1(1) u2 u3 headers 4 u5 e4 5 by (cases "m1 = 1") simp_all
  next
    case paused
    then show ?thesis using 1(1) u2 u3 3 by auto
  next
    case failed
    then show ?thesis using 1(1) u2 2 by auto
  next
    case rest
    with 1(5) have st2: "hs_state ?Y2 \<noteq> HTTP_MESSAGE_COMPLETE" by auto
    have "runs (parse_chunks L h vs ?w2) (\<lambda>(err, w'). eng h ?w2 w' \<and> (\<exists>Y. hsessions w' h = Some Y \<and> hs_good ph Y))"
      by (rule Cons.IH [OF engD [OF 2(1)] set_hs_hs 2(2) st2])
    then have "runs (parse_chunks L h vs ?w2) (\<lambda>(err, w'). eng h w w' \<and> (\<exists>Y. hsessions w' h = Some Y \<and> hs_good ph Y))"
      by (rule runs_mono) (use eng_trans [OF 2(1)] in auto)
    then show ?thesis using 1(1) u2 rest by simp
  qed
qed

text \<open>The channel of an HTTP session that is in a slot.\<close>

lemma slot_chain:
  assumes "core w" "slot (sessions w) a i h"
  obtains K where "chain (hsessions w) (bodies w) (channels w) (bevs w) a i h K"
  using http_ok_link [OF coreD(3) [OF assms(1)] assms(2)] by blast

lemma chain_channel_bev:
  "chain (hsessions w) (bodies w) (channels w) (bevs w) a i h K \<Longrightarrow> channel_bev (Some (co_ca K)) w = Some (co_ba K)"
  by (auto simp: channel_bev_def chain_def)

lemma hs_channel_bev:
  assumes "core w" "slot (sessions w) a i h" "hsessions w h = Some X"
  shows "\<exists>b. channel_bev (hs_channel X) w = Some b"
proof -
  obtain K where K: "chain (hsessions w) (bodies w) (channels w) (bevs w) a i h K" by (rule slot_chain [OF assms(1,2)])
  then have "hs_channel X = Some (co_ca K)" using assms(3) by (auto simp: chain_def)
  with chain_channel_bev [OF K] show ?thesis by simp
qed

lemma http_request_parse_runs:
  assumes laws: "parser_laws L ph" and core: "core w" and h: "hsessions w h = Some X" and good: "hs_good ph X"
    and st: "hs_state X \<noteq> HTTP_MESSAGE_COMPLETE" and slot: "slot (sessions w) a i h"
  shows "runs (http_request_parse L h (hs_channel X) w)
    (\<lambda>(err, w'). eng h w w' \<and> (\<exists>Y. hsessions w' h = Some Y \<and> hs_good ph Y))"
proof -
  obtain b where b: "channel_bev (hs_channel X) w = Some b" using hs_channel_bev [OF core slot h] by blast
  let ?w1 = "w\<lparr>answers := tl (answers w)\<rparr>"
  have e: "eng h w ?w1" using core h by (simp add: eng_def same_env_def)
  have P: "runs (parse_chunks L h vs w) (\<lambda>(err, w'). eng h w w' \<and> (\<exists>Y. hsessions w' h = Some Y \<and> hs_good ph Y))" for vs
    by (rule parse_chunks_runs [OF laws core h good st])
  have "runs (parse_chunks L h vs ?w1) (\<lambda>(err, w'). eng h ?w1 w' \<and> (\<exists>Y. hsessions w' h = Some Y \<and> hs_good ph Y))" for vs
    by (rule parse_chunks_runs [OF laws _ _ good st]) (use core h in simp_all)
  then have P1: "runs (parse_chunks L h vs ?w1) (\<lambda>(err, w'). eng h w w' \<and> (\<exists>Y. hsessions w' h = Some Y \<and> hs_good ph Y))" for vs
    by (rule runs_mono) (use eng_trans [OF e] in auto)
  have e0: "eng h w w" by (rule eng_refl [OF core h])
  show ?thesis
    using b h P P1 e e0 good
    by (auto simp: http_request_parse_def tcp_socket_get_input_def Let_def ask_if)
qed

end
