(* ===== verification/Session_Safety.thy ===== *)
theory Session_Safety
  imports Engine_Safety
begin

section \<open>The callbacks of a session keep the invariant\<close>

text \<open>
  \<open>logic\<close> is what holds of a session between two events: which slots are filled, when it has
  its reference, what is still pending and what it has received. For every callback of
  \<^verbatim>\<open>session.c\<close> it is shown that it runs without undefined behaviour, keeps \<open>core\<close> and the other
  sessions, and leaves its session, if it still exists, with \<open>logic\<close>. \<open>env_ok\<close> states what the
  libraries are assumed to do; the header of \<open>Spec2Isabelle\<close> says why each is needed.
\<close>

subsection \<open>What holds of a session between events\<close>

text \<open>The counters of a session are bounded by the number of events so far.\<close>

definition counters_ok :: "int \<Rightarrow> session \<Rightarrow> bool" where
  "counters_ok n s \<longleftrightarrow> \<bar>ss_pending_resolutions s\<bar> \<le> n \<and> \<bar>ss_pending_connections s\<bar> \<le> n \<and> \<bar>ss_pending_replies s\<bar> \<le> n"

definition replied :: "session \<Rightarrow> nat \<Rightarrow> bool" where
  "replied s i \<longleftrightarrow> (if i = NAME then ss_name_replied s else ss_joke_replied s)"

text \<open>The part about the two upstream servers; \<open>i\<close> is one of them.\<close>

definition upstream_ok :: "(addr \<rightharpoonup> dns_request) \<Rightarrow> session \<Rightarrow> nat \<Rightarrow> bool" where
  "upstream_ok D s i \<longleftrightarrow>
     (ss_me s = None \<longrightarrow> ss_http s ! i = None \<and> \<not> replied s i) \<and>
     (replied s i \<longrightarrow> ss_http s ! i = None) \<and>
     (\<forall>r. ss_me s = Some r \<longrightarrow> pending D r i \<longrightarrow> ss_http s ! i = None \<and> \<not> replied s i)"

definition strings_ok :: "session \<Rightarrow> bool" where
  "strings_ok s \<longleftrightarrow>
     (ss_name_replied s \<longrightarrow> \<not> ss_joke_replied s \<longrightarrow> ss_name s \<noteq> None \<and> ss_surname s \<noteq> None) \<and>
     (ss_joke_replied s \<longrightarrow> \<not> ss_name_replied s \<longrightarrow> ss_joke s \<noteq> None)"

definition slots_good :: "('p \<Rightarrow> nat) \<Rightarrow> (addr \<rightharpoonup> 'p http_session) \<Rightarrow> session \<Rightarrow> bool" where
  "slots_good ph H s \<longleftrightarrow> ss_http s ! CLIENT \<noteq> None \<and>
     (\<forall>i h X. i < 3 \<longrightarrow> ss_http s ! i = Some h \<longrightarrow> H h = Some X \<longrightarrow> hs_good ph X \<and>
        (if i = CLIENT then hs_state X \<noteq> HTTP_MESSAGE_COMPLETE \<longrightarrow> ss_me s = None
         else hs_state X \<noteq> HTTP_MESSAGE_COMPLETE))"

definition logic :: "('p \<Rightarrow> nat) \<Rightarrow> int \<Rightarrow> (addr \<rightharpoonup> 'p http_session) \<Rightarrow> (addr \<rightharpoonup> dns_request) \<Rightarrow> session \<Rightarrow> bool" where
  "logic ph n H D s \<longleftrightarrow> slots_good ph H s \<and> upstream_ok D s NAME \<and> upstream_ok D s JOKE \<and>
     strings_ok s \<and> counters_ok n s"

lemma logicD:
  assumes "logic ph n H D s"
  shows "slots_good ph H s" "upstream_ok D s NAME" "upstream_ok D s JOKE" "strings_ok s" "counters_ok n s"
  using assms by (simp_all add: logic_def)

lemma counters_mono: "counters_ok n s \<Longrightarrow> n \<le> m \<Longrightarrow> counters_ok m s"
  by (auto simp: counters_ok_def)

lemma logic_mono: "logic ph n H D s \<Longrightarrow> n \<le> m \<Longrightarrow> logic ph m H D s"
  using counters_mono by (auto simp: logic_def)

lemma slots_goodD:
  assumes "slots_good ph H s" "i < 3" "ss_http s ! i = Some h" "H h = Some X"
  shows "hs_good ph X" "i = CLIENT \<Longrightarrow> hs_state X \<noteq> HTTP_MESSAGE_COMPLETE \<Longrightarrow> ss_me s = None"
    "i \<noteq> CLIENT \<Longrightarrow> hs_state X \<noteq> HTTP_MESSAGE_COMPLETE"
  using assms by (auto simp: slots_good_def split: if_splits)

text \<open>What is to be shown of a callback of the session \<open>a\<close>.\<close>

definition mine :: "('p \<Rightarrow> nat) \<Rightarrow> int \<Rightarrow> addr \<Rightarrow> ('e, 'p) world \<Rightarrow> bool" where
  "mine ph n a w \<longleftrightarrow> (\<forall>s. sessions w a = Some s \<longrightarrow> logic ph n (hsessions w) (dns_requests w) s)"

definition keeps_going :: "('p \<Rightarrow> nat) \<Rightarrow> int \<Rightarrow> addr \<Rightarrow> ('e, 'p) world \<Rightarrow> ('e, 'p) world \<Rightarrow> bool" where
  "keeps_going ph n a w w' \<longleftrightarrow> step_ok a w w' \<and> mine ph n a w'"

lemma keeps_going_trans: "step_ok a w w' \<Longrightarrow> keeps_going ph n a w' w'' \<Longrightarrow> keeps_going ph n a w w''"
  unfolding keeps_going_def using step_ok_trans by blast

lemma runs_keeps_going:
  "step_ok a w w' \<Longrightarrow> runs m (keeps_going ph n a w') \<Longrightarrow> runs m (keeps_going ph n a w)"
  by (erule runs_mono) (rule keeps_going_trans)

text \<open>The exit of every error path.\<close>

lemma remove_keeps_going:
  assumes "core w" "svc_ok w" "sessions w a = Some s"
  shows "runs (http_service_session_remove a w) (keeps_going ph n a w)"
  by (rule runs_mono [OF http_service_session_remove_runs [OF assms]]) (simp add: keeps_going_def mine_def)

lemma upd_state: "sessions w a = Some s \<Longrightarrow>
    session_state_set a st w = Some (w\<lparr>sessions := (sessions w)(a \<mapsto> s\<lparr>ss_state := st\<rparr>)\<rparr>)"
  by (simp add: session_state_set_def upd_session_def)

text \<open>A change of a session that is not about what it owns.\<close>

lemma step_session:
  assumes "core w" "svc_ok w" and s: "sessions w a = Some s" and same: "ss_http s' = ss_http s" "ss_me s' = ss_me s"
    "ss_name s' = ss_name s" "ss_surname s' = ss_surname s" "ss_joke s' = ss_joke s"
  shows "step_ok a w (w\<lparr>sessions := (sessions w)(a \<mapsto> s')\<rparr>)"
proof -
  have "core (w\<lparr>sessions := (sessions w)(a \<mapsto> s')\<rparr>)" by (rule core_session; fact)
  moreover have "svc_ok (w\<lparr>sessions := (sessions w)(a \<mapsto> s')\<rparr>)"
    by (rule svc_ok_mono [OF assms(2)]) (use s in \<open>auto simp: same_env_def\<close>)
  ultimately show ?thesis using others_session [of a w] by (simp add: step_ok_def)
qed

text \<open>Setting an error state and removing the session.\<close>

lemma state_remove:
  assumes "core w" "svc_ok w" "sessions w a = Some s"
  shows "runs (session_state_set a st w \<bind> http_service_session_remove a) (keeps_going ph n a w)"
proof -
  let ?s = "s\<lparr>ss_state := st\<rparr>"
  let ?w = "w\<lparr>sessions := (sessions w)(a \<mapsto> ?s)\<rparr>"
  have st: "step_ok a w ?w" by (rule step_session [OF assms]) simp_all
  have "runs (http_service_session_remove a ?w) (keeps_going ph n a ?w)"
    by (rule remove_keeps_going [of _ _ ?s]) (use st in \<open>simp_all add: step_ok_def\<close>)
  from runs_keeps_going [OF st this] show ?thesis using upd_state [OF assms(3)] by simp
qed

subsection \<open>The assumptions about the libraries\<close>

definition env_ok :: "('e, 'p) lib \<Rightarrow> bool" where
  "env_ok L \<longleftrightarrow>
     (\<forall>d e. fst (evdns_getaddrinfo L d e) = Gai_pending) \<and>
     (\<forall>b sa e. 0 \<le> fst (bufferevent_socket_connect L b sa e)) \<and>
     (\<forall>p fs ts t. json_unpack L p fs = Some ts \<longrightarrow> t \<in> set ts \<longrightarrow> length t \<le> 1000)"

subsection \<open>Closing\<close>

lemma client_ready_to_close_runs:
  assumes core: "core w" and svc: "svc_ok w" and s: "sessions w a = Some s" and h: "slot (sessions w) a i h"
    and logic: "logic ph n (hsessions w) (dns_requests w) s"
  shows "runs (client_ready_to_close h w) (keeps_going ph n a w)"
proof -
  obtain K where "chain (hsessions w) (bodies w) (channels w) (bevs w) a i h K" by (rule slot_chain [OF core h])
  then obtain X where X: "hsessions w h = Some X" "hs_master X = a" by (auto simp: chain_def)
  have "keeps_going ph n a w w" using core svc s logic by (simp add: keeps_going_def step_ok_refl mine_def)
  then show ?thesis using X s remove_keeps_going [OF core svc s]
    by (simp add: client_ready_to_close_def http_session_master_def)
qed

subsection \<open>DNS requests\<close>

text \<open>The references of two sessions are different.\<close>

lemma me_other:
  assumes "core w" "sessions w a = Some s" "ss_me s = Some r" "sessions w b = Some s'" "ss_me s' = Some r"
  shows "a = b"
  using refs_ok_me [OF coreD(5) [OF assms(1)] assms(2,3)] refs_ok_me [OF coreD(5) [OF assms(1)] assms(4,5)]
  by (metis option.inject)

text \<open>What \<open>dns_request_new\<close> does when it returns \<open>p\<close>.\<close>

definition asked :: "addr \<Rightarrow> session \<Rightarrow> addr \<Rightarrow> nat \<Rightarrow> ('e, 'p) world \<Rightarrow> ptr \<Rightarrow> ('e, 'p) world \<Rightarrow> bool" where
  "asked a s r i w p w' \<longleftrightarrow> step_ok a w w' \<and> hsessions w' = hsessions w \<and>
     (p = None \<longrightarrow> sessions w' = sessions w \<and> dns_requests w' = dns_requests w) \<and>
     (p \<noteq> None \<longrightarrow> sessions w' = (sessions w)(a \<mapsto> s\<lparr>ss_pending_resolutions := ss_pending_resolutions s + 1\<rparr>) \<and>
        (\<forall>r' i'. pending (dns_requests w') r' i' \<longleftrightarrow> pending (dns_requests w) r' i' \<or> r' = r \<and> i' = i))"

lemma askedD:
  assumes "asked a s r i w p w'"
  shows "step_ok a w w'" "hsessions w' = hsessions w" "p = None \<Longrightarrow> sessions w' = sessions w"
    "p \<noteq> None \<Longrightarrow> sessions w' = (sessions w)(a \<mapsto> s\<lparr>ss_pending_resolutions := ss_pending_resolutions s + 1\<rparr>)"
    "p \<noteq> None \<Longrightarrow> pending (dns_requests w') r' i' \<longleftrightarrow> pending (dns_requests w) r' i' \<or> r' = r \<and> i' = i"
  using assms by (simp_all add: asked_def)

lemma dns_request_new_runs:
  assumes env: "env_ok L" and core: "core w" and svc: "svc_ok w" and s: "sessions w a = Some s" and me: "ss_me s = Some r"
    and i: "i \<in> {NAME, JOKE}" and p: "\<not> pending (dns_requests w) r i" and dns: "this_dns w \<noteq> None"
    and n: "counters_ok n s" "n < 2 ^ 31 - 1"
  shows "runs (dns_request_new L a domain i w) (\<lambda>(p, w'). asked a s r i w p w')"
proof (cases rule: new_addr_cases [of w])
  case null
  have "step_ok a w (w\<lparr>answers := tl (answers w)\<rparr>)"
    using core svc by (simp add: step_ok_def others_def svc_ok_def)
  with null show ?thesis by (simp add: dns_request_new_def asked_def)
next
  case ok
  note C = coreD [OF core]
  let ?d = "fresh w"
  let ?q = "Suc ?d"
  obtain X where X: "refs w r = Some X" "weak_refcnt X = weak_holders (dns_requests w) r"
    using refs_ok_me [OF C(5) s me] by metis
  have wk: "int_ok (weak_refcnt X + 1)" by (simp add: X(2) weak_holders_def int_ok_def)
  have cnt: "int_ok (ss_pending_resolutions s + 1)" using n by (auto simp: counters_ok_def int_ok_def)
  obtain e where e: "evdns_getaddrinfo L domain (ext w) = (Gai_pending, e)"
    using env by (cases "evdns_getaddrinfo L domain (ext w)") (metis env_ok_def fst_conv)
  obtain base where base: "this_dns w = Some base" using dns by blast
  let ?D = "(dns_requests w)(?d \<mapsto> \<lparr>dr_idx = i, dr_evdns_req = Some ?q, dr_session = Some r\<rparr>)"
  let ?R = "(refs w)(r \<mapsto> X\<lparr>weak_refcnt := weak_refcnt X + 1\<rparr>)"
  let ?Q = "(resolving w)(?q \<mapsto> ?d)"
  let ?s = "s\<lparr>ss_pending_resolutions := ss_pending_resolutions s + 1\<rparr>"
  let ?w = "w\<lparr>answers := tl (answers w), fresh := Suc ?q, dns_requests := ?D, refs := ?R, ext := e,
      resolving := ?Q, sessions := (sessions w)(a \<mapsto> ?s)\<rparr>"
  have run: "dns_request_new L a domain i w = Some (Some ?d, ?w)"
    using ok s me X(1) wk cnt e base
    by (simp add: dns_request_new_def reference_weak_inc_def dnsname_resolve_def upd_session_def Let_def)
  have nd: "dns_requests w ?d = None" using C(1) by (simp add: fresh_ok_def unused_def)
  have R1: "refs_ok (sessions w) ?R ?D" by (rule refs_ok_ask [OF C(5) X(1) nd _ _ i p]) simp_all
  have "refs_ok ((sessions w)(a \<mapsto> ?s)) ?R ?D" by (rule refs_ok_same [OF R1 s]) simp
  moreover have "dns_ok ?D ?R ?Q" by (rule dns_ok_ask [OF C(6) _ nd _ _ i p]) (simp_all add: X(1))
  moreover have "http_ok ((sessions w)(a \<mapsto> ?s)) (hsessions w) (bodies w) (channels w) (bevs w)"
    by (rule http_ok_same [OF C(3) s]) simp
  moreover have "strs_ok ((sessions w)(a \<mapsto> ?s)) (strs w)" by (rule strs_ok_same [OF C(4) s]) simp_all
  ultimately have "core ?w" using C(1,2,7) s X(1) by (simp add: core_def fresh_ok_def len_ok_def unused_intros)
  moreover have "svc_ok ?w" by (rule svc_ok_mono [OF svc]) (use s in \<open>auto simp: same_env_def\<close>)
  moreover have pend: "pending ?D r' i' \<longleftrightarrow> pending (dns_requests w) r' i' \<or> r' = r \<and> i' = i" for r' i'
    by (rule pending_new [of "dns_requests w" ?d, OF nd]) simp_all
  then have "others a w ?w" using me_other [OF core s me] by (auto simp: others_def)
  ultimately show ?thesis using run pend by (simp add: step_ok_def asked_def)
qed

subsection \<open>The client's request is complete\<close>

lemma client_msg_complete_runs:
  assumes env: "env_ok L" and core: "core w" and svc: "svc_ok w" and s: "sessions w a = Some s"
    and h: "ss_http s ! CLIENT = Some h" "hsessions w h = Some X" "hs_state X = HTTP_MESSAGE_COMPLETE"
    and logic: "logic ph n (hsessions w) (dns_requests w) s" and me: "ss_me s = None"
    and n: "n < 2 ^ 31 - 3" and dns: "this_dns w \<noteq> None"
  shows "runs (client_msg_complete L h w) (keeps_going ph (n + 2) a w)"
proof -
  note C = coreD [OF core]
  have sl: "slot (sessions w) a CLIENT h" using s h(1) by (simp add: slot_def CLIENT_def)
  obtain K where "chain (hsessions w) (bodies w) (channels w) (bevs w) a CLIENT h K" by (rule slot_chain [OF core sl])
  then have m: "http_session_master h w = Some a" by (auto simp: chain_def http_session_master_def)
  show ?thesis
  proof (cases rule: new_addr_cases [of w])
    case null
    let ?w = "w\<lparr>answers := tl (answers w)\<rparr>"
    have "s\<lparr>ss_me := None\<rparr> = s" using me by simp
    then have u: "upd_session a (\<lambda>s. s\<lparr>ss_me := None\<rparr>) ?w = Some ?w" using s by (simp add: upd_session_def fun_upd_idem)
    have "step_ok a w ?w" using core svc by (simp add: step_ok_def others_def svc_ok_def)
    from runs_keeps_going [OF this remove_keeps_going [of ?w]] show ?thesis
      using null m u core svc s by (simp add: client_msg_complete_def reference_new_def svc_ok_def)
  next
    case ok
    let ?r = "fresh w"
    let ?s = "s\<lparr>ss_me := Some ?r\<rparr>"
    let ?R = "(refs w)(?r \<mapsto> \<lparr>ref_ptr = Some a, refcnt = 1, weak_refcnt = 0, free_fn = False\<rparr>)"
    let ?w2 = "w\<lparr>answers := tl (answers w), fresh := Suc ?r, refs := ?R, sessions := (sessions w)(a \<mapsto> ?s)\<rparr>"
    have r: "refs w ?r = None" using C(1) by (simp add: fresh_ok_def unused_def)
    have "refs_ok ((sessions w)(a \<mapsto> ?s)) ?R (dns_requests w)" by (rule refs_ok_take [OF C(5,6) r s me]) simp
    moreover have "http_ok ((sessions w)(a \<mapsto> ?s)) (hsessions w) (bodies w) (channels w) (bevs w)"
      by (rule http_ok_same [OF C(3) s]) simp
    moreover have "strs_ok ((sessions w)(a \<mapsto> ?s)) (strs w)" by (rule strs_ok_same [OF C(4) s]) simp_all
    ultimately have core2: "core ?w2"
      using C(1,2,7) s dns_ok_more [OF C(6)] by (simp add: core_def fresh_ok_def len_ok_def unused_intros)
    have svc2: "svc_ok ?w2" by (rule svc_ok_mono [OF svc]) (use s in \<open>auto simp: same_env_def\<close>)
    have st2: "step_ok a w ?w2" using core2 svc2 by (simp add: step_ok_def others_def)
    have p: "\<not> pending (dns_requests w) ?r i" for i using dns_okD(2) [OF C(6)] r unfolding pending_def by fastforce
    have cnt: "counters_ok n ?s" using logicD(5) [OF logic] by (simp add: counters_ok_def)
    have "runs (dns_request_new L a ''uinames.com'' NAME ?w2) (\<lambda>(p, w'). asked a ?s ?r NAME ?w2 p w')"
      by (rule dns_request_new_runs [OF env core2 svc2 _ _ _ _ _ cnt]) (use p dns n in simp_all)
    then obtain q3 w3 where 3: "dns_request_new L a ''uinames.com'' NAME ?w2 = Some (q3, w3)" "asked a ?s ?r NAME ?w2 q3 w3"
      by (auto simp: runs_def)
    note A3 = askedD [OF 3(2)]
    have st3: "step_ok a w w3" by (rule step_ok_trans [OF st2 A3(1)])
    have me2: "upd_session a (\<lambda>s. s\<lparr>ss_me := Some ?r\<rparr>) (w\<lparr>answers := tl (answers w), fresh := Suc ?r, refs := ?R\<rparr>) = Some ?w2"
      using s by (simp add: upd_session_def)
    have run2: "client_msg_complete L h w = (if q3 = None then http_service_session_remove a w3 else do {
        (request, w4) \<leftarrow> dns_request_new L a ''api.icndb.com'' JOKE w3;
        if request = None then http_service_session_remove a w4 else session_state_set a RESOLVING_WEBSERVER_DOMAINS w4 })"
      using ok m me2 3(1) by (simp add: client_msg_complete_def reference_new_def)
    show ?thesis
    proof (cases "q3 = None")
      case True
      have "runs (http_service_session_remove a w3) (keeps_going ph (n + 2) a w3)"
        by (rule remove_keeps_going) (use st3 A3(3) True in \<open>simp_all add: step_ok_def\<close>)
      with True run2 st3 show ?thesis by (simp add: runs_keeps_going)
    next
      case q3: False
      let ?s3 = "?s\<lparr>ss_pending_resolutions := ss_pending_resolutions s + 1\<rparr>"
      have cnt3: "counters_ok (n + 1) ?s3" using cnt by (auto simp: counters_ok_def)
      have s3: "sessions w3 a = Some ?s3" "this_dns w3 \<noteq> None" "\<not> pending (dns_requests w3) ?r JOKE"
        using A3(4,5) [OF q3] p dns st3 by (simp_all add: step_ok_def slots)
      have "runs (dns_request_new L a ''api.icndb.com'' JOKE w3) (\<lambda>(p, w'). asked a ?s3 ?r JOKE w3 p w')"
        by (rule dns_request_new_runs [OF env _ _ s3(1) _ _ s3(3,2) cnt3]) (use n st3 in \<open>simp_all add: step_ok_def\<close>)
      then obtain q4 w4 where 4: "dns_request_new L a ''api.icndb.com'' JOKE w3 = Some (q4, w4)" "asked a ?s3 ?r JOKE w3 q4 w4"
        by (auto simp: runs_def)
      note A4 = askedD [OF 4(2)]
      have st4: "step_ok a w w4" by (rule step_ok_trans [OF st3 A4(1)])
      show ?thesis
      proof (cases "q4 = None")
        case True
        have "runs (http_service_session_remove a w4) (keeps_going ph (n + 2) a w4)"
          by (rule remove_keeps_going) (use st4 A4(3) s3(1) True in \<open>simp_all add: step_ok_def\<close>)
        with True q3 4(1) run2 st4 show ?thesis by (auto simp: runs_keeps_going)
      next
        case False
        let ?s4 = "?s\<lparr>ss_pending_resolutions := ss_pending_resolutions s + 2\<rparr>"
        let ?s5 = "?s4\<lparr>ss_state := RESOLVING_WEBSERVER_DOMAINS\<rparr>"
        let ?w5 = "w4\<lparr>sessions := (sessions w4)(a \<mapsto> ?s5)\<rparr>"
        have s4: "sessions w4 a = Some ?s4" using A4(4) [OF False] by (simp add: add.commute)
        have st5: "step_ok a w4 ?w5" by (rule step_session [of _ _ ?s4]) (use st4 s4 in \<open>simp_all add: step_ok_def\<close>)
        have "slots_good ph (hsessions w) ?s5"
          unfolding slots_good_def
        proof (intro conjI allI impI)
          fix i k Y assume i: "i < 3" "ss_http ?s5 ! i = Some k" "hsessions w k = Some Y"
          note G = slots_goodD [OF logicD(1) [OF logic] i(1), of k Y]
          show "hs_good ph Y" using G(1) i by simp
          show "if i = CLIENT then hs_state Y \<noteq> HTTP_MESSAGE_COMPLETE \<longrightarrow> ss_me ?s5 = None
                else hs_state Y \<noteq> HTTP_MESSAGE_COMPLETE"
            using G(3) i h by auto
        qed (use h in simp)
        moreover have "upstream_ok D ?s5 i" if "i \<in> {NAME, JOKE}" for D i
          using logicD(2,3) [OF logic] me that by (auto simp: upstream_ok_def replied_def)
        moreover have "counters_ok (n + 2) ?s5" using cnt by (auto simp: counters_ok_def)
        moreover have "strings_ok ?s5" using logicD(4) [OF logic] by (simp add: strings_ok_def)
        ultimately have "mine ph (n + 2) a ?w5" using A4(2) A3(2) by (simp add: mine_def logic_def)
        moreover have "step_ok a w ?w5" by (rule step_ok_trans [OF st4 st5])
        moreover have "session_state_set a RESOLVING_WEBSERVER_DOMAINS w4 = Some ?w5" using upd_state [OF s4] by simp
        ultimately show ?thesis using False q3 4(1) run2 by (auto simp: keeps_going_def)
      qed
    qed
  qed
qed

subsection \<open>Writing messages\<close>

lemma add_headers_ext: "\<exists>r e. add_headers L b hs w = (r, w\<lparr>ext := e\<rparr>)"
proof (induction hs arbitrary: w)
  case Nil
  show ?case by (rule exI [of _ 0], rule exI [of _ "ext w"]) simp
next
  case (Cons x hs)
  obtain r e where "evbuffer_add L b x (ext w) = (r, e)" by fastforce
  moreover obtain r' e' where "add_headers L b hs (w\<lparr>ext := e\<rparr>) = (r', w\<lparr>ext := e\<rparr>\<lparr>ext := e'\<rparr>)" using Cons.IH by blast
  ultimately show ?case by (auto simp: call_ext_def Let_def)
qed

lemma http_request_write_ext:
  fixes w :: "('e, 'p) world"
  assumes "hsessions w h = Some X" "channel_bev (hs_channel X) w = Some b"
  shows "\<exists>r e. http_request_write L h req w = Some (r, w\<lparr>ext := e\<rparr>)"
proof -
  obtain r1 e1 where 1: "evbuffer_add L (Output b) (request_line req) (ext w) = (r1, e1)" by fastforce
  obtain r2 e2 where 2: "add_headers L (Output b) (headers req) (w\<lparr>ext := e1\<rparr>) = (r2, w\<lparr>ext := e2\<rparr>)"
    using add_headers_ext [of L "Output b" "headers req" "w\<lparr>ext := e1\<rparr>"] by auto
  obtain r3 e3 where 3: "evbuffer_add L (Output b) crlf e2 = (r3, e3)" by fastforce
  show ?thesis
    using assms 1 2 3 by (auto simp: http_request_write_def tcp_socket_get_output_def call_ext_def Let_def)
qed

lemma http_response_write_ext:
  fixes w :: "('e, 'p) world"
  assumes X: "hsessions w h = Some X" "channel_bev (hs_channel X) w = Some b" and body: "strs w p = Some t"
  shows "\<exists>r e. http_response_write L h p w = Some (r, w\<lparr>ext := e\<rparr>) \<or>
    http_response_write L h p w = Some (r, w\<lparr>ext := e, strs := (strs w)(p := None)\<rparr>)"
proof (cases "http_get_datetime L w")
  case None
  with X body have "http_response_write L h p w = Some (-1, w\<lparr>ext := ext w\<rparr>)"
    by (simp add: http_response_write_def tcp_socket_get_output_def)
  then show ?thesis by blast
next
  case (Some date)
  let ?b = "Output b"
  obtain r1 e1 where 1: "evbuffer_add L ?b (''HTTP/1.0 200 OK'' @ crlf) (ext w) = (r1, e1)" by fastforce
  obtain r2 e2 where 2: "evbuffer_add L ?b (''Content-Type: text/plain'' @ crlf) e1 = (r2, e2)" by fastforce
  obtain r3 e3 where 3: "evbuffer_add_printf L ?b (''Content-Length: '' @ decimal (length t) @ crlf) e2 = (r3, e3)" by fastforce
  obtain r4 e4 where 4: "evbuffer_add L ?b (''Server: Tigera/WebServer/1.0.0'' @ crlf) e3 = (r4, e4)" by fastforce
  obtain r5 e5 where 5: "evbuffer_add L ?b date e4 = (r5, e5)" by fastforce
  obtain r6 e6 where 6: "evbuffer_add L ?b crlf e5 = (r6, e6)" by fastforce
  obtain r7 e7 where 7: "evbuffer_add_reference L ?b t e6 = (r7, e7)" by fastforce
  have d: "http_response_write L h p w =
    (if r1 < 0 then Some (-1, w\<lparr>ext := e1\<rparr>) else if r2 < 0 then Some (-1, w\<lparr>ext := e2\<rparr>)
     else if r3 < 0 then Some (-1, w\<lparr>ext := e3\<rparr>) else if r4 < 0 then Some (-1, w\<lparr>ext := e4\<rparr>)
     else if r5 < 0 then Some (-1, w\<lparr>ext := e5\<rparr>) else if r6 < 0 then Some (-1, w\<lparr>ext := e6\<rparr>)
     else Some (if r7 < 0 then -1 else 0, w\<lparr>ext := e7, strs := (strs w)(p := None)\<rparr>))"
    using X body Some 1 2 3 4 5 6 7
    by (simp add: http_response_write_def tcp_socket_get_output_def call_ext_def Let_def free_str_def)
  show ?thesis unfolding d by (simp split: if_split) blast
qed

subsection \<open>Requests to the upstream servers\<close>

lemma step_ext: "core w \<Longrightarrow> svc_ok w \<Longrightarrow> step_ok a w (w\<lparr>ext := e\<rparr>)"
  by (simp add: step_ok_def others_def svc_ok_def)

lemma mine_same:
  assumes "logic ph n (hsessions w) (dns_requests w) s" "sessions w' a = Some s'" "hsessions w' = hsessions w"
    "dns_requests w' = dns_requests w" "ss_http s' = ss_http s" "ss_me s' = ss_me s" "ss_name s' = ss_name s"
    "ss_surname s' = ss_surname s" "ss_joke s' = ss_joke s" "ss_name_replied s' = ss_name_replied s"
    "ss_joke_replied s' = ss_joke_replied s" "counters_ok m s'"
  shows "mine ph m a w'"
proof -
  have "slots_good ph (hsessions w) s' = slots_good ph (hsessions w) s"
    unfolding slots_good_def assms(5,6) by (rule refl)
  moreover have "upstream_ok D s' i = upstream_ok D s i" for D i using assms(5,6,10,11) by (simp add: upstream_ok_def replied_def)
  moreover have "strings_ok s' = strings_ok s" using assms(7-11) by (simp add: strings_ok_def)
  ultimately show ?thesis using assms(1-4,12) by (simp add: mine_def logic_def)
qed

lemma send_request_runs:
  assumes core: "core w" and svc: "svc_ok w" and s: "sessions w a = Some s" and h: "slot (sessions w) a i h"
    and logic: "logic ph n (hsessions w) (dns_requests w) s" and n: "n < 2 ^ 31 - 1"
  shows "runs (send_request L req h w) (keeps_going ph (n + 1) a w)"
proof -
  note cnt = logicD(5) [OF logic, unfolded counters_ok_def]
  obtain K where K: "chain (hsessions w) (bodies w) (channels w) (bevs w) a i h K" by (rule slot_chain [OF core h])
  then obtain X where X: "hsessions w h = Some X" "hs_master X = a" by (auto simp: chain_def)
  let ?s1 = "s\<lparr>ss_pending_connections := ss_pending_connections s - 1\<rparr>"
  let ?w1 = "w\<lparr>sessions := (sessions w)(a \<mapsto> ?s1)\<rparr>"
  have st1: "step_ok a w ?w1" by (rule step_session [OF core svc s]) simp_all
  have "slot (sessions ?w1) a i h" using h s by (simp add: slot_def)
  then obtain b where b: "channel_bev (hs_channel X) ?w1 = Some b"
    using hs_channel_bev [of ?w1 a i h X] st1 X by (auto simp: step_ok_def)
  obtain r e where r: "http_request_write L h req ?w1 = Some (r, ?w1\<lparr>ext := e\<rparr>)"
    using http_request_write_ext [of ?w1 h X b L req] X b by auto
  let ?w2 = "?w1\<lparr>ext := e\<rparr>"
  have st2: "step_ok a w ?w2" using step_ok_trans [OF st1 step_ext] st1 by (simp add: step_ok_def)
  have c1: "int_ok (ss_pending_connections s - 1)" "int_ok (ss_pending_replies s + 1)"
    using cnt n by (auto simp: int_ok_def)
  have run: "send_request L req h w = (if r < 0
      then session_state_set a ERROR_REQUESTING_FROM_WS ?w2 \<bind> http_service_session_remove a
      else upd_session a (\<lambda>s. s\<lparr>ss_pending_replies := ss_pending_replies ?s1 + 1\<rparr>) ?w2)"
    using X s c1 r by (simp add: send_request_def http_session_master_def upd_session_def)
  show ?thesis
  proof (cases "r < 0")
    case True
    have "runs (session_state_set a ERROR_REQUESTING_FROM_WS ?w2 \<bind> http_service_session_remove a) (keeps_going ph (n + 1) a ?w2)"
      by (rule state_remove [of _ _ ?s1]) (use st2 in \<open>simp_all add: step_ok_def\<close>)
    with True run st2 show ?thesis by (simp add: runs_keeps_going)
  next
    case False
    let ?s3 = "?s1\<lparr>ss_pending_replies := ss_pending_replies s + 1\<rparr>"
    let ?w3 = "?w2\<lparr>sessions := (sessions ?w2)(a \<mapsto> ?s3)\<rparr>"
    have "step_ok a ?w2 ?w3" by (rule step_session [of _ _ ?s1]) (use st2 in \<open>simp_all add: step_ok_def\<close>)
    then have "step_ok a w ?w3" by (rule step_ok_trans [OF st2])
    moreover have "mine ph (n + 1) a ?w3"
      by (rule mine_same [OF logic, where s' = ?s3]) (use cnt in \<open>auto simp: counters_ok_def\<close>)
    moreover have "upd_session a (\<lambda>s. s\<lparr>ss_pending_replies := ss_pending_replies ?s1 + 1\<rparr>) ?w2 = Some ?w3"
      by (simp add: upd_session_def)
    ultimately show ?thesis using run False by (simp add: keeps_going_def)
  qed
qed

subsection \<open>The response to the client\<close>

lemma replace_all_length: "length (replace_all t r s) \<le> length s * (length r + 1)"
proof (induction t r s rule: replace_all.induct)
  case (2 t r c cs)
  show ?case
  proof (cases "t \<noteq> [] \<and> prefix t (c # cs)")
    case True
    then have "0 < length t" "length t \<le> Suc (length cs)" by (auto dest: prefix_length_le)
    then have "length (c # cs) - length t \<le> length cs" by (cases t) auto
    then have "(length (c # cs) - length t) * (length r + 1) \<le> length cs * (length r + 1)" by (rule mult_right_mono) simp
    with 2 True show ?thesis by simp
  next
    case False
    with 2 show ?thesis by (auto simp: algebra_simps)
  qed
qed simp

lemma personalised_length:
  assumes "length name \<le> 1000" "length surname \<le> 1000" "length joke \<le> 1000"
  shows "length (replace_all ''Eduardo'' name joke) < 2 ^ 31 - 1" "length (personalised name surname joke) < 2 ^ 31 - 1"
proof -
  let ?t = "replace_all ''Eduardo'' name joke"
  have "length ?t \<le> length joke * (length name + 1)" by (rule replace_all_length)
  also have "\<dots> \<le> 1000 * 1001" using assms by (intro mult_mono) auto
  finally have t: "length ?t \<le> 1001000" by simp
  then show "length ?t < 2 ^ 31 - 1" by simp
  have "length (personalised name surname joke) \<le> length ?t * (length surname + 1)"
    unfolding personalised_def by (rule replace_all_length)
  also have "\<dots> \<le> 1001000 * 1001" using assms t by (intro mult_mono) auto
  finally show "length (personalised name surname joke) < 2 ^ 31 - 1" by simp
qed

lemma core_strings:
  assumes core: "core w" and s: "sessions w a = Some s" and same: "ss_http s' = ss_http s" "ss_me s' = ss_me s"
    and ok: "strs_ok ((sessions w)(a \<mapsto> s')) T" "unused F T" "fresh w \<le> F"
  shows "core (w\<lparr>answers := bs, fresh := F, sessions := (sessions w)(a \<mapsto> s'), strs := T\<rparr>)"
proof -
  note C = coreD [OF core]
  have "fresh_ok (w\<lparr>fresh := F\<rparr>)" by (rule fresh_ok_mono [OF C(1) ok(3)])
  then show ?thesis
    using C(2-) s same ok http_ok_same [OF C(3) s same(1)]
    by (simp add: core_def fresh_ok_def len_ok_def refs_ok_same unused_upd)
qed

lemma client_response_create_runs:
  assumes core: "core w" and svc: "svc_ok w" and s: "sessions w a = Some s"
    and strings: "ss_name s \<noteq> None" "ss_surname s \<noteq> None" "ss_joke s \<noteq> None"
  shows "runs (client_response_create a w) (\<lambda>(p, w1). step_ok a w w1 \<and> hsessions w1 = hsessions w \<and>
     dns_requests w1 = dns_requests w \<and> (\<exists>b. sessions w1 a = Some (drop_strings b s)) \<and>
     (\<forall>q. p = Some q \<longrightarrow> strs w1 q \<noteq> None \<and> (\<forall>b t. sessions w1 b = Some t \<longrightarrow> q \<notin> str_ptrs t)))"
proof -
  note C = coreD [OF core]
  obtain n sn j where p: "ss_name s = Some n" "ss_surname s = Some sn" "ss_joke s = Some j" using strings by auto
  have ptrs: "str_ptrs s = {n, sn, j}" using p by (auto simp: str_ptrs_def)
  note D = strs_okD [OF C(4) s]
  obtain name surname joke where t: "strs w n = Some name" "strs w sn = Some surname" "strs w j = Some joke"
    "text_ok name" "text_ok surname" "text_ok joke" using D(2) [of n] D(2) [of sn] D(2) [of j] by (auto simp: ptrs)
  have d: "distinct [n, sn, j]" using D(1) p by (auto simp: distinct_strs_def)
  have U: "unused (fresh w) (strs w)" using C(1) by (simp add: fresh_ok_def)
  have lt: "x < fresh w" if "strs w x = Some y" for x y by (rule unused_lt [OF U that])
  have ready: "response_ready a name surname joke w"
    using s p t d lt personalised_length [of name surname joke]
    by (auto simp: response_ready_def text_ok_def)
  note R = client_response_create_result [OF ready s p]
  have other: "x \<notin> {n, sn, j}" "x < fresh w" if "sessions w b = Some t1" "b \<noteq> a" "x \<in> str_ptrs t1" for b t1 x
  proof -
    show "x \<notin> {n, sn, j}" using D(3) [OF that(1), of x] that by (auto simp: ptrs)
    show "x < fresh w" using strs_okD(2) [OF C(4) that(1,3)] lt by blast
  qed
  have all: "str_ptrs (drop_strings True s) = {}" "distinct_strs (drop_strings True s)"
    by (auto simp: drop_strings_def str_ptrs_def distinct_strs_def)
  have one: "str_ptrs (drop_strings False s) = {sn, j}" "distinct_strs (drop_strings False s)"
    using p d by (auto simp: drop_strings_def str_ptrs_def distinct_strs_def)
  have same: "ss_http (drop_strings b s) = ss_http s" "ss_me (drop_strings b s) = ss_me s" for b
    by (simp_all add: drop_strings_def)
  have post: "step_ok a w (w\<lparr>answers := bs, fresh := F, sessions := (sessions w)(a \<mapsto> drop_strings b s), strs := T\<rparr>)"
    if "strs_ok ((sessions w)(a \<mapsto> drop_strings b s)) T" "unused F T" "fresh w \<le> F" for b T F bs
  proof -
    have "core (w\<lparr>answers := bs, fresh := F, sessions := (sessions w)(a \<mapsto> drop_strings b s), strs := T\<rparr>)"
      by (rule core_strings [OF core s same that])
    moreover have "svc_ok (w\<lparr>answers := bs, fresh := F, sessions := (sessions w)(a \<mapsto> drop_strings b s), strs := T\<rparr>)"
      by (rule svc_ok_mono [OF svc]) (use s in \<open>auto simp: same_env_def\<close>)
    ultimately show ?thesis by (simp add: step_ok_def others_def)
  qed
  let ?f = "fresh w"
  let ?P = "personalised name surname joke"
  consider (none) "\<not> answer 0 w" | (half) "answer 0 w" "\<not> answer 1 w" | (both) "answer 0 w" "answer 1 w" by blast
  then show ?thesis
  proof cases
    case none
    let ?T = "(strs w)(n := None)"
    have "strs_ok ((sessions w)(a \<mapsto> drop_strings False s)) ?T"
      by (rule strs_ok_change [OF C(4) one(2)]) (use one t d s ptrs other in auto)
    note P = post [OF this unused_none [OF U] order_refl]
    have "w\<lparr>answers := bs, strs := ?T, sessions := S\<rparr> = w\<lparr>answers := bs, fresh := ?f, sessions := S, strs := ?T\<rparr>" for bs S
      by (rule world.equality) simp_all
    with P have "step_ok a w (w\<lparr>answers := bs, strs := ?T, sessions := (sessions w)(a \<mapsto> drop_strings False s)\<rparr>)" for bs
      by metis
    with none R show ?thesis by auto
  next
    case half
    let ?T = "(strs w)(n := None, sn := None, j := None, ?f := None)"
    have "strs_ok ((sessions w)(a \<mapsto> drop_strings True s)) ?T"
      by (rule strs_ok_change [OF C(4) all(2)]) (use all other in fastforce)+
    moreover have "unused (Suc ?f) ?T" using U by (simp add: unused_Suc)
    ultimately show ?thesis using post [of True ?T "Suc ?f"] half R by auto
  next
    case both
    let ?T = "(strs w)(n := None, sn := None, j := None, Suc ?f \<mapsto> ?P, ?f := None)"
    have "strs_ok ((sessions w)(a \<mapsto> drop_strings True s)) ?T"
      by (rule strs_ok_change [OF C(4) all(2)]) (use all other in fastforce)+
    moreover have "unused (Suc (Suc ?f)) ?T" using U by (simp add: unused_Suc unused_new)
    moreover have "Suc ?f \<notin> str_ptrs t1" if "((sessions w)(a \<mapsto> drop_strings True s)) b = Some t1" for b t1
      using that all(1) other(2) [of b t1 "Suc ?f"] by (auto split: if_splits)
    ultimately show ?thesis using post [of True ?T "Suc (Suc ?f)"] both R by auto
  qed
qed

lemma core_free_unowned:
  assumes "core w" "\<And>b t. sessions w b = Some t \<Longrightarrow> q \<notin> str_ptrs t"
  shows "core (w\<lparr>strs := (strs w)(q := None)\<rparr>)"
  using coreD [OF assms(1)] strs_ok_unowned [of "sessions w" "strs w" q None] assms(2)
  by (simp add: core_def fresh_ok_def)

lemma drop_strings_same:
  "ss_http (drop_strings b s) = ss_http s" "ss_me (drop_strings b s) = ss_me s"
  "ss_name_replied (drop_strings b s) = ss_name_replied s" "ss_joke_replied (drop_strings b s) = ss_joke_replied s"
  "counters_ok n (drop_strings b s) = counters_ok n s"
  by (simp_all add: drop_strings_def counters_ok_def)

lemma http_client_response_runs:
  assumes core: "core w" and svc: "svc_ok w" and s: "sessions w a = Some s"
    and logic: "logic ph n (hsessions w) (dns_requests w) s"
    and full: "ss_name_replied s \<Longrightarrow> ss_joke_replied s \<Longrightarrow> ss_name s \<noteq> None \<and> ss_surname s \<noteq> None \<and> ss_joke s \<noteq> None"
  shows "runs (http_client_response L a w) (keeps_going ph n a w)"
proof (cases "ss_name_replied s \<and> ss_joke_replied s")
  case False
  have "keeps_going ph n a w w" using core svc s logic by (simp add: keeps_going_def step_ok_refl mine_def)
  with False s show ?thesis by (simp add: http_client_response_def)
next
  case True
  then obtain p w1 b where 1: "client_response_create a w = Some (p, w1)" "step_ok a w w1" "hsessions w1 = hsessions w"
    "dns_requests w1 = dns_requests w" "sessions w1 a = Some (drop_strings b s)"
    "\<And>q. p = Some q \<Longrightarrow> strs w1 q \<noteq> None \<and> (\<forall>b t. sessions w1 b = Some t \<longrightarrow> q \<notin> str_ptrs t)"
    using full client_response_create_runs [OF core svc s] by (auto simp: runs_def)
  let ?s = "drop_strings b s"
  have ok1: "core w1" "svc_ok w1" using 1(2) by (simp_all add: step_ok_def)
  show ?thesis
  proof (cases p)
    case None
    have "runs (session_state_set a ERROR_CLIENT_RESPONSE w1 \<bind> http_service_session_remove a) (keeps_going ph n a w1)"
      by (rule state_remove [OF ok1 1(5)])
    with None True 1(1,2) s show ?thesis by (simp add: http_client_response_def runs_keeps_going)
  next
    case (Some q)
    obtain h where h: "ss_http s ! CLIENT = Some h" using logicD(1) [OF logic] by (auto simp: slots_good_def)
    have sl: "slot (sessions w1) a CLIENT h" using 1(5) h by (simp add: slot_def drop_strings_same CLIENT_def)
    obtain K where "chain (hsessions w1) (bodies w1) (channels w1) (bevs w1) a CLIENT h K" by (rule slot_chain [OF ok1(1) sl])
    then obtain X where X: "hsessions w1 h = Some X" by (auto simp: chain_def)
    obtain bv where bv: "channel_bev (hs_channel X) w1 = Some bv" using hs_channel_bev [OF ok1(1) sl X] by blast
    obtain t where t: "strs w1 q = Some t" using 1(6) [OF Some] by blast
    obtain r w2 where 2: "http_response_write L h q w1 = Some (r, w2)"
      "(\<exists>e. w2 = w1\<lparr>ext := e\<rparr>) \<or> (\<exists>e. w2 = w1\<lparr>ext := e, strs := (strs w1)(q := None)\<rparr>)"
      using http_response_write_ext [of w1 h X bv q t L, OF X bv t] by blast
    have "core (w1\<lparr>ext := e, strs := (strs w1)(q := None)\<rparr>)" for e
      using core_free_unowned [of "w1\<lparr>ext := e\<rparr>" q] 1(6) [OF Some] ok1(1) by simp
    then have core2: "core w2" using 2(2) ok1(1) by auto
    have st2: "step_ok a w1 w2"
      using 2(2) core2 ok1(2) by (auto simp: step_ok_def others_def svc_ok_def)
    have same: "hsessions w2 = hsessions w" "dns_requests w2 = dns_requests w" "sessions w2 a = Some ?s"
      using 2(2) 1(3-5) by auto
    have run: "http_client_response L a w = (if r < 0
        then session_state_set a ERROR_CLIENT_RESPONSE w2 \<bind> http_service_session_remove a
        else session_state_set a CLIENT_RESPONSE w2)"
      using True s 1(1) Some h 2(1) by (simp add: http_client_response_def)
    have st: "step_ok a w w2" by (rule step_ok_trans [OF 1(2) st2])
    show ?thesis
    proof (cases "r < 0")
      case True
      have "runs (session_state_set a ERROR_CLIENT_RESPONSE w2 \<bind> http_service_session_remove a) (keeps_going ph n a w2)"
        by (rule state_remove [OF core2 _ same(3)]) (use st2 in \<open>simp add: step_ok_def\<close>)
      with True run st show ?thesis by (simp add: runs_keeps_going)
    next
      case False
      let ?s3 = "?s\<lparr>ss_state := CLIENT_RESPONSE\<rparr>"
      let ?w3 = "w2\<lparr>sessions := (sessions w2)(a \<mapsto> ?s3)\<rparr>"
      have "step_ok a w2 ?w3" by (rule step_session [OF core2 _ same(3)]) (use st2 in \<open>simp_all add: step_ok_def\<close>)
      then have "step_ok a w ?w3" by (rule step_ok_trans [OF st])
      moreover have "slots_good ph (hsessions w) ?s3 = slots_good ph (hsessions w) s"
        unfolding slots_good_def by (simp add: drop_strings_same)
      moreover have "upstream_ok D ?s3 i = upstream_ok D s i" for D i
        by (simp add: upstream_ok_def replied_def drop_strings_same)
      moreover have "strings_ok ?s3" using \<open>ss_name_replied s \<and> ss_joke_replied s\<close> by (simp add: strings_ok_def drop_strings_same)
      moreover have "counters_ok n ?s3" using logicD(5) [OF logic] drop_strings_same(5) [of n b s] by (simp add: counters_ok_def)
      ultimately have "keeps_going ph n a w ?w3" using logic same by (simp add: keeps_going_def mine_def logic_def)
      with False run upd_state [OF same(3)] show ?thesis by simp
    qed
  qed
qed

end
