(* ===== verification/Reply_Safety.thy ===== *)
theory Reply_Safety
  imports Session_Safety
begin

section \<open>The callbacks of a session keep the invariant: upstream connections and responses\<close>

text \<open>
  The second half of the callbacks of \<^verbatim>\<open>session.c\<close>: the responses of the two servers, a
  resolved name and the connection that follows. The statements are of the form of those in
  \<open>Session_Safety\<close>.
\<close>

subsection \<open>Copying a string into a session\<close>

lemma step_strings:
  assumes core: "core w" and svc: "svc_ok w" and s: "sessions w a = Some s" and same: "ss_http s' = ss_http s" "ss_me s' = ss_me s"
    and d: "distinct_strs s'" and own: "\<And>p. p \<in> str_ptrs s' \<Longrightarrow> p \<in> str_ptrs s \<or> strs w p = None"
    and live: "\<And>p. p \<in> str_ptrs s' \<Longrightarrow> \<exists>t. T p = Some t \<and> text_ok t"
    and rest: "\<And>p. strs w p \<noteq> None \<Longrightarrow> T p = strs w p" and F: "unused F T" "fresh w \<le> F"
  shows "step_ok a w (w\<lparr>answers := bs, fresh := F, strs := T, sessions := (sessions w)(a \<mapsto> s')\<rparr>)" (is "step_ok a w ?w")
proof -
  note C = coreD [OF core]
  have "T p = strs w p" if "sessions w b = Some t" "p \<in> str_ptrs t" for b t p
    using strs_okD(2) [OF C(4) that] rest by fastforce
  then have "strs_ok ((sessions w)(a \<mapsto> s')) T"
    using own live s by (intro strs_ok_change [OF C(4) d]) auto
  then have "core (w\<lparr>answers := bs, fresh := F, sessions := (sessions w)(a \<mapsto> s'), strs := T\<rparr>)"
    by (rule core_strings [OF core s same _ F])
  moreover have "w\<lparr>answers := bs, fresh := F, sessions := S, strs := T\<rparr> = w\<lparr>answers := bs, fresh := F, strs := T, sessions := S\<rparr>" for S
    by (rule world.equality) simp_all
  ultimately have "core ?w" by simp
  moreover have "svc_ok ?w" by (rule svc_ok_mono [OF svc]) (use s in \<open>auto simp: same_env_def\<close>)
  ultimately show ?thesis by (simp add: step_ok_def others_def)
qed

lemma strdup_cases [consumes 4, case_names null ok]:
  assumes core: "core w" and svc: "svc_ok w" and s: "sessions w a = Some s" and t: "length t \<le> 1000"
  obtains (null) w1 where "strdup t w = (None, w1)" "sessions w1 = sessions w" "hsessions w1 = hsessions w"
      "dns_requests w1 = dns_requests w"
      "\<And>s'. ss_http s' = ss_http s \<Longrightarrow> ss_me s' = ss_me s \<Longrightarrow> distinct_strs s' \<Longrightarrow> str_ptrs s' \<subseteq> str_ptrs s \<Longrightarrow>
         step_ok a w (w1\<lparr>sessions := (sessions w)(a \<mapsto> s')\<rparr>)"
  | (ok) q w1 where "strdup t w = (Some q, w1)" "sessions w1 = sessions w" "hsessions w1 = hsessions w"
      "dns_requests w1 = dns_requests w" "q \<notin> str_ptrs s"
      "\<And>s'. ss_http s' = ss_http s \<Longrightarrow> ss_me s' = ss_me s \<Longrightarrow> distinct_strs s' \<Longrightarrow> str_ptrs s' \<subseteq> insert q (str_ptrs s) \<Longrightarrow>
         step_ok a w (w1\<lparr>sessions := (sessions w)(a \<mapsto> s')\<rparr>)"
proof -
  note C = coreD [OF core]
  have U: "unused (fresh w) (strs w)" using C(1) by (simp add: fresh_ok_def)
  note D = strs_okD(2) [OF C(4) s]
  show thesis
  proof (cases rule: new_addr_cases [of w])
    case null
    let ?w1 = "w\<lparr>answers := tl (answers w)\<rparr>"
    show thesis
    proof (rule that(1))
      fix s' assume "ss_http s' = ss_http s" "ss_me s' = ss_me s" "distinct_strs s'" "str_ptrs s' \<subseteq> str_ptrs s"
      then have "step_ok a w (w\<lparr>answers := tl (answers w), fresh := fresh w, strs := strs w, sessions := (sessions w)(a \<mapsto> s')\<rparr>)"
        by (intro step_strings [OF core svc s]) (use D U in auto)
      then show "step_ok a w (?w1\<lparr>sessions := (sessions w)(a \<mapsto> s')\<rparr>)" by simp
    qed (use null in \<open>simp_all add: strdup_def\<close>)
  next
    case ok
    let ?t = "takeWhile (\<lambda>c. c \<noteq> nul) t"
    let ?T = "(strs w)(fresh w \<mapsto> ?t)"
    let ?w1 = "w\<lparr>answers := tl (answers w), fresh := Suc (fresh w), strs := ?T\<rparr>"
    have n: "strs w (fresh w) = None" using U by (simp add: unused_def)
    have tx: "text_ok ?t" using t length_takeWhile_le [of "\<lambda>c. c \<noteq> nul" t]
      by (auto simp: text_ok_def c_string_def dest: set_takeWhileD)
    show thesis
    proof (rule that(2))
      fix s' assume "ss_http s' = ss_http s" "ss_me s' = ss_me s" "distinct_strs s'" "str_ptrs s' \<subseteq> insert (fresh w) (str_ptrs s)"
      then show "step_ok a w (?w1\<lparr>sessions := (sessions w)(a \<mapsto> s')\<rparr>)"
        by (intro step_strings [OF core svc s]) (use D n tx unused_new [OF U] in auto)
    qed (use ok n D [of "fresh w"] in \<open>auto simp: strdup_def\<close>)
  qed
qed

subsection \<open>The response of an upstream server\<close>

lemma message_text_runs:
  assumes core: "core w" and h: "hsessions w h = Some X" and body: "hs_body X \<noteq> None"
  shows "\<exists>t. message_text L h w = Some t"
  using http_ok_live_body [OF coreD(3) [OF core] h] h body
  by (auto simp: message_text_def http_session_body_def)

text \<open>Releasing the HTTP session of the server that has answered.\<close>

lemma release_slot:
  assumes core: "core w" and svc: "svc_ok w" and s: "sessions w a = Some s" and i: "i < 3" "ss_http s ! i = Some h"
  obtains w1 w2 where "http_session_free (Some h) w = Some w1"
    "upd_session a (\<lambda>s. s\<lparr>ss_http := (ss_http s)[i := None]\<rparr>) w1 = Some w2"
    "step_ok a w w2" "sessions w2 a = Some (s\<lparr>ss_http := (ss_http s)[i := None]\<rparr>)"
    "hsessions w2 = (hsessions w)(h := None)" "dns_requests w2 = dns_requests w"
proof -
  let ?s = "s\<lparr>ss_http := (ss_http s)[i := None]\<rparr>"
  obtain w1 where 0: "http_session_free (ss_http s ! i) w = Some w1" "http_only w w1" "sessions w1 = sessions w"
    "hsessions w1 = (case ss_http s ! i of None \<Rightarrow> hsessions w | Some h \<Rightarrow> (hsessions w)(h := None))"
    "\<And>s'. ss_http s' = (ss_http s)[i := None] \<Longrightarrow> same_refs s s' \<Longrightarrow>
       core (w1\<lparr>sessions := (sessions w)(a \<mapsto> s')\<rparr>) \<and> others a w (w1\<lparr>sessions := (sessions w)(a \<mapsto> s')\<rparr>)"
    by (rule free_slot [OF core s i(1)]) blast
  note 1 = 0(1-4) 0(5) [of ?s]
  let ?w2 = "w1\<lparr>sessions := (sessions w)(a \<mapsto> ?s)\<rparr>"
  have "svc_ok ?w2" by (rule svc_ok_mono [OF svc]) (use s 1(2) in \<open>auto simp: http_only_def same_env_def\<close>)
  then have "step_ok a w ?w2" using 1(2,5) by (simp add: step_ok_def http_only_def same_env_def same_refs_def)
  with 1(1-4) i s show ?thesis
    by (intro that [of w1 ?w2]) (simp_all add: upd_session_def http_only_def)
qed

lemma slot_indices: "NAME < 3" "JOKE < 3" "CLIENT < 3" "NAME \<noteq> CLIENT" "JOKE \<noteq> CLIENT" "NAME \<noteq> JOKE"
  by (simp_all add: slots)

text \<open>The session after an answer: the server's slot is empty, the server has replied.\<close>

lemma answered_logic:
  assumes logic: "logic ph n (H(h := None)) D s" and i: "i \<in> {NAME, JOKE}" "ss_http s ! i = Some h" "length (ss_http s) = 3"
    and s': "ss_http s' = (ss_http s)[i := None]" "ss_me s' = ss_me s" "counters_ok m s'"
    and rep: "ss_name_replied s' \<longleftrightarrow> i = NAME \<or> ss_name_replied s" "ss_joke_replied s' \<longleftrightarrow> i = JOKE \<or> ss_joke_replied s"
    and str: "if i = NAME then ss_name s' \<noteq> None \<and> ss_surname s' \<noteq> None \<and> ss_joke s' = ss_joke s
              else ss_joke s' \<noteq> None \<and> ss_name s' = ss_name s \<and> ss_surname s' = ss_surname s"
  shows "logic ph m (H(h := None)) D s'" "ss_name_replied s' \<Longrightarrow> ss_joke_replied s' \<Longrightarrow>
    ss_name s' \<noteq> None \<and> ss_surname s' \<noteq> None \<and> ss_joke s' \<noteq> None"
proof -
  note L = logicD [OF logic]
  have up: "upstream_ok D s i" using i(1) L(2,3) by auto
  then have nr: "\<not> replied s i" "ss_me s \<noteq> None" "\<And>r. ss_me s = Some r \<Longrightarrow> \<not> pending D r i"
    using i(2) by (auto simp: upstream_ok_def)
  have slot: "ss_http s' ! j = (if j = i then None else ss_http s ! j)" if "j < 3" for j
    using s'(1) i(1,3) that by (auto simp: nth_list_update slots)
  have "slots_good ph (H(h := None)) s'"
    unfolding slots_good_def
  proof (intro conjI allI impI)
    show "ss_http s' ! CLIENT \<noteq> None" using slot [OF slot_indices(3)] i(1) L(1) slot_indices by (auto simp: slots_good_def)
    fix j k X assume j: "j < 3" "ss_http s' ! j = Some k" "(H(h := None)) k = Some X"
    then have "ss_http s ! j = Some k" using slot [OF j(1)] by (simp split: if_splits)
    note G = slots_goodD [OF L(1) j(1) this j(3)]
    show "hs_good ph X" by (rule G(1))
    show "if j = CLIENT then hs_state X \<noteq> HTTP_MESSAGE_COMPLETE \<longrightarrow> ss_me s' = None else hs_state X \<noteq> HTTP_MESSAGE_COMPLETE"
      using G(2,3) s'(2) by auto
  qed
  moreover have "upstream_ok D s' j" if j: "j \<in> {NAME, JOKE}" for j
  proof (cases "j = i")
    case True
    then show ?thesis using nr s'(2) slot [of i] i(1) slot_indices by (auto simp: upstream_ok_def)
  next
    case False
    then have "replied s' j = replied s j" using j i(1) rep slot_indices by (auto simp: replied_def)
    moreover have "ss_http s' ! j = ss_http s ! j" using slot [of j] j False slot_indices by auto
    ultimately show ?thesis using L(2,3) j s'(2) by (auto simp: upstream_ok_def)
  qed
  moreover have "strings_ok s'" using i(1) rep str L(4) nr(1) slot_indices by (auto simp: strings_ok_def replied_def)
  ultimately show "logic ph m (H(h := None)) D s'" using s'(3) by (simp add: logic_def)
  show "ss_name s' \<noteq> None \<and> ss_surname s' \<noteq> None \<and> ss_joke s' \<noteq> None" if "ss_name_replied s'" "ss_joke_replied s'"
    using that i(1) rep str L(4) nr(1) slot_indices by (auto simp: strings_ok_def replied_def split: if_splits)
qed

lemma upstream_error_runs:
  assumes "core w" "svc_ok w" "sessions w a = Some s"
  shows "runs (upstream_error a w) (keeps_going ph n a w)"
  using state_remove [OF assms] by (simp add: upstream_error_def)

lemma step_okD: "step_ok a w w' \<Longrightarrow> core w'" "step_ok a w w' \<Longrightarrow> svc_ok w'" "step_ok a w w' \<Longrightarrow> this_dns w' = this_dns w"
  by (simp_all add: step_ok_def)

text \<open>From a state reached so far.\<close>

lemma upstream_error_from:
  assumes "step_ok a w w'" "sessions w' a = Some s"
  shows "runs (upstream_error a w') (keeps_going ph n a w)"
  by (rule runs_keeps_going [OF assms(1) upstream_error_runs]) (use assms in \<open>simp_all add: step_okD\<close>)

lemma http_response_name_runs:
  assumes env: "env_ok L" and core: "core w" and svc: "svc_ok w" and s: "sessions w a = Some s"
    and h: "ss_http s ! NAME = Some h" "hsessions w h = Some X" "hs_body X \<noteq> None"
    and logic: "logic ph n ((hsessions w)(h := None)) (dns_requests w) s" and n: "n < 2 ^ 31 - 1"
  shows "runs (http_response_name L h w) (keeps_going ph (n + 1) a w)"
proof -
  have sl: "slot (sessions w) a NAME h" using s h(1) by (simp add: slot_def slots)
  obtain K where "chain (hsessions w) (bodies w) (channels w) (bevs w) a NAME h K" by (rule slot_chain [OF core sl])
  then have m: "http_session_master h w = Some a" by (auto simp: chain_def http_session_master_def)
  note cnt = logicD(5) [OF logic, unfolded counters_ok_def]
  let ?s1 = "s\<lparr>ss_pending_replies := ss_pending_replies s - 1\<rparr>"
  let ?w1 = "w\<lparr>sessions := (sessions w)(a \<mapsto> ?s1)\<rparr>"
  have st1: "step_ok a w ?w1" by (rule step_session [OF core svc s]) simp_all
  note ok1 = step_okD(1,2) [OF st1]
  have s1: "sessions ?w1 a = Some ?s1" by simp
  obtain t where t: "message_text L h ?w1 = Some t"
    using message_text_runs [OF ok1(1), of h X L] h(2,3) by auto
  have c1: "int_ok (ss_pending_replies s - 1)" using cnt n by (auto simp: int_ok_def)
  note err1 = upstream_error_from [OF st1 s1]
  note run0 = m s c1 t
  show ?thesis
  proof (cases "\<exists>p name surname. t = Some p \<and> json_loadb L p \<and> json_unpack L p [[''name''], [''surname'']] = Some [name, surname]")
    case False
    then have "http_response_name L h w = upstream_error a ?w1"
      using run0 by (auto simp: http_response_name_def upd_session_def split: option.splits list.splits)
    with err1 show ?thesis by simp
  next
    case True
    then obtain p name surname where J: "t = Some p" "json_loadb L p"
      "json_unpack L p [[''name''], [''surname'']] = Some [name, surname]" by blast
    then have len: "length name \<le> 1000" "length surname \<le> 1000" using env by (auto simp: env_ok_def)
    have d1: "distinct_strs ?s1" by (rule strs_okD(1) [OF coreD(4) [OF ok1(1)] s1])
    from ok1 s1 len(1) show ?thesis
    proof (cases rule: strdup_cases)
      case (null w2)
      let ?s3 = "?s1\<lparr>ss_name := None\<rparr>"
      let ?w3 = "w2\<lparr>sessions := (sessions ?w1)(a \<mapsto> ?s3)\<rparr>"
      have "step_ok a ?w1 ?w3" by (rule null(5)) (use d1 in \<open>auto simp: distinct_strs_def str_ptrs_def\<close>)
      then have st3: "step_ok a w ?w3" by (rule step_ok_trans [OF st1])
      have "http_response_name L h w = upstream_error a ?w3"
        using run0 J null(1,2) by (simp add: http_response_name_def upd_session_def)
      with upstream_error_from [OF st3, of ?s3] show ?thesis by simp
    next
      case (ok q w2)
      let ?s3 = "?s1\<lparr>ss_name := Some q\<rparr>"
      let ?w3 = "w2\<lparr>sessions := (sessions ?w1)(a \<mapsto> ?s3)\<rparr>"
      have "step_ok a ?w1 ?w3" by (rule ok(6)) (use d1 ok(5) in \<open>auto simp: distinct_strs_def str_ptrs_def\<close>)
      then have st3: "step_ok a w ?w3" by (rule step_ok_trans [OF st1])
      have s3: "sessions ?w3 a = Some ?s3" by simp
      note ok3 = step_okD(1,2) [OF st3]
      have d3: "distinct_strs ?s3" by (rule strs_okD(1) [OF coreD(4) [OF ok3(1)] s3])
      from ok3 s3 len(2) show ?thesis
      proof (cases rule: strdup_cases)
        case (null w4)
        let ?s5 = "?s3\<lparr>ss_surname := None\<rparr>"
        let ?w5 = "w4\<lparr>sessions := (sessions ?w3)(a \<mapsto> ?s5)\<rparr>"
        have "step_ok a ?w3 ?w5" by (rule null(5)) (use d3 in \<open>auto simp: distinct_strs_def str_ptrs_def\<close>)
        then have st5: "step_ok a w ?w5" by (rule step_ok_trans [OF st3])
        have "http_response_name L h w = upstream_error a ?w5"
          using run0 J ok(1,2) null(1,2) by (simp add: http_response_name_def upd_session_def)
        with upstream_error_from [OF st5, of ?s5] show ?thesis by simp
      next
        case ok2: (ok q2 w4)
        let ?s5 = "?s3\<lparr>ss_surname := Some q2, ss_name_replied := True\<rparr>"
        let ?w5 = "w4\<lparr>sessions := (sessions ?w3)(a \<mapsto> ?s5)\<rparr>"
        have "step_ok a ?w3 ?w5" by (rule ok2(6)) (use d3 ok2(5) in \<open>auto simp: distinct_strs_def str_ptrs_def\<close>)
        then have st5: "step_ok a w ?w5" by (rule step_ok_trans [OF st3])
        have same5: "hsessions ?w5 = hsessions w" "dns_requests ?w5 = dns_requests w"
          using ok(3,4) ok2(3,4) by simp_all
        obtain w6 w7 where 7: "http_session_free (Some h) ?w5 = Some w6"
          "upd_session a (\<lambda>s. s\<lparr>ss_http := (ss_http s)[NAME := None]\<rparr>) w6 = Some w7" "step_ok a ?w5 w7"
          "sessions w7 a = Some (?s5\<lparr>ss_http := (ss_http ?s5)[NAME := None]\<rparr>)"
          "hsessions w7 = (hsessions ?w5)(h := None)" "dns_requests w7 = dns_requests ?w5"
          by (rule release_slot [OF step_okD(1,2) [OF st5], of a ?s5 NAME h]) (use h(1) slot_indices in auto)
        let ?s7 = "?s5\<lparr>ss_http := (ss_http ?s5)[NAME := None]\<rparr>"
        have run: "http_response_name L h w = http_client_response L a w7"
          using run0 J ok(1,2) ok2(1,2) 7(1,2) by (simp add: http_response_name_def upd_session_def [of _ _ w2] upd_session_def [of _ _ w4] upd_session_def [of _ _ w])
        have st7: "step_ok a w w7" by (rule step_ok_trans [OF st5 7(3)])
        have len3: "length (ss_http s) = 3" using coreD(2) [OF core] s by (simp add: len_ok_def)
        note A = answered_logic [OF logic, of NAME ?s7 "n + 1", OF _ h(1) len3]
        have "counters_ok (n + 1) ?s7" using cnt by (auto simp: counters_ok_def)
        then have "logic ph (n + 1) (hsessions w7) (dns_requests w7) ?s7"
          "ss_name_replied ?s7 \<Longrightarrow> ss_joke_replied ?s7 \<Longrightarrow> ss_name ?s7 \<noteq> None \<and> ss_surname ?s7 \<noteq> None \<and> ss_joke ?s7 \<noteq> None"
          using A 7(5,6) same5 slot_indices by simp_all
        then have "runs (http_client_response L a w7) (keeps_going ph (n + 1) a w7)"
          by (intro http_client_response_runs [OF step_okD(1,2) [OF st7] 7(4)]) auto
        with run st7 show ?thesis by (simp add: runs_keeps_going)
      qed
    qed
  qed
qed

lemma http_response_joke_runs:
  assumes env: "env_ok L" and core: "core w" and svc: "svc_ok w" and s: "sessions w a = Some s"
    and h: "ss_http s ! JOKE = Some h" "hsessions w h = Some X" "hs_body X \<noteq> None"
    and logic: "logic ph n ((hsessions w)(h := None)) (dns_requests w) s" and n: "n < 2 ^ 31 - 1"
  shows "runs (http_response_joke L h w) (keeps_going ph (n + 1) a w)"
proof -
  have sl: "slot (sessions w) a JOKE h" using s h(1) by (simp add: slot_def slots)
  obtain K where "chain (hsessions w) (bodies w) (channels w) (bevs w) a JOKE h K" by (rule slot_chain [OF core sl])
  then have m: "http_session_master h w = Some a" by (auto simp: chain_def http_session_master_def)
  note cnt = logicD(5) [OF logic, unfolded counters_ok_def]
  let ?s1 = "s\<lparr>ss_pending_replies := ss_pending_replies s - 1\<rparr>"
  let ?w1 = "w\<lparr>sessions := (sessions w)(a \<mapsto> ?s1)\<rparr>"
  have st1: "step_ok a w ?w1" by (rule step_session [OF core svc s]) simp_all
  note ok1 = step_okD(1,2) [OF st1]
  have s1: "sessions ?w1 a = Some ?s1" by simp
  obtain t where t: "message_text L h ?w1 = Some t"
    using message_text_runs [OF ok1(1), of h X L] h(2,3) by auto
  have c1: "int_ok (ss_pending_replies s - 1)" using cnt n by (auto simp: int_ok_def)
  note run0 = m s c1 t
  show ?thesis
  proof (cases "\<exists>p joke. t = Some p \<and> json_loadb L p \<and> json_unpack L p [[''value'', ''joke'']] = Some [joke]")
    case False
    then have "http_response_joke L h w = upstream_error a ?w1"
      using run0 by (auto simp: http_response_joke_def upd_session_def split: option.splits list.splits)
    with upstream_error_from [OF st1 s1] show ?thesis by simp
  next
    case True
    then obtain p joke where J: "t = Some p" "json_loadb L p"
      "json_unpack L p [[''value'', ''joke'']] = Some [joke]" by blast
    then have len: "length joke \<le> 1000" using env by (auto simp: env_ok_def)
    have d1: "distinct_strs ?s1" by (rule strs_okD(1) [OF coreD(4) [OF ok1(1)] s1])
    from ok1 s1 len show ?thesis
    proof (cases rule: strdup_cases)
      case (null w2)
      let ?s3 = "?s1\<lparr>ss_joke := None\<rparr>"
      let ?w3 = "w2\<lparr>sessions := (sessions ?w1)(a \<mapsto> ?s3)\<rparr>"
      have "step_ok a ?w1 ?w3" by (rule null(5)) (use d1 in \<open>auto simp: distinct_strs_def str_ptrs_def\<close>)
      then have st3: "step_ok a w ?w3" by (rule step_ok_trans [OF st1])
      have "http_response_joke L h w = upstream_error a ?w3"
        using run0 J null(1,2) by (simp add: http_response_joke_def upd_session_def)
      with upstream_error_from [OF st3, of ?s3] show ?thesis by simp
    next
      case (ok q w2)
      let ?s3 = "?s1\<lparr>ss_joke := Some q, ss_joke_replied := True\<rparr>"
      let ?w3 = "w2\<lparr>sessions := (sessions ?w1)(a \<mapsto> ?s3)\<rparr>"
      have "step_ok a ?w1 ?w3" by (rule ok(6)) (use d1 ok(5) in \<open>auto simp: distinct_strs_def str_ptrs_def\<close>)
      then have st3: "step_ok a w ?w3" by (rule step_ok_trans [OF st1])
      have same3: "hsessions ?w3 = hsessions w" "dns_requests ?w3 = dns_requests w" using ok(3,4) by simp_all
      obtain w6 w7 where 7: "http_session_free (Some h) ?w3 = Some w6"
        "upd_session a (\<lambda>s. s\<lparr>ss_http := (ss_http s)[JOKE := None]\<rparr>) w6 = Some w7" "step_ok a ?w3 w7"
        "sessions w7 a = Some (?s3\<lparr>ss_http := (ss_http ?s3)[JOKE := None]\<rparr>)"
        "hsessions w7 = (hsessions ?w3)(h := None)" "dns_requests w7 = dns_requests ?w3"
        by (rule release_slot [OF step_okD(1,2) [OF st3], of a ?s3 JOKE h]) (use h(1) slot_indices in auto)
      let ?s7 = "?s3\<lparr>ss_http := (ss_http ?s3)[JOKE := None]\<rparr>"
      have run: "http_response_joke L h w = http_client_response L a w7"
        using run0 J ok(1,2) 7(1,2) by (simp add: http_response_joke_def upd_session_def [of _ _ w2] upd_session_def [of _ _ w])
      have st7: "step_ok a w w7" by (rule step_ok_trans [OF st3 7(3)])
      have len3: "length (ss_http s) = 3" using coreD(2) [OF core] s by (simp add: len_ok_def)
      note A = answered_logic [OF logic, of JOKE ?s7 "n + 1", OF _ h(1) len3]
      have "counters_ok (n + 1) ?s7" using cnt by (auto simp: counters_ok_def)
      then have "logic ph (n + 1) (hsessions w7) (dns_requests w7) ?s7"
        "ss_name_replied ?s7 \<Longrightarrow> ss_joke_replied ?s7 \<Longrightarrow> ss_name ?s7 \<noteq> None \<and> ss_surname ?s7 \<noteq> None \<and> ss_joke ?s7 \<noteq> None"
        using A 7(5,6) same3 slot_indices by simp_all
      then have "runs (http_client_response L a w7) (keeps_going ph (n + 1) a w7)"
        by (intro http_client_response_runs [OF step_okD(1,2) [OF st7] 7(4)]) auto
      with run st7 show ?thesis by (simp add: runs_keeps_going)
    qed
  qed
qed

subsection \<open>Connecting to an upstream server\<close>

lemma connect_failed_runs:
  assumes "core w" "svc_ok w" "sessions w a = Some s"
  shows "runs (connect_failed a w) (keeps_going ph n a w)"
  using state_remove [OF assms] by (simp add: connect_failed_def)

lemma connect_failed_from:
  assumes "step_ok a w w'" "sessions w' a = Some s"
  shows "runs (connect_failed a w') (keeps_going ph n a w)"
  by (rule runs_keeps_going [OF assms(1) connect_failed_runs]) (use assms in \<open>simp_all add: step_okD\<close>)

text \<open>\<open>tcp_socket_connect\<close> on an idle channel, when the library can start connections.\<close>

lemma connect_cases [consumes 4, case_names failed connecting]:
  fixes w :: "('e, 'p) world"
  assumes c: "channels w c = Some Y" "ch_io Y = None" and env: "env_ok L" and bevs: "unused (fresh w) (bevs w)"
  obtains bs F fs where "tcp_socket_connect L c sa w = Some (IO_CHANNEL_E_ERROR, w\<lparr>answers := bs, fresh := F, fds := fs\<rparr>)"
      "fresh w \<le> F"
  | bs F fs e b fd where "tcp_socket_connect L c sa w = Some (IO_CHANNEL_E_AGAIN, w\<lparr>answers := bs, fresh := F, ext := e, fds := fs,
       bevs := (bevs w)(b \<mapsto> \<lparr>bev_fd = fd, bev_arg = Some c, bev_high_wm = TCP_SOCKET_READ_HIGH_WM\<rparr>),
       channels := (channels w)(c \<mapsto> Y\<lparr>ch_io := Some b\<rparr>)\<rparr>)" "fresh w \<le> b" "b < F"
proof -
  note d = tcp_socket_connect_def new_socket_def bufferevent_socket_new_def connect_error_def
    evutil_closesocket_def set_channel_def new_addr_if Let_def tcp_socket_config_ok ask_if fun_upd_idem
  have nb: "bevs w (Suc (fresh w)) = None" using bevs by (simp add: unused_def)
  have Y: "Y\<lparr>ch_io := None\<rparr> = Y" using c(2) by simp
  obtain r e where con: "bufferevent_socket_connect L (Suc (fresh w)) sa (ext w) = (r, e)" by fastforce
  then have r: "\<not> r < 0" using env by (metis env_ok_def fst_conv not_less)
  consider "\<not> answer 0 w" | "answer 0 w" "this_ebase w = None" | eb where "answer 0 w" "this_ebase w = Some eb" "\<not> answer 1 w"
    | eb where "answer 0 w" "this_ebase w = Some eb" "answer 1 w" "\<not> answer 2 w"
    | eb where "answer 0 w" "this_ebase w = Some eb" "answer 1 w" "answer 2 w" by blast
  then show thesis
  proof cases
    case 1
    show thesis by (rule that(1) [where bs = "tl (answers w)" and F = "fresh w" and fs = "fds w"]) (use 1 c in \<open>simp_all add: d\<close>)
  next
    case 2
    show thesis
      by (rule that(1) [where bs = "tl (answers w)" and F = "Suc (fresh w)" and fs = "fds w - {fresh w}"]) (use 2 c in \<open>simp_all add: d\<close>)
  next
    case 3
    show thesis
      by (rule that(1) [where bs = "tl (tl (answers w))" and F = "Suc (fresh w)" and fs = "fds w - {fresh w}"]) (use 3 c in \<open>simp_all add: d\<close>)
  next
    case 4
    show thesis
      by (rule that(1) [where bs = "tl (tl (tl (answers w)))" and F = "Suc (Suc (fresh w))" and fs = "fds w - {fresh w}"])
         (use 4 c nb Y in \<open>simp_all add: d numeral_2_eq_2\<close>)
  next
    case 5
    show thesis
      by (rule that(2) [where bs = "tl (tl (tl (answers w)))" and F = "Suc (Suc (fresh w))" and e = e and fs = "insert (fresh w) (fds w)" and b = "Suc (fresh w)" and fd = "fresh w"])
         (use 5 c nb con r in \<open>simp_all add: d numeral_2_eq_2\<close>)
  qed
qed

text \<open>New objects that no slot uses.\<close>

lemma core_idle:
  assumes core: "core w" and c: "fresh w \<le> c" "c < F" and h: "fresh w \<le> h" "h < F" "\<And>X. x = Some X \<Longrightarrow> hs_body X = None"
  shows "core (w\<lparr>answers := bs, fresh := F, fds := fs, channels := (channels w)(c := y), hsessions := (hsessions w)(h := x)\<rparr>)"
proof -
  note C = coreD [OF core]
  have le: "fresh w \<le> F" using c by simp
  have nc: "channels w c = None" "hsessions w h = None" using C(1) c h by (simp_all add: fresh_ok_def unused_def)
  have ok1: "http_ok (sessions w) (hsessions w) (bodies w) ((channels w)(c := y)) (bevs w)"
    by (rule http_ok_idle_channel [OF C(3)]) (simp add: nc)
  have "\<not> slot (sessions w) a i h" for a i using slot_live [OF C(3)] nc(2) by blast
  from http_ok_idle_hs [OF ok1 this h(3)]
  have "http_ok (sessions w) ((hsessions w)(h := x)) (bodies w) ((channels w)(c := y)) (bevs w)" .
  moreover have "lst_ok (listeners w) ((channels w)(c := y))" by (rule lst_ok_channel [OF C(7)]) (simp add: nc)
  moreover have "unused F (m(p := z))" if "unused F m" "p < F" for m :: "addr \<rightharpoonup> 'x" and p z
    using that by (simp add: unused_def)
  moreover have "fresh_ok (w\<lparr>fresh := F\<rparr>)" by (rule fresh_ok_mono [OF C(1) le])
  then have "fresh_ok (w\<lparr>answers := bs, fresh := F, fds := fs, channels := (channels w)(c := y), hsessions := (hsessions w)(h := x)\<rparr>)"
    using c h by (simp add: fresh_ok_def unused_def)
  ultimately show ?thesis using C(2,4-6) by (simp add: core_def)
qed

lemma step_frame:
  assumes "core w'" "svc_ok w" "same_env w w'" "sessions w' = sessions w" "dns_requests w' = dns_requests w"
    "\<And>b i h. slot (sessions w) b i h \<Longrightarrow> hsessions w' h = hsessions w h"
  shows "step_ok a w w'"
  using svc_ok_mono [OF assms(2,3)] assms by (simp add: step_ok_def others_def same_env_def)

lemma step_idle:
  assumes core: "core w" and svc: "svc_ok w" and c: "fresh w \<le> c" "c < F" and h: "fresh w \<le> h" "h < F" "\<And>X. x = Some X \<Longrightarrow> hs_body X = None"
  shows "step_ok a w (w\<lparr>answers := bs, fresh := F, fds := fs, channels := (channels w)(c := y), hsessions := (hsessions w)(h := x)\<rparr>)"
proof (rule step_frame [OF core_idle [OF core c h] svc])
  fix b i k assume "slot (sessions w) b i k"
  then have "hsessions w k \<noteq> None" by (rule slot_live [OF coreD(3) [OF core]])
  then have "k \<noteq> h" using coreD(1) [OF core] h(1) by (auto simp: fresh_ok_def unused_def)
  then show "hsessions (w\<lparr>answers := bs, fresh := F, fds := fs, channels := (channels w)(c := y), hsessions := (hsessions w)(h := x)\<rparr>) k = hsessions w k"
    by simp
qed (simp_all add: same_env_def)

text \<open>A new HTTP session with its channel and bufferevent is put in an empty slot.\<close>

lemma core_fill:
  assumes core: "core w" and s: "sessions w a = Some s" "ss_http s ! i = None" "i < 3"
    and s': "ss_http s' = (ss_http s)[i := Some h]" "same_refs s s'"
    and n: "hsessions w h = None" "channels w c = None" "bevs w b = None"
    and new: "fresh w \<le> fresh w'" "h < fresh w'" "c < fresh w'" "b < fresh w'"
    and w': "sessions w' = (sessions w)(a \<mapsto> s')" "hsessions w' = (hsessions w)(h \<mapsto> X)" "channels w' = (channels w)(c \<mapsto> Y)"
      "bevs w' = (bevs w)(b \<mapsto> B)" "bodies w' = bodies w" "strs w' = strs w" "refs w' = refs w"
      "dns_requests w' = dns_requests w" "resolving w' = resolving w" "listeners w' = listeners w"
    and X: "hs_master X = a" "hs_cbs X = slot_callbacks i" "hs_channel X = Some c" "hs_body X = None"
    and Y: "ch_ctx Y = Some h" "ch_service Y = Some Http_session_io_service" "\<not> ch_listen Y" "ch_io Y = Some b" "bev_arg B = Some c"
  shows "core w'"
proof -
  note C = coreD [OF core]
  have len: "length (ss_http s) = 3" using C(2) s(1) by (simp add: len_ok_def)
  let ?K = "\<lparr>co_hs = X, co_ca = c, co_ch = Y, co_ba = b, co_bev = B\<rparr>"
  have "http_ok ((sessions w)(a \<mapsto> s')) ((hsessions w)(h \<mapsto> X)) (bodies w) ((channels w)(c \<mapsto> Y)) ((bevs w)(b \<mapsto> B))"
  proof (rule http_ok_fill [OF C(3) s(1) len s(2,3) s'(1)])
    show "\<not> slot (sessions w) a i h" for a i using slot_live [OF C(3)] n(1) by blast
    show "co_ca K \<noteq> c \<and> co_ba K \<noteq> b" if "chain (hsessions w) (bodies w) (channels w) (bevs w) a i k K" for a i k K
      using that n by (auto simp: chain_def)
    show "chain ((hsessions w)(h \<mapsto> X)) (bodies w) ((channels w)(c \<mapsto> Y)) ((bevs w)(b \<mapsto> B)) a i h ?K"
      using X Y by (simp add: chain_def)
  qed (use X in simp_all)
  moreover have "lst_ok (listeners w) ((channels w)(c \<mapsto> Y))" by (rule lst_ok_channel [OF C(7)]) (simp add: n)
  moreover have "strs_ok ((sessions w)(a \<mapsto> s')) (strs w)" by (rule strs_ok_same [OF C(4) s(1)]) (use s'(2) in \<open>simp_all add: same_refs_def\<close>)
  moreover have "refs_ok ((sessions w)(a \<mapsto> s')) (refs w) (dns_requests w)"
    by (rule refs_ok_same [OF C(5) s(1)]) (use s'(2) in \<open>simp add: same_refs_def\<close>)
  moreover have "fresh_ok (w\<lparr>fresh := fresh w'\<rparr>)" by (rule fresh_ok_mono [OF C(1) new(1)])
  then have "fresh_ok w'"
    using new s(1) by (simp add: fresh_ok_def w' unused_put unused_upd)
  moreover have "len_ok ((sessions w)(a \<mapsto> s'))" using C(2) len s'(1) by (simp add: len_ok_def)
  ultimately show ?thesis using C(6) by (simp add: core_def w')
qed

lemma http_server_connect_runs:
  assumes env: "env_ok L" and core: "core w" and svc: "svc_ok w" and s: "sessions w a = Some s"
    and laws: "parser_laws L ph" and logic: "logic ph n (hsessions w) (dns_requests w) s"
    and i: "i \<in> {NAME, JOKE}" "ss_http s ! i = None" "\<not> replied s i" "ss_me s = Some r" "\<not> pending (dns_requests w) r i"
    and n: "n < 2 ^ 31 - 1"
  shows "runs (http_server_connect L a sa i w) (keeps_going ph (n + 1) a w)"
proof -
  note C = coreD [OF core]
  let ?c = "fresh w"
  let ?h = "Suc ?c"
  let ?Y = "\<lparr>ch_service = Some Http_session_io_service, ch_eof = False, ch_ctx = Some ?h, ch_io = None, ch_listen = False\<rparr>"
  let ?X = "\<lparr>hs_master = a, hs_state = HTTP_MESSAGE_BEGIN, hs_len = 0, hs_parser = http_parser_init L HTTP_RESPONSE,
      hs_body = None, hs_channel = Some ?c, hs_cbs = no_callbacks\<rparr>"
  have i3: "i < 3" "i \<noteq> CLIENT" using i(1) slot_indices by auto
  note d = http_server_connect_def tcp_socket_new_def set_channel_def new_addr_if http_session_new_def set_hs_def
  consider (nochan) "\<not> answer 0 w" | (nohs) "answer 0 w" "\<not> answer 1 w" | (made) "answer 0 w" "answer 1 w" by blast
  then show ?thesis
  proof cases
    case nochan
    let ?w = "w\<lparr>answers := tl (answers w)\<rparr>"
    have "step_ok a w ?w" using core svc by (simp add: step_ok_def others_def svc_ok_def)
    from connect_failed_from [OF this, of s] nochan s show ?thesis by (simp add: d)
  next
    case nohs
    let ?w = "w\<lparr>answers := tl (tl (answers w)), fresh := ?h, channels := (channels w)(?c := None)\<rparr>"
    have "step_ok a w (w\<lparr>answers := tl (tl (answers w)), fresh := ?h, fds := fds w, channels := (channels w)(?c := None),
        hsessions := (hsessions w)(?c := None)\<rparr>)" by (rule step_idle [OF core svc]) simp_all
    moreover have "hsessions w ?c = None" using C(1) by (simp add: fresh_ok_def unused_def)
    ultimately have st: "step_ok a w ?w" by (simp add: fun_upd_idem)
    have "http_server_connect L a sa i w = connect_failed a ?w"
      using nohs by (simp add: d channel_free_def tcp_socket_free_def)
        (rule arg_cong [where f = "connect_failed a"], rule world.equality; simp)
    with connect_failed_from [OF st, of s] s show ?thesis by simp
  next
    case made
    let ?w2 = "w\<lparr>answers := tl (tl (answers w)), fresh := Suc ?h, channels := (channels w)(?c \<mapsto> ?Y), hsessions := (hsessions w)(?h \<mapsto> ?X)\<rparr>"
    have new: "tcp_socket_new w = (Some ?c, w\<lparr>answers := tl (answers w), fresh := ?h, channels := (channels w)(?c \<mapsto> ?Y\<lparr>ch_service := None, ch_ctx := None\<rparr>)\<rparr>)"
      using made by (simp add: d)
    have hs: "http_session_new L a (Some ?c) HTTP_RESPONSE (w\<lparr>answers := tl (answers w), fresh := ?h,
        channels := (channels w)(?c \<mapsto> ?Y\<lparr>ch_service := None, ch_ctx := None\<rparr>)\<rparr>) = Some (Some ?h, ?w2)"
      using made by (simp add: d)
    have c2: "channels ?w2 ?c = Some ?Y" "ch_io ?Y = None" "unused (fresh ?w2) (bevs ?w2)"
      using C(1) by (simp_all add: fresh_ok_def unused_def)
    have run0: "http_server_connect L a sa i w = do {
        (err, w3) \<leftarrow> tcp_socket_connect L ?c sa ?w2;
        if err = IO_CHANNEL_E_ERROR then do { w4 \<leftarrow> http_session_free (Some ?h) w3; connect_failed a w4 }
        else do {
          s \<leftarrow> sessions w3 a;
          n \<leftarrow> c_int (ss_pending_connections s + 1);
          if i < length (ss_http s)
          then do {
            w4 \<leftarrow> upd_session a (\<lambda>s. s\<lparr>ss_http := (ss_http s)[i := Some ?h], ss_pending_connections := n\<rparr>) w3;
            http_session_callbacks_set ?h (upstream_callbacks i) w4 }
          else None } }"
      using new hs by (simp add: http_server_connect_def channel_connect_def)
    from c2(1,2) env c2(3) show ?thesis
    proof (cases rule: connect_cases [where sa = sa])
      case (failed bs F fs)
      let ?w4 = "w\<lparr>answers := bs, fresh := F, fds := fs, channels := (channels w)(?c := None), hsessions := (hsessions w)(?h := None)\<rparr>"
      let ?w3 = "?w2\<lparr>answers := bs, fresh := F, fds := fs\<rparr>"
      have "http_session_free (Some ?h) ?w3 = Some ?w4"
        by (simp add: http_session_free_def channel_free_def tcp_socket_free_def)
      then have "http_server_connect L a sa i w = connect_failed a ?w4" using run0 failed(1) by simp
      moreover have "step_ok a w ?w4" by (rule step_idle [OF core svc]) (use failed(2) in simp_all)
      ultimately show ?thesis using connect_failed_from [of a w ?w4 s] s by simp
    next
      case (connecting bs F fs e b fd)
      let ?B = "\<lparr>bev_fd = fd, bev_arg = Some ?c, bev_high_wm = TCP_SOCKET_READ_HIGH_WM\<rparr>"
      let ?w3 = "?w2\<lparr>answers := bs, fresh := F, ext := e, fds := fs, bevs := (bevs ?w2)(b \<mapsto> ?B),
         channels := (channels ?w2)(?c \<mapsto> ?Y\<lparr>ch_io := Some b\<rparr>)\<rparr>"
      let ?s' = "s\<lparr>ss_http := (ss_http s)[i := Some ?h], ss_pending_connections := ss_pending_connections s + 1\<rparr>"
      let ?X' = "?X\<lparr>hs_cbs := upstream_callbacks i\<rparr>"
      let ?w5 = "set_hs ?h ?X' (?w3\<lparr>sessions := (sessions w)(a \<mapsto> ?s')\<rparr>)"
      have len: "length (ss_http s) = 3" using C(2) s by (simp add: len_ok_def)
      have c: "int_ok (ss_pending_connections s + 1)" using logicD(5) [OF logic] n by (auto simp: counters_ok_def int_ok_def)
      have run: "http_server_connect L a sa i w = Some ?w5"
        using run0 connecting(1) s c len i3 by (simp add: upd_session_def http_session_callbacks_set_def)
      have "core ?w5"
        by (rule core_fill [OF core s i(2) i3(1), where s' = ?s' and h = ?h and c = ?c and b = b and X = ?X' and Y = "?Y\<lparr>ch_io := Some b\<rparr>" and B = ?B])
           (use connecting(2,3) i3 C(1) in \<open>simp_all add: same_refs_def set_hs_def slot_callbacks_def fresh_ok_def unused_def\<close>)
      then have st: "step_ok a w ?w5"
      proof (unfold step_ok_def, intro conjI)
        show "svc_ok ?w5" by (rule svc_ok_mono [OF svc]) (use s in \<open>auto simp: same_env_def set_hs_def\<close>)
        have "k \<noteq> ?h" if "slot (sessions w) b j k" for b j k
          using slot_live [OF C(3) that] C(1) by (auto simp: fresh_ok_def unused_def)
        then show "others a w ?w5" by (auto simp: others_def set_hs_def)
      qed (simp_all add: set_hs_def)
      have nh: "hsessions w ?h = None" using C(1) by (simp add: fresh_ok_def unused_def)
      have slot: "ss_http ?s' ! j = (if j = i then Some ?h else ss_http s ! j)" if "j < 3" for j
        using that len i3 by (simp add: nth_list_update)
      have "slots_good ph (hsessions ?w5) ?s'"
        unfolding slots_good_def
      proof (intro conjI allI impI)
        show "ss_http ?s' ! CLIENT \<noteq> None" using slot [OF slot_indices(3)] i3 logicD(1) [OF logic] by (simp add: slots_good_def)
        fix j k Z assume j: "j < 3" "ss_http ?s' ! j = Some k" "hsessions ?w5 k = Some Z"
        show "hs_good ph Z"
        proof (cases "k = ?h")
          case True
          with j(3) show ?thesis using parser_lawsD(1) [OF laws]
            by (simp add: set_hs_def hs_good_def body_ok_def state_phase_def) (auto simp: hs_good_def body_ok_def state_phase_def)
        next
          case False
          then have "ss_http s ! j = Some k" "hsessions w k = Some Z" using j slot [OF j(1)] by (auto simp: set_hs_def split: if_splits)
          then show ?thesis using slots_goodD(1) [OF logicD(1) [OF logic] j(1)] by blast
        qed
        show "if j = CLIENT then hs_state Z \<noteq> HTTP_MESSAGE_COMPLETE \<longrightarrow> ss_me ?s' = None else hs_state Z \<noteq> HTTP_MESSAGE_COMPLETE"
        proof (cases "j = i")
          case True
          then have "k = ?h" using j slot [OF j(1)] by simp
          then have "Z = ?X'" using j(3) by (simp add: set_hs_def)
          with True i3 show ?thesis by simp
        next
          case False
          then have old: "ss_http s ! j = Some k" using j slot [OF j(1)] by simp
          then have "slot (sessions w) a j k" using s j(1) by (simp add: slot_def)
          then have "hsessions w k \<noteq> None" by (rule slot_live [OF C(3)])
          then have "hsessions w k = Some Z" using j(3) nh by (auto simp: set_hs_def split: if_splits)
          from slots_goodD(2,3) [OF logicD(1) [OF logic] j(1) old this] show ?thesis by auto
        qed
      qed
      moreover have "upstream_ok (dns_requests w) ?s' j" if j: "j \<in> {NAME, JOKE}" for j
      proof (cases "j = i")
        case True
        then show ?thesis using i by (auto simp: upstream_ok_def replied_def)
      next
        case False
        then have "ss_http ?s' ! j = ss_http s ! j" using slot [of j] j slot_indices by auto
        then show ?thesis using logicD(2,3) [OF logic] j by (auto simp: upstream_ok_def replied_def)
      qed
      moreover have "strings_ok ?s'" using logicD(4) [OF logic] by (simp add: strings_ok_def)
      moreover have "counters_ok (n + 1) ?s'" using logicD(5) [OF logic] by (auto simp: counters_ok_def)
      ultimately have "mine ph (n + 1) a ?w5" by (simp add: mine_def logic_def set_hs_def)
      with run st show ?thesis by (simp add: keeps_going_def)
    qed
  qed
qed

subsection \<open>A resolved name\<close>

lemma dns_ok_unqueue: "dns_ok D R Q \<Longrightarrow> dns_ok D R (Q(q := None))"
  unfolding dns_ok_def by (auto split: if_splits)

lemma core_unqueue: "core w \<Longrightarrow> core (w\<lparr>resolving := (resolving w)(q := None)\<rparr>)"
  by (simp add: core_def fresh_ok_def dns_ok_unqueue)

text \<open>The DNS request is released, with the weak reference it held.\<close>

definition answered_dns :: "addr \<Rightarrow> nat \<Rightarrow> ('e, 'p) world \<Rightarrow> ('e, 'p) world \<Rightarrow> bool" where
  "answered_dns r i w w' \<longleftrightarrow> core w' \<and> svc_ok w' \<and> sessions w' = sessions w \<and> hsessions w' = hsessions w \<and>
     this_dns w' = this_dns w \<and> listeners w' = listeners w \<and>
     (\<forall>r' i'. pending (dns_requests w') r' i' \<longleftrightarrow> pending (dns_requests w) r' i' \<and> \<not> (r' = r \<and> i' = i))"

lemma dns_answer:
  assumes core: "core w" and svc: "svc_ok w" and d: "dns_requests w d = Some Y" and Q: "\<And>q. resolving w q \<noteq> Some d"
  obtains r X w1 where "dr_session Y = Some r" "refs w r = Some X" "dr_idx Y \<in> {NAME, JOKE}"
    "dns_request_free (Some d) (w\<lparr>dns_requests := (dns_requests w)(d \<mapsto> Y\<lparr>dr_evdns_req := None\<rparr>)\<rparr>) = Some w1"
    "answered_dns r (dr_idx Y) w w1"
proof -
  note C = coreD [OF core]
  obtain r X where r: "dr_session Y = Some r" "refs w r = Some X" using dns_okD(2) [OF C(6) d] by blast
  have i: "dr_idx Y \<in> {NAME, JOKE}" using dns_okD(1) [OF C(6) d] .
  have wk: "int_ok (weak_refcnt X - 1)" using refs_okD(2) [OF C(5) r(2)] by (auto simp: weak_holders_def int_ok_def)
  define R where "R = (refs w)(r := if weak_refcnt X = 1 \<and> ref_ptr X = None then None else Some (X\<lparr>weak_refcnt := weak_refcnt X - 1\<rparr>))"
  let ?w1 = "w\<lparr>dns_requests := (dns_requests w)(d := None), refs := R\<rparr>"
  have run: "dns_request_free (Some d) (w\<lparr>dns_requests := (dns_requests w)(d \<mapsto> Y\<lparr>dr_evdns_req := None\<rparr>)\<rparr>) = Some ?w1"
    using r wk by (auto simp: dns_request_free_def reference_weak_dec_def Let_def R_def)
  have "refs_ok (sessions w) R ((dns_requests w)(d := None))" by (rule refs_ok_answered [OF C(5,6) d r R_def])
  moreover have "dns_ok ((dns_requests w)(d := None)) R (resolving w)" by (rule dns_ok_answered [OF C(5,6) d r Q R_def])
  moreover have "unused (fresh w) R" using C(1) r(2) by (simp add: R_def fresh_ok_def unused_upd)
  ultimately have "core ?w1" using C by (simp add: core_def fresh_ok_def)
  moreover have "svc_ok ?w1" by (rule svc_ok_mono [OF svc]) (auto simp: same_env_def)
  moreover have "pending ((dns_requests w)(d := None)) r' i' \<longleftrightarrow> pending (dns_requests w) r' i' \<and> \<not> (r' = r \<and> i' = dr_idx Y)" for r' i'
    by (rule pending_gone [OF C(6) d r(1) refl])
  ultimately have "answered_dns r (dr_idx Y) w ?w1" by (simp add: answered_dns_def)
  with run r i show ?thesis by (intro that)
qed

lemma logic_answered:
  assumes "logic ph n (hsessions w) (dns_requests w) s" "answered_dns r i w w'"
  shows "logic ph n (hsessions w') (dns_requests w') s"
  using assms by (auto simp: logic_def upstream_ok_def answered_dns_def)

lemma dnsname_resolved_cb_runs:
  assumes env: "env_ok L" and laws: "parser_laws L ph" and core: "core w" and svc: "svc_ok w"
    and d: "dns_requests w d = Some Y" and Q: "\<And>q. resolving w q \<noteq> Some d"
    and logic: "\<And>a s. sessions w a = Some s \<Longrightarrow> logic ph n (hsessions w) (dns_requests w) s" and n: "n < 2 ^ 31 - 2"
  shows "runs (dnsname_resolved_cb L res d w)
    (\<lambda>w'. (\<exists>a s. sessions w a = Some s \<and> keeps_going ph (n + 2) a w w') \<or>
          core w' \<and> svc_ok w' \<and> sessions w' = sessions w \<and> this_dns w' = this_dns w \<and> listeners w' = listeners w \<and>
          (\<forall>a s. sessions w a = Some s \<longrightarrow> logic ph n (hsessions w') (dns_requests w') s))"
proof -
  from core svc d Q obtain r X w1 where 1: "dr_session Y = Some r" "refs w r = Some X" "dr_idx Y \<in> {NAME, JOKE}"
    "dns_request_free (Some d) (w\<lparr>dns_requests := (dns_requests w)(d \<mapsto> Y\<lparr>dr_evdns_req := None\<rparr>)\<rparr>) = Some w1"
    "answered_dns r (dr_idx Y) w w1" by (rule dns_answer)
  have w1: "core w1" "svc_ok w1" "sessions w1 = sessions w" "hsessions w1 = hsessions w" "this_dns w1 = this_dns w" "listeners w1 = listeners w"
    using 1(5) by (simp_all add: answered_dns_def)
  have all: "\<forall>a s. sessions w a = Some s \<longrightarrow> logic ph n (hsessions w1) (dns_requests w1) s"
    using logic_answered [OF logic 1(5)] by blast
  have get: "reference_get (dr_session Y) w = Some (ref_ptr X)" using 1 by (simp add: reference_get_def)
  show ?thesis
  proof (cases "ref_ptr X")
    case None
    then have "dnsname_resolved_cb L res d w = Some w1" using d get 1(4) by (simp add: dnsname_resolved_cb_def)
    with w1 all show ?thesis by simp
  next
    case (Some a)
    obtain s where s: "sessions w a = Some s" "ss_me s = Some r"
      using refs_okD(4) [OF coreD(5) [OF core] 1(2) Some] by blast
    let ?i = "dr_idx Y"
    have st1: "step_ok a w w1"
      using w1 1(5) me_other [OF core s] by (auto simp: step_ok_def others_def answered_dns_def)
    have p: "pending (dns_requests w) r ?i" using d 1(1) by (auto simp: pending_def)
    have up: "ss_http s ! ?i = None" "\<not> replied s ?i"
      using logicD(2,3) [OF logic [OF s(1)]] 1(3) s(2) p by (auto simp: upstream_ok_def)
    have np: "\<not> pending (dns_requests w1) r ?i" using 1(5) by (simp add: answered_dns_def)
    have L1: "logic ph n (hsessions w1) (dns_requests w1) s" using all s(1) by blast
    show ?thesis
    proof (cases "case res of Gai_error e \<Rightarrow> None | Gai_addrs ais \<Rightarrow> find_address ais")
      case None
      have "dnsname_resolved_cb L res d w = session_state_set a ERROR_RESOLVING_DOMAIN w1 \<bind> http_service_session_remove a"
        using d get 1(4) Some None by (simp add: dnsname_resolved_cb_def)
      moreover have "runs (session_state_set a ERROR_RESOLVING_DOMAIN w1 \<bind> http_service_session_remove a) (keeps_going ph (n + 2) a w1)"
        by (rule state_remove [OF w1(1,2)]) (simp add: w1(3) s(1))
      ultimately have "runs (dnsname_resolved_cb L res d w) (keeps_going ph (n + 2) a w)"
        using runs_keeps_going [OF st1] by simp
      then show ?thesis by (rule runs_mono) (use s(1) in blast)
    next
      case ai: (Some ai)
      let ?s = "s\<lparr>ss_pending_resolutions := ss_pending_resolutions s - 1\<rparr>"
      let ?w2 = "w1\<lparr>sessions := (sessions w1)(a \<mapsto> ?s)\<rparr>"
      have c: "int_ok (ss_pending_resolutions s - 1)" using logicD(5) [OF L1] n by (auto simp: counters_ok_def int_ok_def)
      have run: "dnsname_resolved_cb L res d w = http_server_connect L a (ai\<lparr>sa_port := 80\<rparr>) ?i ?w2"
        using d get 1(4) Some ai c s(1) w1(3) by (simp add: dnsname_resolved_cb_def upd_session_def)
      have st2: "step_ok a w1 ?w2" by (rule step_session [OF w1(1,2)]) (simp_all add: w1(3) s(1))
      have st: "step_ok a w ?w2" by (rule step_ok_trans [OF st1 st2])
      have "mine ph (n + 1) a ?w2"
        by (rule mine_same [OF L1, where s' = ?s]) (use logicD(5) [OF L1] in \<open>auto simp: counters_ok_def\<close>)
      then have L2: "logic ph (n + 1) (hsessions ?w2) (dns_requests ?w2) ?s" by (simp add: mine_def)
      have "runs (http_server_connect L a (ai\<lparr>sa_port := 80\<rparr>) ?i ?w2) (keeps_going ph (n + 1 + 1) a ?w2)"
        by (rule http_server_connect_runs [OF env _ _ _ laws L2 1(3)])
           (use st up np s(2) n in \<open>simp_all add: step_ok_def replied_def split: if_splits\<close>)
      from runs_keeps_going [OF st this]
      have "runs (dnsname_resolved_cb L res d w) (keeps_going ph (n + 2) a w)"
        by (simp only: run add.assoc one_add_one)
      then show ?thesis by (rule runs_mono) (use s(1) in blast)
    qed
  qed
qed

end
