(* ===== verification/Scripted.thy ===== *)
theory Scripted
  imports Session_Safety
begin

section \<open>A library to run whole sessions with\<close>

text \<open>
  Instances of the parameters with which the program serves a client from end to end: buffers
  are lists of bytes, the resolver always queues, jansson finds the strings a script tells, and
  the parser reads a toy format with http\_parser's order of callbacks, its pauses and its
  errors: one byte starts a message, one ends its head, one follows the head, and the rest is
  the body. It satisfies \<open>evbuffer_laws\<close>, \<open>parser_laws\<close> and \<open>env_ok\<close>, so these assumptions
  can hold together. Nothing here is a model of http\_parser.
\<close>

subsection \<open>The parser\<close>

text \<open>The states: 0 before a message, 1 in the head, 2 after it, 3 in the body, 4 failed.\<close>

definition errno :: "bool \<Rightarrow> http_errno" where
  "errno paused = (if paused then HPE_PAUSED else HPE_OK)"

definition toy_execute :: "nat \<Rightarrow> string \<Rightarrow> nat prun" where
  "toy_execute p s =
     (if 4 \<le> p then Returns 0 HPE_OTHER 4
      else if s = [] then Returns 0 HPE_OK p
      else if p = 0 then Calls On_message_begin (\<lambda>(r, b). if r \<noteq> 0 then Returns 0 HPE_OTHER 4 else Returns 1 (errno b) 1)
      else if p = 1 then Calls On_headers_complete (\<lambda>(r, b). if r \<noteq> 0 then Returns 0 HPE_OTHER 4 else Returns 1 (errno b) 2)
      else if p = 2 then Returns 1 HPE_OK 3
      else Calls (On_body s) (\<lambda>(r, b).
        if r \<noteq> 0 then Returns 0 HPE_OTHER 4 else if b then Returns (length s) HPE_PAUSED 3
        else Calls On_message_complete (\<lambda>(r, b). if r \<noteq> 0 then Returns 0 HPE_OTHER 4 else Returns (length s) (errno b) 0)))"

definition toy_phase :: "nat \<Rightarrow> nat" where
  "toy_phase p = (if 4 \<le> p then 4 else if p = 3 then 2 else p)"

subsection \<open>The library\<close>

type_synonym buffers = "evbuf \<Rightarrow> string"

definition scripted :: "(buffers, nat) lib" where
  "scripted = \<lparr>evbuffer_add = list_add, evbuffer_add_printf = list_add, evbuffer_add_reference = list_add,
     evbuffer_drain = (\<lambda>b n e. (0, e(b := drop n (e b)))), evbuffer_get_length = (\<lambda>b e. length (e b)),
     evbuffer_ptr_set = (\<lambda>b n e. if n \<le> length (e b) then 0 else -1),
     evbuffer_peek = (\<lambda>b n e. if n < length (e b) then [drop n (e b)] else []),
     evbuffer_pullup = (\<lambda>b e. Some (e b)),
     bufferevent_read = (\<lambda>b n e. (take n (e (Input b)), e(Input b := drop n (e (Input b))))),
     bufferevent_write = (\<lambda>b s e. list_add (Output b) s e), bufferevent_flush = (\<lambda>b e. (0, e)),
     bufferevent_socket_connect = (\<lambda>b sa e. (0, e)),
     bufferevent_getwatermark = (\<lambda>b e. 0), http_parser_init = (\<lambda>t. 0),
     http_parser_execute = toy_execute, http_parser_unpause = (\<lambda>p. p),
     json_loadb = (\<lambda>s. True),
     json_unpack = (\<lambda>s fs. Some (if length fs = 1 then [''Eduardo Panisset codes.''] else map (\<lambda>f. ''Ann'') fs)),
     evdns_getaddrinfo = (\<lambda>s e. (Gai_pending, e)),
     gmtime = (\<lambda>e. Some \<lparr>tm_wday = 4, tm_mday = 1, tm_mon = 0, tm_year = 1970, tm_hour = 0,
                        tm_min = 0, tm_sec = 0\<rparr>)\<rparr>"

lemma scripted_parser: "parser_laws scripted toy_phase"
  by (auto simp: parser_laws_def scripted_def toy_execute_def toy_phase_def errno_def cb_phase_def cb_next_def)

lemma scripted_env: "env_ok scripted"
  by (auto simp: env_ok_def scripted_def split: if_splits)

lemma scripted_buffers: "evbuffer_laws scripted (\<lambda>b e. e b)"
  by (auto simp: evbuffer_laws_def scripted_def appends_def list_add_def)

end
