(* ===== verification/Safety.thy ===== *)
theory Safety
  imports Reply_Safety Scripted
begin

section \<open>The event loop keeps the invariant: no undefined behaviour\<close>

text \<open>
  \<open>inv\<close> is the invariant of the whole service: the ownership discipline \<open>core\<close>, the list of
  sessions, and \<open>logic\<close> for every session. It is shown that handling any event libevent delivers
  returns (no access to freed memory, no double free, no overflow of a counter, no endless
  loop) and keeps it, under the assumptions \<open>env_ok\<close>, \<open>parser_laws\<close> and \<open>event_ok\<close>.
\<close>

subsection \<open>The invariant\<close>

definition inv :: "(addr \<rightharpoonup> listener) \<Rightarrow> ('p \<Rightarrow> nat) \<Rightarrow> int \<Rightarrow> ('e, 'p) world \<Rightarrow> bool" where
  "inv lst ph n w \<longleftrightarrow> core w \<and> svc_ok w \<and> this_dns w \<noteq> None \<and> listeners w = lst \<and>
     (\<forall>a s. sessions w a = Some s \<longrightarrow> logic ph n (hsessions w) (dns_requests w) s)"

lemma invD:
  assumes "inv lst ph n w"
  shows "core w" "svc_ok w" "this_dns w \<noteq> None"
    "sessions w a = Some s \<Longrightarrow> logic ph n (hsessions w) (dns_requests w) s" "listeners w = lst"
  using assms by (simp_all add: inv_def)

text \<open>\<open>logic\<close> looks at the HTTP sessions in the slots and at the requests of the session only.\<close>

lemma logic_frame:
  assumes logic: "logic ph n H D s" and H: "\<And>i h. i < 3 \<Longrightarrow> ss_http s ! i = Some h \<Longrightarrow> H' h = H h"
    and D: "\<And>r i. ss_me s = Some r \<Longrightarrow> pending D' r i = pending D r i"
  shows "logic ph n H' D' s"
proof -
  have "slots_good ph H' s" unfolding slots_good_def
  proof (intro conjI allI impI)
    fix i h X assume i: "i < 3" "ss_http s ! i = Some h" "H' h = Some X"
    then have "H h = Some X" using H by simp
    note G = slots_goodD [OF logicD(1) [OF logic] i(1,2) this]
    show "hs_good ph X" by (rule G(1))
    show "if i = CLIENT then hs_state X \<noteq> HTTP_MESSAGE_COMPLETE \<longrightarrow> ss_me s = None else hs_state X \<noteq> HTTP_MESSAGE_COMPLETE"
      using G(2,3) by auto
  qed (use logicD(1) [OF logic] in \<open>simp add: slots_good_def\<close>)
  moreover have "upstream_ok D' s i = upstream_ok D s i" for i using D by (auto simp: upstream_ok_def)
  ultimately show ?thesis using logic by (simp add: logic_def)
qed

lemma inv_step:
  assumes inv: "inv lst ph n w" and step: "keeps_going ph m a w w'" and le: "n \<le> m"
  shows "inv lst ph m w'"
proof -
  have st: "step_ok a w w'" "mine ph m a w'" using step by (simp_all add: keeps_going_def)
  have oth: "others a w w'" using st(1) by (simp add: step_ok_def)
  have "logic ph m (hsessions w') (dns_requests w') s" if s: "sessions w' b = Some s" for b s
  proof (cases "b = a")
    case True
    with s st(2) show ?thesis by (simp add: mine_def)
  next
    case False
    then have s0: "sessions w b = Some s" using s oth by (simp add: others_def)
    show ?thesis
    proof (rule logic_frame [OF logic_mono [OF invD(4) [OF inv s0] le]])
      fix i h assume "i < 3" "ss_http s ! i = Some h"
      then have "slot (sessions w) b i h" using s0 by (simp add: slot_def)
      with False oth show "hsessions w' h = hsessions w h" unfolding others_def by blast
    next
      fix r i assume "ss_me s = Some r"
      with False s0 oth show "pending (dns_requests w') r i = pending (dns_requests w) r i" unfolding others_def by blast
    qed
  qed
  then show ?thesis using st(1) oth invD(3,5) [OF inv] by (simp add: inv_def step_ok_def others_def)
qed

subsection \<open>Reading\<close>

lemma slot_index:
  assumes "core w" "slot (sessions w) a i h" "slot (sessions w) a j h"
  shows "i = j"
proof -
  obtain K where K: "chain (hsessions w) (bodies w) (channels w) (bevs w) a i h K" by (rule slot_chain [OF assms(1,2)])
  obtain K' where "chain (hsessions w) (bodies w) (channels w) (bevs w) a j h K'" by (rule slot_chain [OF assms(1,3)])
  from chain_slot_unique [OF K this] assms(2,3) show ?thesis by (auto simp: slot_def)
qed

lemma step_eng:
  assumes core: "core w" and svc: "svc_ok w" and h: "slot (sessions w) a i h" and eng: "eng h w w'"
  shows "step_ok a w w'"
proof -
  have "svc_ok w'" by (rule svc_ok_mono [OF svc]) (use eng in \<open>simp_all add: eng_def\<close>)
  moreover have "k \<noteq> h" if "b \<noteq> a" "slot (sessions w) b j k" for b j k using slot_other [OF core h] that by blast
  then have "others a w w'" using eng unfolding eng_def others_def same_env_def by auto
  ultimately show ?thesis using eng by (simp add: step_ok_def eng_def same_env_def)
qed

text \<open>The session while one of its HTTP sessions is read.\<close>

lemma logic_eng:
  assumes core: "core w" and s: "sessions w a = Some s" and h: "i < 3" "ss_http s ! i = Some h"
    and logic: "logic ph n (hsessions w) (dns_requests w) s" and eng: "eng h w w'"
  shows "logic ph n ((hsessions w')(h := None)) (dns_requests w') s"
    and "hsessions w' h = Some X \<Longrightarrow> hs_good ph X \<Longrightarrow>
      (if i = CLIENT then hs_state X \<noteq> HTTP_MESSAGE_COMPLETE \<longrightarrow> ss_me s = None else hs_state X \<noteq> HTTP_MESSAGE_COMPLETE) \<Longrightarrow>
      logic ph n (hsessions w') (dns_requests w') s"
proof -
  have D: "dns_requests w' = dns_requests w" and H: "\<And>k. k \<noteq> h \<Longrightarrow> hsessions w' k = hsessions w k"
    using eng by (simp_all add: eng_def)
  note L = logicD [OF logic]
  have sl: "slot (sessions w) a i h" using s h by (simp add: slot_def)
  have "slots_good ph ((hsessions w')(h := None)) s" unfolding slots_good_def
  proof (intro conjI allI impI)
    fix j k X assume j: "j < 3" "ss_http s ! j = Some k" "((hsessions w')(h := None)) k = Some X"
    then have "hsessions w k = Some X" using H by (auto split: if_splits)
    note G = slots_goodD [OF L(1) j(1,2) this]
    show "hs_good ph X" by (rule G(1))
    show "if j = CLIENT then hs_state X \<noteq> HTTP_MESSAGE_COMPLETE \<longrightarrow> ss_me s = None else hs_state X \<noteq> HTTP_MESSAGE_COMPLETE"
      using G(2,3) by auto
  qed (use L(1) in \<open>simp add: slots_good_def\<close>)
  then show "logic ph n ((hsessions w')(h := None)) (dns_requests w') s" using logic D by (simp add: logic_def)
  assume X: "hsessions w' h = Some X" "hs_good ph X"
    "if i = CLIENT then hs_state X \<noteq> HTTP_MESSAGE_COMPLETE \<longrightarrow> ss_me s = None else hs_state X \<noteq> HTTP_MESSAGE_COMPLETE"
  have "slots_good ph (hsessions w') s" unfolding slots_good_def
  proof (intro conjI allI impI)
    fix j k Z assume j: "j < 3" "ss_http s ! j = Some k" "hsessions w' k = Some Z"
    have "hs_good ph Z \<and> (if j = CLIENT then hs_state Z \<noteq> HTTP_MESSAGE_COMPLETE \<longrightarrow> ss_me s = None else hs_state Z \<noteq> HTTP_MESSAGE_COMPLETE)"
    proof (cases "k = h")
      case True
      then have "slot (sessions w) a j h" using s j by (simp add: slot_def)
      then have "j = i" using slot_index [OF core sl] by blast
      with True X j(3) show ?thesis by (auto split: if_splits)
    next
      case False
      then have "hsessions w k = Some Z" using H j(3) by simp
      from slots_goodD [OF L(1) j(1,2) this] show ?thesis by auto
    qed
    then show "hs_good ph Z" "if j = CLIENT then hs_state Z \<noteq> HTTP_MESSAGE_COMPLETE \<longrightarrow> ss_me s = None else hs_state Z \<noteq> HTTP_MESSAGE_COMPLETE"
      by blast+
  qed (use L(1) in \<open>simp add: slots_good_def\<close>)
  then show "logic ph n (hsessions w') (dns_requests w') s" using logic D by (simp add: logic_def)
qed

text \<open>The callback at the end of a message.\<close>

lemma message_complete_runs:
  assumes env: "env_ok L" and inv: "inv lst ph n w" and s: "sessions w a = Some s" and h: "i < 3" "ss_http s ! i = Some h"
    and X0: "hsessions w h = Some X0" "hs_state X0 \<noteq> HTTP_MESSAGE_COMPLETE"
    and eng: "eng h w w'" and X: "hsessions w' h = Some X" "hs_good ph X" "hs_state X = HTTP_MESSAGE_COMPLETE"
    and n: "n < 2 ^ 31 - 3"
  shows "runs (case message_complete (hs_cbs X) of None \<Rightarrow> Some w' | Some cb \<Rightarrow> run_http_cb L cb h w')
    (keeps_going ph (n + 2) a w)"
proof -
  note core = invD(1) [OF inv] and svc = invD(2) [OF inv]
  have sl: "slot (sessions w) a i h" using s h by (simp add: slot_def)
  have st: "step_ok a w w'" by (rule step_eng [OF core svc sl eng])
  have s': "sessions w' a = Some s" using eng s by (simp add: eng_def)
  obtain K where K: "chain (hsessions w) (bodies w) (channels w) (bevs w) a i h K" by (rule slot_chain [OF core sl])
  have "hs_cbs X = hs_cbs X0" using eng X0(1) X(1) by (auto simp: eng_def same_id_def)
  then have cbs: "hs_cbs X = slot_callbacks i" using K X0(1) by (auto simp: chain_def)
  note LE = logic_eng [OF core s h invD(4) [OF inv s] eng]
  have body: "hs_body X \<noteq> None" using X(2,3) by (simp add: hs_good_def body_ok_def)
  consider "i = CLIENT" | "i = NAME" | "i = JOKE" using h(1) by (auto simp: slots numeral_3_eq_3 less_Suc_eq)
  then have "runs (case message_complete (hs_cbs X) of None \<Rightarrow> Some w' | Some cb \<Rightarrow> run_http_cb L cb h w')
    (keeps_going ph (n + 2) a w')"
  proof cases
    case 1
    have "ss_me s = None" using slots_goodD(2) [OF logicD(1) [OF invD(4) [OF inv s]] h X0(1) 1 X0(2)] .
    then have "runs (client_msg_complete L h w') (keeps_going ph (n + 2) a w')"
      using LE(2) [OF X(1,2)] X(3) 1 st s' h(2) X(1) n invD(3) [OF inv]
      by (intro client_msg_complete_runs [OF env _ _ s']) (auto simp: step_ok_def)
    with 1 show ?thesis by (simp add: cbs slot_callbacks_def client_callbacks_def run_http_cb_def)
  next
    case 2
    have "runs (http_response_name L h w') (keeps_going ph (n + 1) a w')"
      by (rule http_response_name_runs [OF env _ _ s' _ X(1) body LE(1)]) (use st h(2) 2 n in \<open>simp_all add: step_ok_def\<close>)
    then have "runs (http_response_name L h w') (keeps_going ph (n + 2) a w')"
      by (rule runs_mono) (auto simp: keeps_going_def mine_def intro: logic_mono)
    with 2 show ?thesis by (simp add: cbs slot_callbacks_def upstream_callbacks_def run_http_cb_def slot_indices)
  next
    case 3
    have "runs (http_response_joke L h w') (keeps_going ph (n + 1) a w')"
      by (rule http_response_joke_runs [OF env _ _ s' _ X(1) body LE(1)]) (use st h(2) 3 n in \<open>simp_all add: step_ok_def\<close>)
    then have "runs (http_response_joke L h w') (keeps_going ph (n + 2) a w')"
      by (rule runs_mono) (auto simp: keeps_going_def mine_def intro: logic_mono)
    with 3 show ?thesis using slot_indices by (simp add: cbs slot_callbacks_def upstream_callbacks_def run_http_cb_def)
  qed
  then show ?thesis by (rule runs_keeps_going [OF st])
qed

lemma drain_runs:
  fixes w :: "('e, 'p) world"
  assumes "core w" "slot (sessions w) a i h" "hsessions w h = Some X"
  shows "\<exists>r e. tcp_socket_drain_input L (hs_channel X) m w = Some (r, w\<lparr>ext := e\<rparr>)"
proof -
  obtain b where b: "channel_bev (hs_channel X) w = Some b" using hs_channel_bev [OF assms] by blast
  obtain r e where "evbuffer_drain L (Input b) m (ext w) = (r, e)" by fastforce
  with b show ?thesis by (auto simp: tcp_socket_drain_input_def tcp_socket_get_input_def)
qed

lemma eng_ext: "core w \<Longrightarrow> hsessions w h = Some X \<Longrightarrow> eng h w (w\<lparr>ext := e\<rparr>)"
  by (simp add: eng_def same_env_def)

lemma remove_master_runs:
  assumes core: "core w" and svc: "svc_ok w" and s: "sessions w a = Some s" and h: "slot (sessions w) a i h" and eng: "eng h w w'"
  shows "runs (remove_master h w') (keeps_going ph n a w)"
proof -
  obtain K where K: "chain (hsessions w) (bodies w) (channels w) (bevs w) a i h K" by (rule slot_chain [OF core h])
  then have "http_session_master h w' = Some a"
    using eng by (auto simp: eng_def same_id_def chain_def http_session_master_def)
  moreover have st: "step_ok a w w'" by (rule step_eng [OF core svc h eng])
  moreover have "runs (http_service_session_remove a w') (keeps_going ph n a w')"
    by (rule remove_keeps_going) (use st s eng in \<open>simp_all add: step_ok_def eng_def\<close>)
  ultimately show ?thesis by (simp add: remove_master_def runs_keeps_going)
qed

lemma read_loop_runs:
  assumes env: "env_ok L" and laws: "parser_laws L ph" and inv: "inv lst ph n w" and s: "sessions w a = Some s"
    and h: "i < 3" "ss_http s ! i = Some h"
    and X0: "hsessions w h = Some X0" "hs_state X0 \<noteq> HTTP_MESSAGE_COMPLETE" and n: "n < 2 ^ 31 - 3"
  shows "eng h w w' \<Longrightarrow> hsessions w' h = Some X \<Longrightarrow> hs_good ph X \<Longrightarrow>
    runs (http_session_read_loop L h (hs_channel X) w') (keeps_going ph (n + 2) a w)"
proof (induction "4 - state_rank (hs_state X)" arbitrary: w' X rule: less_induct)
  case less
  note eng = less.prems(1) and X = less.prems(2) and good = less.prems(3)
  note core = invD(1) [OF inv] and svc = invD(2) [OF inv]
  have sl: "slot (sessions w) a i h" using s h by (simp add: slot_def)
  have sl': "slot (sessions w') a i h" using sl eng by (simp add: eng_def)
  have core': "core w'" by (rule engD [OF eng])
  note remove = remove_master_runs [OF core svc s sl, where n = "n + 2" and ph = ph]
  obtain r e where dr: "tcp_socket_drain_input L (hs_channel X) (hs_len X) w' = Some (r, w'\<lparr>ext := e\<rparr>)"
    using drain_runs [OF core' sl' X] by blast
  let ?w1 = "w'\<lparr>ext := e\<rparr>"
  have e1: "eng h w ?w1" by (rule eng_trans [OF eng eng_ext [OF core' X]])
  consider (headers) "hs_state X = HTTP_HEADERS_COMPLETE" | (complete) "hs_state X = HTTP_MESSAGE_COMPLETE"
    | (parse) "hs_state X \<noteq> HTTP_HEADERS_COMPLETE" "hs_state X \<noteq> HTTP_MESSAGE_COMPLETE" by blast
  then show ?case
  proof cases
    case headers
    let ?Y = "X\<lparr>hs_len := 0, hs_state := HTTP_BODY_PARSE\<rparr>"
    let ?w2 = "set_hs h ?Y ?w1"
    have "eng h ?w1 ?w2" by (rule eng_set_hs [where X = X]) (use core' X headers in \<open>simp_all add: same_id_def\<close>)
    then have e2: "eng h w ?w2" by (rule eng_trans [OF e1])
    have "runs (http_session_read_loop L h (hs_channel ?Y) ?w2) (keeps_going ph (n + 2) a w)"
      by (rule less.hyps [OF _ e2 set_hs_hs]) (use headers good in \<open>simp_all add: hs_good_def body_ok_def state_phase_def\<close>)
    then show ?thesis
      using remove [OF e1] dr X headers
      by (subst http_session_read_loop.simps) (simp add: upd_hs_def)
  next
    case complete
    let ?Y = "X\<lparr>hs_len := 0\<rparr>"
    let ?w2 = "set_hs h ?Y ?w1"
    have "eng h ?w1 ?w2" by (rule eng_set_hs [where X = X]) (use core' X in \<open>simp_all add: same_id_def\<close>)
    then have e2: "eng h w ?w2" by (rule eng_trans [OF e1])
    have "runs (case message_complete (hs_cbs ?Y) of None \<Rightarrow> Some ?w2 | Some cb \<Rightarrow> run_http_cb L cb h ?w2) (keeps_going ph (n + 2) a w)"
      by (rule message_complete_runs [OF env inv s h X0 e2 set_hs_hs _ _ n])
         (use good complete in \<open>simp_all add: hs_good_def body_ok_def\<close>)
    then show ?thesis
      using remove [OF e1] dr X complete
      by (subst http_session_read_loop.simps) (simp add: upd_hs_def)
  next
    case parse
    from http_request_parse_runs [OF laws core' X good parse(2) sl'] obtain err w1 Y where
      P: "http_request_parse L h (hs_channel X) w' = Some (err, w1)" "eng h w' w1" "hsessions w1 h = Some Y" "hs_good ph Y"
      by (auto simp: runs_def)
    have e1: "eng h w w1" by (rule eng_trans [OF eng P(2)])
    have ch: "hs_channel Y = hs_channel X" using P(2,3) X by (auto simp: eng_def same_id_def)
    have run: "http_session_read_loop L h (hs_channel X) w' =
        (if err = HTTP_PARSER_E_ERROR then remove_master h w1
         else if hs_state Y = hs_state X then Some w1 else http_session_read_loop L h (hs_channel Y) w1)"
      using X P(1,3) parse ch by (subst http_session_read_loop.simps) (simp split: http_state.splits)
    show ?thesis
    proof (cases "hs_state Y = hs_state X")
      case True
      have "ss_me s = None" if "i = CLIENT"
        using slots_goodD(2) [OF logicD(1) [OF invD(4) [OF inv s]] h X0(1) that X0(2)] .
      then have "logic ph n (hsessions w1) (dns_requests w1) s"
        using True parse(2) by (intro logic_eng(2) [OF core s h invD(4) [OF inv s] e1 P(3,4)]) simp
      then have "keeps_going ph (n + 2) a w w1"
        using step_eng [OF core svc sl e1] e1 s by (auto simp: keeps_going_def mine_def eng_def intro: logic_mono)
      then show ?thesis using run True remove [OF e1] by simp
    next
      case False
      have "state_rank (hs_state X) \<le> state_rank (hs_state Y)" by (rule eng_rank [OF P(2) X P(3)])
      moreover have "state_rank (hs_state X) \<noteq> state_rank (hs_state Y)" using False by (simp add: state_rank_inj)
      moreover have "state_rank (hs_state Y) \<le> 4" by (simp add: state_rank_def split: http_state.splits)
      ultimately have "4 - state_rank (hs_state Y) < 4 - state_rank (hs_state X)" by linarith
      from less.hyps [OF this e1 P(3,4)] show ?thesis using run False remove [OF e1] by simp
    qed
  qed
qed

subsection \<open>The callbacks of a channel\<close>

text \<open>An event is delivered to the HTTP session of some slot.\<close>

definition serves :: "('e, 'p) world \<Rightarrow> addr \<Rightarrow> session \<Rightarrow> nat \<Rightarrow> addr \<Rightarrow> 'p http_session \<Rightarrow> addr \<Rightarrow> addr \<Rightarrow> bool" where
  "serves w a s i h X c b \<longleftrightarrow> sessions w a = Some s \<and> i < 3 \<and> ss_http s ! i = Some h \<and> hsessions w h = Some X \<and>
     hs_master X = a \<and> hs_cbs X = slot_callbacks i \<and> hs_channel X = Some c \<and> channel_bev (Some c) w = Some b \<and>
     (\<exists>C. channels w c = Some C \<and> ch_ctx C = Some h \<and> ch_service C = Some Http_session_io_service)"

lemma serves_bev:
  assumes "core w" "bevs w b = Some B" "bev_arg B = Some c"
  obtains a s i h X where "serves w a s i h X c b"
proof -
  obtain a i h K where K: "slot (sessions w) a i h" "chain (hsessions w) (bodies w) (channels w) (bevs w) a i h K"
    "co_ca K = c" "co_ba K = b" using http_ok_back [OF coreD(3) [OF assms(1)] assms(2,3)] by metis
  obtain s where "sessions w a = Some s" "i < 3" "ss_http s ! i = Some h" using K(1) by (auto simp: slot_def)
  then have "serves w a s i h (co_hs K) c b"
    using K(2-4) chain_channel_bev [OF K(2)] by (auto simp: serves_def chain_def)
  with that show thesis by blast
qed

lemma should_close_runs:
  assumes inv: "inv lst ph n w" and v: "serves w a s i h X c b"
  shows "runs (http_session_channel_should_close L (Some c) w)
    (\<lambda>(closed, w'). if closed then keeps_going ph n a w w'
       else w' = w \<and> (hs_state X = HTTP_MESSAGE_COMPLETE \<longrightarrow> evbuffer_get_length L (Output b) (ext w) \<noteq> 0))"
proof -
  have s: "sessions w a = Some s" and sl: "slot (sessions w) a i h" using v by (auto simp: serves_def slot_def)
  note core = invD(1) [OF inv] and svc = invD(2) [OF inv]
  have same: "keeps_going ph n a w w" using core svc s invD(4) [OF inv s] by (simp add: keeps_going_def step_ok_refl mine_def)
  have cb: "runs (case ready_to_close (hs_cbs X) of None \<Rightarrow> Some (True, w) | Some cb \<Rightarrow> run_http_cb L cb h w \<bind> (\<lambda>w1. Some (True, w1)))
      (\<lambda>(closed, w'). closed \<and> keeps_going ph n a w w')"
  proof (cases "i = CLIENT")
    case True
    have "runs (client_ready_to_close h w) (keeps_going ph n a w)"
      by (rule client_ready_to_close_runs [OF core svc s sl invD(4) [OF inv s]])
    with True v show ?thesis
      by (auto simp: serves_def slot_callbacks_def client_callbacks_def run_http_cb_def elim!: runsE)
  next
    case False
    with v same show ?thesis
      by (simp add: serves_def slot_callbacks_def upstream_callbacks_def no_callbacks_def)
  qed
  have len: "tcp_socket_get_output_length L (Some c) w = Some (evbuffer_get_length L (Output b) (ext w))"
    using v by (simp add: serves_def tcp_socket_get_output_length_def tcp_socket_get_output_def)
  obtain C where C: "channels w c = Some C" "ch_ctx C = Some h" using v by (auto simp: serves_def)
  have X: "hsessions w h = Some X" using v by (simp add: serves_def)
  define close where "close = (ch_eof C \<and> hs_state X = HTTP_MESSAGE_BEGIN \<or>
      hs_state X = HTTP_MESSAGE_COMPLETE \<and> evbuffer_get_length L (Output b) (ext w) = 0)"
  have run: "http_session_channel_should_close L (Some c) w =
      (if close then (case ready_to_close (hs_cbs X) of None \<Rightarrow> Some (True, w)
          | Some cb \<Rightarrow> run_http_cb L cb h w \<bind> (\<lambda>w1. Some (True, w1))) else Some (False, w))"
    using C X len by (auto simp: http_session_channel_should_close_def close_def split: option.splits)
  show ?thesis
  proof (cases close)
    case True
    show ?thesis unfolding run using True by (simp only: if_True) (rule runs_mono [OF cb], auto)
  next
    case False
    then have "hs_state X = HTTP_MESSAGE_COMPLETE \<longrightarrow> evbuffer_get_length L (Output b) (ext w) \<noteq> 0"
      by (simp add: close_def)
    with False show ?thesis unfolding run by simp
  qed
qed

text \<open>What libevent delivers and the code is assumed to survive: the header of \<open>Spec2Isabelle\<close> explains it.\<close>

definition event_session :: "addr \<Rightarrow> ('e, 'p) world \<Rightarrow> 'p http_session option" where
  "event_session b w = do { B \<leftarrow> bevs w b; c \<leftarrow> bev_arg B; C \<leftarrow> channels w c; h \<leftarrow> ch_ctx C; hsessions w h }"

fun event_ok :: "('e, 'p) lib \<Rightarrow> event \<Rightarrow> ('e, 'p) world \<Rightarrow> bool" where
  "event_ok L (Ev_accept l sa local) w \<longleftrightarrow> will_succeed (store_heap (lh w))"
| "event_ok L (Ev_read b) w \<longleftrightarrow>
     (case event_session b w of None \<Rightarrow> True
      | Some X \<Rightarrow> message_complete (hs_cbs X) = Some Client_msg_complete \<longrightarrow> hs_state X = HTTP_MESSAGE_COMPLETE \<longrightarrow>
          evbuffer_get_length L (Output b) (ext w) = 0 \<or> evbuffer_get_length L (Input b) (ext w) = 0)"
| "event_ok L _ w \<longleftrightarrow> True"

lemma http_session_read_cb_runs:
  assumes env: "env_ok L" and laws: "parser_laws L ph" and inv: "inv lst ph n w" and n: "n < 2 ^ 31 - 3"
    and v: "serves w a s i h X c b"
    and ok: "i = CLIENT \<Longrightarrow> hs_state X = HTTP_MESSAGE_COMPLETE \<Longrightarrow>
      evbuffer_get_length L (Output b) (ext w) = 0 \<or> evbuffer_get_length L (Input b) (ext w) = 0"
  shows "runs (http_session_read_cb L (Some c) w) (keeps_going ph (n + 2) a w)"
proof -
  obtain C where C: "channels w c = Some C" "ch_ctx C = Some h" using v by (auto simp: serves_def)
  have s: "sessions w a = Some s" and h: "i < 3" "ss_http s ! i = Some h" and X: "hsessions w h = Some X" "hs_channel X = Some c"
    using v by (simp_all add: serves_def)
  note core = invD(1) [OF inv] and svc = invD(2) [OF inv] and logic = invD(4) [OF inv s]
  from should_close_runs [OF inv v, of L] obtain closed w1 where
    1: "http_session_channel_should_close L (Some c) w = Some (closed, w1)" "closed \<Longrightarrow> keeps_going ph n a w w1"
      "\<not> closed \<Longrightarrow> w1 = w" "\<not> closed \<Longrightarrow> hs_state X = HTTP_MESSAGE_COMPLETE \<Longrightarrow> evbuffer_get_length L (Output b) (ext w) \<noteq> 0"
    by (auto simp: runs_def split: if_splits)
  have up: "keeps_going ph n a w w' \<Longrightarrow> keeps_going ph (n + 2) a w w'" for w'
    by (auto simp: keeps_going_def mine_def intro: logic_mono)
  show ?thesis
  proof (cases closed)
    case True
    then show ?thesis using C 1(1) up [OF 1(2)] by (simp add: http_session_read_cb_def)
  next
    case False
    have len: "tcp_socket_get_input_length L (Some c) w = Some (evbuffer_get_length L (Input b) (ext w))"
      using v by (simp add: serves_def tcp_socket_get_input_length_def tcp_socket_get_input_def)
    have run: "http_session_read_cb L (Some c) w =
        (if evbuffer_get_length L (Input b) (ext w) = 0 then Some w else http_session_read_loop L h (Some c) w)"
      using C 1(1) False 1(3) len by (simp add: http_session_read_cb_def)
    show ?thesis
    proof (cases "evbuffer_get_length L (Input b) (ext w) = 0")
      case True
      have "keeps_going ph n a w w" using core svc s logic by (simp add: keeps_going_def step_ok_refl mine_def)
      then show ?thesis using run True up by simp
    next
      case input: False
      have "hs_state X \<noteq> HTTP_MESSAGE_COMPLETE"
        using 1(4) False ok input slots_goodD(3) [OF logicD(1) [OF logic] h X(1)] by (cases "i = CLIENT") auto
      moreover have "hs_good ph X" using slots_goodD(1) [OF logicD(1) [OF logic] h X(1)] .
      ultimately have "runs (http_session_read_loop L h (hs_channel X) w) (keeps_going ph (n + 2) a w)"
        by (intro read_loop_runs [OF env laws inv s h X(1) _ n eng_refl [OF core X(1)] X(1)])
      then show ?thesis using run input X(2) by simp
    qed
  qed
qed

lemma http_session_write_cb_runs:
  assumes inv: "inv lst ph n w" and v: "serves w a s i h X c b"
  shows "runs (http_session_write_cb L (Some c) w) (keeps_going ph n a w)"
proof -
  have s: "sessions w a = Some s" using v by (simp add: serves_def)
  have "keeps_going ph n a w w" using invD [OF inv] s by (simp add: keeps_going_def step_ok_refl mine_def)
  then show ?thesis
    using should_close_runs [OF inv v, of L] by (auto simp: http_session_write_cb_def runs_def split: if_splits)
qed

lemma http_session_event_cb_runs:
  assumes inv: "inv lst ph n w" and v: "serves w a s i h X c b" and n: "n < 2 ^ 31 - 1"
  shows "runs (http_session_event_cb L (Some c) f w) (keeps_going ph (n + 1) a w)"
proof -
  obtain C where C: "channels w c = Some C" "ch_ctx C = Some h" using v by (auto simp: serves_def)
  have s: "sessions w a = Some s" and h: "i < 3" "ss_http s ! i = Some h" and X: "hsessions w h = Some X" "hs_master X = a"
    and cbs: "hs_cbs X = slot_callbacks i" using v by (simp_all add: serves_def)
  note core = invD(1) [OF inv] and svc = invD(2) [OF inv] and logic = invD(4) [OF inv s]
  have sl: "slot (sessions w) a i h" using s h by (simp add: slot_def)
  have m: "http_session_master h w = Some a" using X by (simp add: http_session_master_def)
  have up: "keeps_going ph n a w w' \<Longrightarrow> keeps_going ph (n + 1) a w w'" for w'
    by (auto simp: keeps_going_def mine_def intro: logic_mono)
  have same: "keeps_going ph (n + 1) a w w" by (rule up) (use core svc s logic in \<open>simp add: keeps_going_def step_ok_refl mine_def\<close>)
  have rem: "runs (http_service_session_remove a w) (keeps_going ph (n + 1) a w)" by (rule remove_keeps_going [OF core svc s])
  have con: "runs (case connected (hs_cbs X) of None \<Rightarrow> Some w | Some cb \<Rightarrow> run_http_cb L cb h w) (keeps_going ph (n + 1) a w)"
  proof (cases "i = CLIENT")
    case True
    with same show ?thesis by (simp add: cbs slot_callbacks_def client_callbacks_def no_callbacks_def)
  next
    case False
    have "runs (send_request L req h w) (keeps_going ph (n + 1) a w)" for req
      by (rule send_request_runs [OF core svc s sl logic n])
    with False show ?thesis
      by (simp add: cbs slot_callbacks_def upstream_callbacks_def run_http_cb_def http_request_name_def http_request_joke_def)
  qed
  have eof: "runs (http_session_channel_should_close L (Some c) w \<bind> (\<lambda>(closed, w1). Some w1)) (keeps_going ph (n + 1) a w)"
    using should_close_runs [OF inv v, of L] same up by (auto simp: runs_def split: if_splits)
  show ?thesis
    using C m X rem con eof same by (auto simp: http_session_event_cb_def)
qed

text \<open>The end-of-file flag of a channel.\<close>

lemma inv_eof:
  assumes inv: "inv lst ph n w" and c: "channels w c = Some C"
  shows "inv lst ph n (set_channel c (C\<lparr>ch_eof := True\<rparr>) w)" (is "inv lst ph n ?w")
proof -
  note K = coreD [OF invD(1) [OF inv]]
  have "http_ok (sessions w) (hsessions w) (bodies w) ((channels w)(c \<mapsto> C\<lparr>ch_eof := True\<rparr>)) (bevs w)"
    by (rule http_ok_set_channel [OF K(3) c]) simp_all
  moreover have "lst_ok (listeners w) ((channels w)(c \<mapsto> C\<lparr>ch_eof := True\<rparr>))"
    using K(7) c by (fastforce simp: lst_ok_def)
  ultimately have "core ?w" using K c by (simp add: core_def fresh_ok_def set_channel_def unused_upd)
  moreover have "svc_ok ?w" by (rule svc_ok_mono [OF invD(2) [OF inv]]) (auto simp: same_env_def set_channel_def)
  ultimately show ?thesis using invD [OF inv] by (simp add: inv_def set_channel_def)
qed

subsection \<open>Accepting\<close>

lemma core_idle_bev:
  assumes core: "core w" and b: "fresh w \<le> b" "b < fresh w'" "\<And>B. x = Some B \<Longrightarrow> bev_arg B = None"
    and w': "bevs w' = (bevs w)(b := x)" "sessions w' = sessions w" "hsessions w' = hsessions w" "channels w' = channels w"
      "bodies w' = bodies w" "strs w' = strs w" "refs w' = refs w" "dns_requests w' = dns_requests w"
      "resolving w' = resolving w" "listeners w' = listeners w"
  shows "core w'"
proof -
  note C = coreD [OF core]
  have "bevs w b = None" using C(1) b(1) by (simp add: fresh_ok_def unused_def)
  then have "http_ok (sessions w) (hsessions w) (bodies w) (channels w) ((bevs w)(b := x))"
    by (intro http_ok_idle_bev [OF C(3)]) (use b(3) in auto)
  moreover have "fresh_ok (w\<lparr>fresh := fresh w'\<rparr>)" by (rule fresh_ok_mono [OF C(1)]) (use b in simp)
  then have "fresh_ok w'" using b(2) by (simp add: fresh_ok_def w' unused_def)
  ultimately show ?thesis using C by (simp add: core_def w')
qed

lemma inv_same:
  assumes "inv lst ph n w" "core w'" "same_env w w'" "sessions w' = sessions w" "hsessions w' = hsessions w"
    "dns_requests w' = dns_requests w"
  shows "inv lst ph n w'"
  using invD [OF assms(1)] assms(2-) svc_ok_mono [OF invD(2) [OF assms(1)] assms(3)]
  by (simp add: inv_def same_env_def)

text \<open>Where \<open>http_service_accept_cb\<close> and its caller give up, only an idle bufferevent may stay.\<close>

lemma inv_accept_fail:
  assumes "inv lst ph n w" "fresh w \<le> b" "b < fresh w'" "\<And>B. x = Some B \<Longrightarrow> bev_arg B = None"
    "bevs w' = (bevs w)(b := x)" "sessions w' = sessions w" "hsessions w' = hsessions w" "channels w' = channels w"
    "bodies w' = bodies w" "strs w' = strs w" "refs w' = refs w" "dns_requests w' = dns_requests w"
    "resolving w' = resolving w" "listeners w' = listeners w" "same_env w w'"
  shows "inv lst ph n w'"
  by (rule inv_same [OF assms(1) core_idle_bev [OF invD(1) [OF assms(1)] assms(2-14)] assms(15,6,7,12)])

lemma session_free_zero:
  "sessions w a = Some zero_session \<Longrightarrow> session_free (Some a) w = Some (w\<lparr>sessions := (sessions w)(a := None)\<rparr>)"
  by (simp add: session_free_def COUNT_def upt_rec zero_session_def http_session_free_def upd_session_def
      reference_dec_def free_str_def numeral_3_eq_3)

text \<open>A session as \<open>session_new\<close> makes it.\<close>

definition new_session :: "addr \<Rightarrow> session" where
  "new_session h = zero_session\<lparr>ss_state := PARSING_CLIENT_REQUEST, ss_http := [Some h, None, None]\<rparr>"

definition new_client_hs :: "('e, 'p) lib \<Rightarrow> addr \<Rightarrow> addr \<Rightarrow> 'p http_session" where
  "new_client_hs L a c = \<lparr>hs_master = a, hs_state = HTTP_MESSAGE_BEGIN, hs_len = 0, hs_parser = http_parser_init L HTTP_REQUEST,
     hs_body = None, hs_channel = Some c, hs_cbs = client_callbacks\<rparr>"

lemma session_new_result:
  fixes w :: "('e, 'p) world"
  assumes c: "channels w c = Some C" and a: "sessions w (fresh w) = None" "hsessions w (Suc (fresh w)) = None"
  shows "session_new L (Some c) w = Some (if answer 0 w
     then (if answer 1 w
       then (Some (fresh w), w\<lparr>answers := tl (tl (answers w)), fresh := Suc (Suc (fresh w)),
          hsessions := (hsessions w)(Suc (fresh w) \<mapsto> new_client_hs L (fresh w) c),
          channels := (channels w)(c \<mapsto> C\<lparr>ch_service := Some Http_session_io_service, ch_ctx := Some (Suc (fresh w))\<rparr>),
          sessions := (sessions w)(fresh w \<mapsto> new_session (Suc (fresh w)))\<rparr>)
       else (None, w\<lparr>answers := tl (tl (answers w)), fresh := Suc (fresh w)\<rparr>))
     else (None, w\<lparr>answers := tl (answers w)\<rparr>))"
proof -
  let ?a = "fresh w"
  let ?w1 = "w\<lparr>answers := tl (answers w), fresh := Suc ?a, sessions := (sessions w)(?a \<mapsto> zero_session)\<rparr>"
  have zero: "(replicate COUNT None)[CLIENT := Some (Suc ?a)] = [Some (Suc ?a), None, None]"
    by (simp add: slots numeral_3_eq_3)
  consider "\<not> answer 0 w" | "answer 0 w" "\<not> answer 1 w" | "answer 0 w" "answer 1 w" by blast
  then show ?thesis
  proof cases
    case 1
    then show ?thesis by (simp add: session_new_def new_addr_if)
  next
    case 2
    let ?w2 = "?w1\<lparr>answers := tl (tl (answers w))\<rparr>"
    have "session_free (Some ?a) ?w2 = Some (?w2\<lparr>sessions := (sessions ?w2)(?a := None)\<rparr>)"
      by (rule session_free_zero) simp
    then have "session_new L (Some c) w = Some (None, ?w2\<lparr>sessions := (sessions ?w2)(?a := None)\<rparr>)"
      using 2 by (simp add: session_new_def new_addr_if http_session_new_def)
    moreover have "?w2\<lparr>sessions := (sessions ?w2)(?a := None)\<rparr> = w\<lparr>answers := tl (tl (answers w)), fresh := Suc ?a\<rparr>"
      by (rule world.equality) (use a in \<open>simp_all add: fun_upd_idem\<close>)
    ultimately show ?thesis using 2 by simp
  next
    case 3
    then show ?thesis using c a zero
      by (simp add: session_new_def new_addr_if http_session_new_def set_hs_def set_channel_def upd_session_def
          session_state_set_def http_session_callbacks_set_def new_session_def new_client_hs_def zero_session_def)
  qed
qed

lemma core_new_session:
  assumes core: "core w" and a: "sessions w a = None" "a < F" "fresh w \<le> F"
  shows "core (w\<lparr>fresh := F, sessions := (sessions w)(a \<mapsto> zero_session)\<rparr>)"
proof -
  note C = coreD [OF core]
  have z: "ss_http zero_session = replicate 3 None" "ss_me zero_session = None" "str_ptrs zero_session = {}"
    "distinct_strs zero_session"
    by (auto simp: zero_session_def slots str_ptrs_def distinct_strs_def)
  have "http_ok ((sessions w)(a \<mapsto> zero_session)) (hsessions w) (bodies w) (channels w) (bevs w)"
    by (rule http_ok_zero [OF C(3) a(1) z(1)])
  moreover have "strs_ok ((sessions w)(a \<mapsto> zero_session)) (strs w)"
    by (rule strs_ok_change [OF C(4) z(4)]) (simp_all add: z)
  moreover have "refs_ok ((sessions w)(a \<mapsto> zero_session)) (refs w) (dns_requests w)"
    by (rule refs_ok_zero [OF C(5) a(1) z(2)])
  moreover have "fresh_ok (w\<lparr>fresh := F\<rparr>)" by (rule fresh_ok_mono [OF C(1) a(3)])
  ultimately show ?thesis using C(2,6,7) a(2) z(1) by (simp add: core_def fresh_ok_def len_ok_def unused_put)
qed

lemma new_session_logic:
  assumes laws: "parser_laws L ph" and X: "H h = Some (new_client_hs L a c)" and n: "0 \<le> n"
  shows "logic ph n H D (new_session h)"
proof -
  have "hs_good ph (new_client_hs L a c)"
    using parser_lawsD(1) [OF laws] by (simp add: hs_good_def body_ok_def new_client_hs_def state_phase_def)
  then have "slots_good ph H (new_session h)"
    using X by (auto simp: slots_good_def new_session_def zero_session_def slots numeral_3_eq_3 less_Suc_eq new_client_hs_def)
  then show ?thesis
    using n by (simp add: logic_def upstream_ok_def strings_ok_def counters_ok_def replied_def new_session_def zero_session_def slots)
qed

text \<open>The session of an accepted connection, before it is put in the list.\<close>

lemma accepted_ok:
  assumes inv: "inv lst ph n w" and laws: "parser_laws L ph" and n: "0 \<le> n" and env: "same_env w w'"
    and new: "fresh w \<le> h" "fresh w \<le> c" "fresh w \<le> b" "fresh w \<le> a" "h < fresh w'" "c < fresh w'" "b < fresh w'" "a < fresh w'"
    and w': "sessions w' = (sessions w)(a \<mapsto> new_session h)" "hsessions w' = (hsessions w)(h \<mapsto> new_client_hs L a c)"
      "channels w' = (channels w)(c \<mapsto> Y)" "bevs w' = (bevs w)(b \<mapsto> B)" "bodies w' = bodies w" "strs w' = strs w"
      "refs w' = refs w" "dns_requests w' = dns_requests w" "resolving w' = resolving w" "listeners w' = listeners w"
    and Y: "ch_ctx Y = Some h" "ch_service Y = Some Http_session_io_service" "\<not> ch_listen Y" "ch_io Y = Some b" "bev_arg B = Some c"
    and mem: "will_succeed (store_heap (lh w))"
  shows "runs (http_service_session_add a w') (inv lst ph n)"
proof -
  note core = invD(1) [OF inv]
  note C = coreD [OF core]
  have none: "sessions w a = None" "hsessions w h = None" "channels w c = None" "bevs w b = None"
    using C(1) new by (simp_all add: fresh_ok_def unused_def)
  let ?w0 = "w\<lparr>fresh := fresh w', sessions := (sessions w)(a \<mapsto> zero_session)\<rparr>"
  have core0: "core ?w0" by (rule core_new_session [OF core none(1)]) (use new in simp_all)
  have core': "core w'"
    by (rule core_fill [OF core0, where a = a and s = zero_session and i = CLIENT and s' = "new_session h" and h = h and c = c
          and b = b and X = "new_client_hs L a c" and Y = Y and B = B])
       (use none new w' Y in \<open>simp_all add: same_refs_def new_session_def zero_session_def slots numeral_3_eq_3
          new_client_hs_def slot_callbacks_def\<close>)
  have "(sessions w')(a := None) = sessions w" by (simp add: w' fun_upd_idem none)
  then have svc': "svc_ok (w'\<lparr>sessions := (sessions w')(a := None)\<rparr>)"
    by (intro svc_ok_mono [OF invD(2) [OF inv]]) (use env in \<open>simp_all add: same_env_def\<close>)
  have mem': "will_succeed (store_heap (lh w'))" using mem env by (simp add: same_env_def)
  have "sessions w' a = Some (new_session h)" by (simp add: w')
  from http_service_session_add_runs [OF core' svc' this mem'] show ?thesis
  proof (rule runs_mono)
    fix w2 assume A: "step_ok a w' w2 \<and> sessions w2 = sessions w' \<and> hsessions w2 = hsessions w' \<and> dns_requests w2 = dns_requests w'"
    have "logic ph n (hsessions w') (dns_requests w') s" if s: "sessions w' x = Some s" for x s
    proof (cases "x = a")
      case True
      with s show ?thesis by (auto simp: w' intro!: new_session_logic [OF laws _ n])
    next
      case False
      then have sx: "sessions w x = Some s" using s by (simp add: w')
      show ?thesis
      proof (rule logic_frame [OF invD(4) [OF inv sx]])
        fix i k assume "i < 3" "ss_http s ! i = Some k"
        then have "slot (sessions w) x i k" using sx by (simp add: slot_def)
        then have "hsessions w k \<noteq> None" by (rule slot_live [OF C(3)])
        then show "hsessions w' k = hsessions w k" using none by (auto simp: w')
      qed (simp add: w')
    qed
    then show "inv lst ph n w2" using A invD(3,5) [OF inv] env by (simp add: inv_def step_ok_def same_env_def others_def)
  qed
qed

lemma accept_runs:
  assumes inv: "inv lst ph n w" and laws: "parser_laws L ph" and n: "0 \<le> n" and l: "listeners w l \<noteq> None"
    and mem: "will_succeed (store_heap (lh w))"
  shows "runs (handle_event L (Ev_accept l sa local) w) (inv lst ph n)"
proof -
  note C = coreD [OF invD(1) [OF inv]]
  obtain K where K: "listeners w l = Some K" using l by blast
  obtain c Y where c: "lst_arg K = Some c" "channels w c = Some Y" "ch_service Y = Some Http_io_service"
    using C(7) K unfolding lst_ok_def by blast
  let ?f = "fresh w"
  let ?b = "Suc ?f"
  let ?ch = "Suc ?b"
  let ?a = "Suc ?ch"
  let ?h = "Suc ?a"
  have none: "bevs w ?b = None" "channels w ?ch = None" "sessions w ?a = None" "hsessions w ?h = None"
    using C(1) by (simp_all add: fresh_ok_def unused_def)
  have cn: "c \<noteq> ?ch" using c(2) none(2) by auto
  let ?Bn = "\<lparr>bev_fd = ?f, bev_arg = None, bev_high_wm = 0\<rparr>"
  let ?B = "\<lparr>bev_fd = ?f, bev_arg = Some ?ch, bev_high_wm = TCP_SOCKET_READ_HIGH_WM\<rparr>"
  let ?Yn = "\<lparr>ch_service = None, ch_eof = False, ch_ctx = None, ch_io = Some ?b, ch_listen = False\<rparr>"
  let ?w3 = "w\<lparr>answers := tl (tl (tl (answers w))), fresh := Suc ?b, fds := insert ?f (fds w), bevs := (bevs w)(?b \<mapsto> ?Bn)\<rparr>"
  let ?p = "\<lparr>ap_src = local, ap_dst = sa, ap_proto = 6, ap_io_ctx = Some ?b\<rparr>"
  note d = tcp_socket_accept_cb_def new_addr_if ask_if bufferevent_socket_new_def evutil_closesocket_def Let_def
  have fail: "inv lst ph n (w\<lparr>answers := bs, fresh := F, fds := fs\<rparr>)" if "?f < F" for bs F fs
    by (rule inv_accept_fail [OF inv order_refl, where x = None])
       (use that C(1) in \<open>simp_all add: same_env_def fun_upd_idem fresh_ok_def unused_def\<close>)
  consider (refused) "sa_family sa \<noteq> AF_INET \<and> sa_family sa \<noteq> AF_INET6 \<or> \<not> answer 0 w \<or> \<not> answer 1 w \<or> \<not> answer 2 w"
    | (taken) "sa_family sa = AF_INET \<or> sa_family sa = AF_INET6" "answer 0 w" "answer 1 w" "answer 2 w" by blast
  then show ?thesis
  proof cases
    case refused
    then consider "sa_family sa \<noteq> AF_INET \<and> sa_family sa \<noteq> AF_INET6" | "sa_family sa = AF_INET \<or> sa_family sa = AF_INET6" "\<not> answer 0 w"
      | "sa_family sa = AF_INET \<or> sa_family sa = AF_INET6" "answer 0 w" "\<not> answer 1 w"
      | "sa_family sa = AF_INET \<or> sa_family sa = AF_INET6" "answer 0 w" "answer 1 w" "\<not> answer 2 w" by blast
    then have "\<exists>bs fs. handle_event L (Ev_accept l sa local) w = Some (w\<lparr>answers := bs, fresh := Suc ?f, fds := fs\<rparr>)"
    proof cases
      case 1
      show ?thesis by (rule exI [of _ "answers w"], rule exI [of _ "fds w - {?f}"]) (use 1 K in \<open>auto simp: d intro!: world.equality\<close>)
    next
      case 2
      show ?thesis by (rule exI [of _ "tl (answers w)"], rule exI [of _ "fds w - {?f}"])
          (use 2 K in \<open>auto simp: d intro!: world.equality\<close>)
    next
      case 3
      show ?thesis by (rule exI [of _ "tl (tl (answers w))"], rule exI [of _ "fds w - {?f}"])
          (use 3 K in \<open>auto simp: d intro!: world.equality\<close>)
    next
      case 4
      show ?thesis by (rule exI [of _ "tl (tl (tl (answers w)))"], rule exI [of _ "fds w - {?f}"])
          (use 4 K in \<open>auto simp: d numeral_2_eq_2 intro!: world.equality\<close>)
    qed
    then show ?thesis using fail by auto
  next
    case taken
    have run3: "handle_event L (Ev_accept l sa local) w = http_service_accept_cb L (Some c) ?p ?w3"
      using taken K c by (auto simp: d services_def numeral_2_eq_2
          intro!: arg_cong [where f = "http_service_accept_cb L (Some c) ?p"] world.equality)
    have w3: "channels ?w3 c = Some Y" using c(2) by simp
    note da = channel_accept_def tcp_socket_accept_def tcp_socket_new_def set_channel_def new_addr_if tcp_socket_config_ok
      tcp_socket_free_def numeral_eq_Suc
    have stay: "runs (handle_event L (Ev_accept l sa local) w) (inv lst ph n)"
      if "channel_accept (Some c) ?p ?w3 = Some (None, w')" "?b < fresh w'" "\<And>B. x = Some B \<Longrightarrow> bev_arg B = None"
        "bevs w' = (bevs w)(?b := x)" "sessions w' = sessions w" "hsessions w' = hsessions w" "channels w' = channels w"
        "bodies w' = bodies w" "strs w' = strs w" "refs w' = refs w" "dns_requests w' = dns_requests w"
        "resolving w' = resolving w" "listeners w' = listeners w" "same_env w w'" for w' x
    proof -
      have "inv lst ph n w'" by (rule inv_accept_fail [OF inv _ that(2-)]) simp
      with that(1) run3 show ?thesis by (simp add: http_service_accept_cb_def)
    qed
    consider (noloop) "this_ebase w = None" | eb where "this_ebase w = Some eb" "\<not> answer 3 w"
      | (noenable) eb where "this_ebase w = Some eb" "answer 3 w" "\<not> answer 4 w"
      | (chan) eb where "this_ebase w = Some eb" "answer 3 w" "answer 4 w" by (cases "this_ebase w") blast+
    then show ?thesis
    proof cases
      case noloop
      then have "channel_accept (Some c) ?p ?w3 = Some (None, ?w3)" using w3 by (simp add: da)
      then show ?thesis by (rule stay [where x = "Some ?Bn"]) (simp_all add: same_env_def)
    next
      case 2
      then have "channel_accept (Some c) ?p ?w3 = Some (None, ?w3\<lparr>answers := tl (answers ?w3)\<rparr>)" using w3 by (simp add: da)
      then show ?thesis by (rule stay [where x = "Some ?Bn"]) (simp_all add: same_env_def)
    next
      case noenable
      then have "\<exists>bs fs. channel_accept (Some c) ?p ?w3 = Some (None, w\<lparr>answers := bs, fresh := Suc ?ch, fds := fs, bevs := (bevs w)(?b := None)\<rparr>)"
        using w3 none by (intro exI [of _ "tl (tl (tl (tl (tl (answers w)))))"] exI [of _ "insert ?f (fds w) - {?f}"])
          (auto simp: da fun_upd_idem intro!: world.equality)
      then obtain bs fs where "channel_accept (Some c) ?p ?w3 =
        Some (None, w\<lparr>answers := bs, fresh := Suc ?ch, fds := fs, bevs := (bevs w)(?b := None)\<rparr>)" by blast
      then show ?thesis by (rule stay [where x = None]) (simp_all add: same_env_def)
    next
      case chan
      let ?w5 = "w\<lparr>answers := tl (tl (tl (tl (tl (answers w))))), fresh := Suc ?ch, fds := insert ?f (fds w), bevs := (bevs w)(?b \<mapsto> ?B),
          channels := (channels w)(?ch \<mapsto> ?Yn)\<rparr>"
      have acc: "channel_accept (Some c) ?p ?w3 = Some (Some ?ch, ?w5)"
        using chan w3 none by (simp add: da)
      have run5: "handle_event L (Ev_accept l sa local) w = do {
          (session, w2) \<leftarrow> session_new L (Some ?ch) ?w5;
          (case session of None \<Rightarrow> channel_free (Some ?ch) w2 | Some a \<Rightarrow> http_service_session_add a w2) }"
        using run3 acc by (simp add: http_service_accept_cb_def)
      have c5: "channels ?w5 ?ch = Some ?Yn" "sessions ?w5 (fresh ?w5) = None" "hsessions ?w5 (Suc (fresh ?w5)) = None"
        using none by simp_all
      note R = session_new_result [OF c5, of L]
      have gone: "runs (channel_free (Some ?ch) w6) (inv lst ph n)"
        if "channels w6 = (channels w)(?ch \<mapsto> ?Yn)" "bevs w6 = (bevs w)(?b \<mapsto> ?B)" "?ch < fresh w6"
          "sessions w6 = sessions w" "hsessions w6 = hsessions w" "bodies w6 = bodies w" "strs w6 = strs w" "refs w6 = refs w"
          "dns_requests w6 = dns_requests w" "resolving w6 = resolving w" "listeners w6 = listeners w" "same_env w w6" for w6
      proof -
        let ?w7 = "w6\<lparr>fds := fds w6 - {?f}, bevs := bevs w, channels := channels w\<rparr>"
        have "channel_free (Some ?ch) w6 = Some ?w7"
          using that(1,2) none by (auto simp: channel_free_def tcp_socket_free_def bufferevent_free_def evutil_closesocket_def
              set_channel_def fun_upd_idem intro!: world.equality)
        moreover have "inv lst ph n ?w7"
          by (rule inv_accept_fail [OF inv, where b = ?b and x = None])
             (use that none in \<open>simp_all add: same_env_def fun_upd_idem\<close>)
        ultimately show ?thesis by simp
      qed
      consider (a) "\<not> answer 0 ?w5" | (b) "answer 0 ?w5" "\<not> answer 1 ?w5" | (made) "answer 0 ?w5" "answer 1 ?w5" by blast
      then show ?thesis
      proof cases
        case a
        have "runs (channel_free (Some ?ch) (?w5\<lparr>answers := tl (answers ?w5)\<rparr>)) (inv lst ph n)"
          by (rule gone) (simp_all add: same_env_def)
        then show ?thesis using run5 R a by simp
      next
        case b
        have "runs (channel_free (Some ?ch) (?w5\<lparr>answers := tl (tl (answers ?w5)), fresh := Suc (fresh ?w5)\<rparr>)) (inv lst ph n)"
          by (rule gone) (simp_all add: same_env_def)
        then show ?thesis using run5 R b by simp
      next
        case made
        let ?Y = "?Yn\<lparr>ch_service := Some Http_session_io_service, ch_ctx := Some ?h\<rparr>"
        let ?w6 = "?w5\<lparr>answers := tl (tl (answers ?w5)), fresh := Suc (Suc (fresh ?w5)),
          hsessions := (hsessions ?w5)(Suc (fresh ?w5) \<mapsto> new_client_hs L (fresh ?w5) ?ch),
          channels := (channels ?w5)(?ch \<mapsto> ?Y), sessions := (sessions ?w5)(fresh ?w5 \<mapsto> new_session (Suc (fresh ?w5)))\<rparr>"
        have "runs (http_service_session_add ?a ?w6) (inv lst ph n)"
          by (rule accepted_ok [OF inv laws n, where h = ?h and c = ?ch and b = ?b and Y = ?Y and B = ?B])
             (use mem in \<open>simp_all add: same_env_def\<close>)
        then show ?thesis using run5 R made by simp
      qed
    qed
  qed
qed

subsection \<open>Every event\<close>

lemma inv_mono:
  assumes "inv lst ph n w" "n \<le> m"
  shows "inv lst ph m w"
  using assms logic_mono unfolding inv_def by blast

text \<open>An event of a bufferevent is an event of a session in a slot.\<close>

lemma bev_event:
  assumes inv: "inv lst ph n w" and b: "bevs w b = Some B" "bev_arg B \<noteq> None"
  obtains c C a s i h X where "bev_arg B = Some c" "channels w c = Some C" "ch_service C = Some Http_session_io_service"
    "serves w a s i h X c b"
proof -
  obtain c where c: "bev_arg B = Some c" using b by blast
  obtain a s i h X where v: "serves w a s i h X c b" by (rule serves_bev [OF invD(1) [OF inv] b(1) c])
  obtain K where "chain (hsessions w) (bodies w) (channels w) (bevs w) a i h K"
    by (rule slot_chain [OF invD(1) [OF inv], of a i h]) (use v in \<open>auto simp: serves_def slot_def\<close>)
  then have "\<exists>C. channels w c = Some C \<and> ch_service C = Some Http_session_io_service"
    using v by (auto simp: chain_def serves_def)
  with c v that show thesis by blast
qed

lemma keeps_going_inv:
  assumes "runs x (keeps_going ph m a w)" "inv lst ph n w" "n \<le> m" "m \<le> k"
  shows "runs x (inv lst ph k)"
  using assms(1) by (rule runs_mono) (use assms(2-) inv_step inv_mono in blast)

lemma serves_eof:
  "serves w a s i h X c b \<Longrightarrow> channels w c = Some C \<Longrightarrow> serves (set_channel c (C\<lparr>ch_eof := True\<rparr>) w) a s i h X c b"
  by (auto simp: serves_def set_channel_def channel_bev_def)

lemma dns_event:
  assumes env: "env_ok L" and laws: "parser_laws L ph" and inv: "inv lst ph n w" and q: "resolving w q = Some d" and n: "n < 2 ^ 31 - 3"
  shows "runs (dnsname_resolved_cb L res d (w\<lparr>resolving := (resolving w)(q := None)\<rparr>)) (inv lst ph (n + 2))"
proof -
  let ?w = "w\<lparr>resolving := (resolving w)(q := None)\<rparr>"
  note C = coreD [OF invD(1) [OF inv]]
  have core: "core ?w" by (rule core_unqueue [OF invD(1) [OF inv]])
  have svc: "svc_ok ?w" by (rule svc_ok_mono [OF invD(2) [OF inv]]) (simp_all add: same_env_def)
  have inv': "inv lst ph n ?w" using core svc invD [OF inv] by (simp add: inv_def)
  obtain Y where Y: "dns_requests ?w d = Some Y" using dns_ok_queue(1) [OF C(6) q] by auto
  have Q: "resolving ?w q' \<noteq> Some d" for q' using dns_ok_queue(2) [OF C(6) q] by auto
  have n': "n < 2 ^ 31 - 2" using n by simp
  have "runs (dnsname_resolved_cb L res d ?w)
    (\<lambda>w'. (\<exists>a s. sessions ?w a = Some s \<and> keeps_going ph (n + 2) a ?w w') \<or>
          core w' \<and> svc_ok w' \<and> sessions w' = sessions ?w \<and> this_dns w' = this_dns ?w \<and> listeners w' = listeners ?w \<and>
          (\<forall>a s. sessions ?w a = Some s \<longrightarrow> logic ph n (hsessions w') (dns_requests w') s))"
    using env laws core svc Y Q invD(4) [OF inv'] n' by (rule dnsname_resolved_cb_runs)
  then show ?thesis
  proof (rule runs_mono)
    fix w' assume "(\<exists>a s. sessions ?w a = Some s \<and> keeps_going ph (n + 2) a ?w w') \<or>
          core w' \<and> svc_ok w' \<and> sessions w' = sessions ?w \<and> this_dns w' = this_dns ?w \<and> listeners w' = listeners ?w \<and>
          (\<forall>a s. sessions ?w a = Some s \<longrightarrow> logic ph n (hsessions w') (dns_requests w') s)"
    then show "inv lst ph (n + 2) w'"
    proof (elim disjE exE conjE)
      fix a s assume "keeps_going ph (n + 2) a ?w w'"
      then show ?thesis using inv_step [OF inv'] by simp
    next
      assume A: "core w'" "svc_ok w'" "sessions w' = sessions ?w" "this_dns w' = this_dns ?w" "listeners w' = listeners ?w"
        "\<forall>a s. sessions ?w a = Some s \<longrightarrow> logic ph n (hsessions w') (dns_requests w') s"
      have "inv lst ph n w'" using A invD(3,5) [OF inv] by (simp add: inv_def)
      then show ?thesis by (rule inv_mono) simp
    qed
  qed
qed

lemma event_step:
  assumes inv: "inv lst ph n w" and ev: "deliverable ev w" "event_ok L ev w" and env: "env_ok L" and laws: "parser_laws L ph"
    and n: "0 \<le> n" "n < 2 ^ 31 - 3"
  shows "runs (handle_event L ev w) (inv lst ph (n + 2))"
proof (cases ev)
  case (Ev_accept l sa local)
  have "runs (handle_event L (Ev_accept l sa local) w) (inv lst ph n)"
    by (rule accept_runs [OF inv laws n(1)]) (use ev Ev_accept in simp_all)
  then show ?thesis unfolding Ev_accept by (rule runs_mono) (erule inv_mono, simp)
next
  case (Ev_read b)
  then obtain B where B: "bevs w b = Some B" "bev_arg B \<noteq> None" using ev(1) by (auto split: option.splits)
  from bev_event [OF inv B] obtain c C a s i h X where c: "bev_arg B = Some c" "channels w c = Some C"
    "ch_service C = Some Http_session_io_service" and v: "serves w a s i h X c b" .
  have "runs (http_session_read_cb L (Some c) w) (keeps_going ph (n + 2) a w)"
  proof (rule http_session_read_cb_runs [OF env laws inv n(2) v])
    assume "i = CLIENT" "hs_state X = HTTP_MESSAGE_COMPLETE"
    then show "evbuffer_get_length L (Output b) (ext w) = 0 \<or> evbuffer_get_length L (Input b) (ext w) = 0"
      using ev(2) Ev_read B(1) c v
      by (auto simp: event_session_def serves_def slot_callbacks_def client_callbacks_def split: option.splits)
  qed
  then have "runs (http_session_read_cb L (Some c) w) (inv lst ph (n + 2))"
    by (rule keeps_going_inv [OF _ inv]) simp_all
  then show ?thesis using Ev_read B(1) c by (simp add: tcp_socket_read_cb_def services_def)
next
  case (Ev_write b)
  then obtain B where B: "bevs w b = Some B" "bev_arg B \<noteq> None" using ev(1) by (auto split: option.splits)
  from bev_event [OF inv B] obtain c C a s i h X where c: "bev_arg B = Some c" "channels w c = Some C"
    "ch_service C = Some Http_session_io_service" and v: "serves w a s i h X c b" .
  have "runs (http_session_write_cb L (Some c) w) (inv lst ph (n + 2))"
    by (rule keeps_going_inv [OF http_session_write_cb_runs [OF inv v] inv]) simp_all
  then show ?thesis using Ev_write B(1) c by (simp add: tcp_socket_write_cb_def services_def)
next
  case (Ev_flags b f)
  then obtain B where B: "bevs w b = Some B" "bev_arg B \<noteq> None" using ev(1) by (auto split: option.splits)
  from bev_event [OF inv B] obtain c C a s i h X where c: "bev_arg B = Some c" "channels w c = Some C"
    "ch_service C = Some Http_session_io_service" and v: "serves w a s i h X c b" .
  let ?w = "set_channel c (C\<lparr>ch_eof := True\<rparr>) w"
  have "runs (http_session_event_cb L (Some c) (io_event_of f) w1) (inv lst ph (n + 2))"
    if "inv lst ph n w1" "serves w1 a s i h X c b" for w1
    by (rule keeps_going_inv [OF http_session_event_cb_runs [OF that] that(1)]) (use n in simp_all)
  then have "runs (http_session_event_cb L (Some c) (io_event_of f) w) (inv lst ph (n + 2))"
    "runs (http_session_event_cb L (Some c) (io_event_of f) ?w) (inv lst ph (n + 2))"
    using inv v inv_eof [OF inv c(2)] serves_eof [OF v c(2)] by blast+
  then show ?thesis using Ev_flags B(1) c by (simp add: tcp_socket_event_cb_def services_def Let_def)
next
  case (Ev_dns q r)
  then show ?thesis using ev dns_event [OF env laws inv _ n(2)] by auto
qed

subsection \<open>The event loop\<close>

text \<open>
  \<open>event_loop L w k w'\<close>: from \<open>w\<close> the event loop can reach \<open>w'\<close> with \<open>k\<close> events. Between events
  the environment moves: the buffers change (data arrives, output leaves), the next answers of
  the allocators and of libevent are drawn, and another worker may take the turn, whose handlers
  work on its own event base and resolver.
\<close>

inductive event_loop :: "('e, 'p) lib \<Rightarrow> ('e, 'p) world \<Rightarrow> nat \<Rightarrow> ('e, 'p) world \<Rightarrow> bool" for L w where
  start: "event_loop L w 0 w"
| environment: "event_loop L w k w1 \<Longrightarrow> event_loop L w k (w1\<lparr>ext := e, answers := bs\<rparr>)"
| worker: "event_loop L w k w1 \<Longrightarrow> event_loop L w k (w1\<lparr>this_ebase := eb, this_dns := Some d\<rparr>)"
| event: "event_loop L w k w1 \<Longrightarrow> deliverable ev w1 \<Longrightarrow> event_ok L ev w1 \<Longrightarrow> handle_event L ev w1 = Some w2 \<Longrightarrow>
    event_loop L w (Suc k) w2"

inductive_cases event_loop_zero: "event_loop L w 0 w'"

lemma core_env: "core (w\<lparr>ext := e, answers := bs\<rparr>) = core w" "core (w\<lparr>this_ebase := eb, this_dns := d\<rparr>) = core w"
  by (simp_all add: core_def fresh_ok_def unused_def)

lemma svc_ok_env:
  "svc_ok (w\<lparr>ext := e, answers := bs\<rparr>) = svc_ok w" "svc_ok (w\<lparr>this_ebase := eb, this_dns := d\<rparr>) = svc_ok w"
  by (simp_all add: svc_ok_def)

lemma inv_env:
  "inv lst ph n w \<Longrightarrow> inv lst ph n (w\<lparr>ext := e, answers := bs\<rparr>)"
  "inv lst ph n w \<Longrightarrow> inv lst ph n (w\<lparr>this_ebase := eb, this_dns := Some d\<rparr>)"
  by (simp_all add: inv_def core_env svc_ok_env)

lemma event_loop_inv:
  assumes env: "env_ok L" and laws: "parser_laws L ph" and start: "inv lst ph 0 w"
  shows "event_loop L w k w' \<Longrightarrow> k < 2 ^ 30 - 1 \<Longrightarrow> inv lst ph (2 * int k) w'"
proof (induction rule: event_loop.induct)
  case start
  then show ?case using assms(3) by simp
next
  case (event k w1 ev w2)
  then have "inv lst ph (2 * int k) w1" by simp
  then have "runs (handle_event L ev w1) (inv lst ph (2 * int k + 2))"
    by (rule event_step [OF _ event.hyps(2,3) env laws]) (use event.prems in simp_all)
  then show ?case using event.hyps(4) by (simp add: algebra_simps)
qed (simp_all add: inv_env)

text \<open>A service that has started and has no client.\<close>

definition idle_service :: "('e, 'p) world \<Rightarrow> bool" where
  "idle_service w \<longleftrightarrow> fresh_ok w \<and> lst_ok (listeners w) (channels w) \<and> svc_ok w \<and> this_dns w \<noteq> None \<and>
     sessions w = Map.empty \<and> hsessions w = Map.empty \<and> bevs w = Map.empty \<and> refs w = Map.empty \<and>
     dns_requests w = Map.empty \<and> resolving w = Map.empty"

lemma idle_inv: "idle_service w \<Longrightarrow> inv (listeners w) ph 0 w"
  by (simp add: idle_service_def inv_def core_def len_ok_def http_ok_def slot_def strs_ok_def refs_ok_def dns_ok_def)


text \<open>A service with one listener, on the libraries of \<open>Scripted\<close>.\<close>

definition demo_world :: "(buffers, nat) world" where
  "demo_world = \<lparr>answers = [], fresh = 10, rwlocks = Map.empty, mutexes = [1 \<mapsto> False], refs = Map.empty, strs = Map.empty,
     ext = (\<lambda>b. ''''), fds = {2}, bevs = Map.empty, listeners = [3 \<mapsto> \<lparr>lst_fd = 2, lst_arg = Some 4\<rparr>],
     channels = [4 \<mapsto> \<lparr>ch_service = Some Http_io_service, ch_eof = False, ch_ctx = None, ch_io = Some 3, ch_listen = True\<rparr>],
     this_ebase = Some 5, this_dns = Some 6, hsessions = Map.empty, bodies = {}, sessions = Map.empty,
     dns_requests = Map.empty, resolving = Map.empty, lh = List_Store (snd (list_new empty_heap)),
     svc_sessions = Some 0, svc_mutex = Some 1\<rparr>"

definition demo_sockaddr :: sockaddr where
  "demo_sockaddr = \<lparr>sa_family = AF_INET, sa_address = ''127.0.0.1'', sa_port = 5000\<rparr>"

lemma demo_holds: "list_queue.holds (snd (list_new empty_heap)) 0 []" "will_succeed (snd (list_new empty_heap))"
proof -
  obtain h where h: "list_new empty_heap = (Some (fresh empty_heap), h)" "heap_rep h (Map.empty(fresh empty_heap \<mapsto> []))"
    by (rule list_new_heap [OF heap_rep_empty]) (simp_all add: empty_heap_def)
  then show "list_queue.holds (snd (list_new empty_heap)) 0 []"
    by (auto simp: list_queue.holds_def queue_rep_def empty_heap_def)
  show "will_succeed (snd (list_new empty_heap))"
    by (simp add: list_new_def new_addr_def ask_def empty_heap_def set_list_def)
qed

lemma demo_idle: "idle_service demo_world"
  by (simp add: idle_service_def demo_world_def fresh_ok_def unused_def unused_set_def lst_ok_def svc_ok_def demo_holds)


end
