(* ===== verification/Behaviours.thy ===== *)
theory Behaviours
  imports Safety
begin

section \<open>What the handlers do\<close>

text \<open>
  Correctness of single steps beyond safety: the types of the pointers the callbacks receive, who
  holds what between two events, how far the parser gets, the response the client gets, and the DNS
  answer that comes too late.
\<close>

subsection \<open>Between two events\<close>

text \<open>The service of \<open>Safety\<close> after it has accepted a connection.\<close>

lemma demo_accepted: "\<exists>w. event_loop scripted demo_world 1 w"
proof -
  have "runs (handle_event scripted (Ev_accept 3 demo_sockaddr demo_sockaddr) demo_world)
      (inv (listeners demo_world) toy_phase (0 + 2))"
    by (rule event_step [OF idle_inv [OF demo_idle] _ _ scripted_env scripted_parser]) (simp_all add: demo_world_def demo_holds)
  then obtain w where w: "handle_event scripted (Ev_accept 3 demo_sockaddr demo_sockaddr) demo_world = Some w"
    by (auto simp: runs_def simp del: handle_event.simps)
  have "event_loop scripted demo_world (Suc 0) w"
    by (rule event_loop.event [OF event_loop.start _ _ w]) (simp_all add: demo_world_def demo_holds)
  then show ?thesis by auto
qed





subsection \<open>A DNS answer that comes too late\<close>

text \<open>C11.
  An answer for a session that is gone is harmless: it is not delivered to anybody, its DNS request is
  released, and the reference struct loses this weak holder and is released with the last one. Nothing else changes.
\<close>

theorem late_dns_answer:
  assumes core: "core w" and q: "resolving w q = Some d" "dns_requests w d = Some D" "dr_session D = Some r"
    and r: "refs w r = Some X" "ref_ptr X = None"
  shows "0 < weak_refcnt X \<and> handle_event L (Ev_dns q result) w = Some (w\<lparr>resolving := (resolving w)(q := None),
     dns_requests := (dns_requests w)(d := None),
     refs := (refs w)(r := if weak_refcnt X = 1 then None else Some (X\<lparr>weak_refcnt := weak_refcnt X - 1\<rparr>))\<rparr>)"
proof -
  have wk: "0 < weak_refcnt X" "int_ok (weak_refcnt X - 1)"
    using refs_okD(2,3) [OF coreD(5) [OF core] r(1)] r(2) by (auto simp: weak_holders_def int_ok_def)
  then show ?thesis using q r
    by (auto simp: dnsname_resolved_cb_def reference_get_def dns_request_free_def reference_weak_dec_def Let_def)
qed

text \<open>A state with one resolution in progress whose session is gone.\<close>

definition orphan_world :: "(buffers, nat) world" where
  "orphan_world = demo_world\<lparr>dns_requests := [7 \<mapsto> \<lparr>dr_idx = NAME, dr_evdns_req = Some 8, dr_session = Some 9\<rparr>],
     resolving := [8 \<mapsto> 7], refs := [9 \<mapsto> \<lparr>ref_ptr = None, refcnt = 0, weak_refcnt = 1, free_fn = False\<rparr>]\<rparr>"

lemma orphan_core: "core orphan_world"
  by (auto simp: orphan_world_def demo_world_def core_def fresh_ok_def unused_def unused_set_def len_ok_def http_ok_def slot_def strs_ok_def
      refs_ok_def ref_good_def weak_holders_def pending_def dns_ok_def lst_ok_def slots)

theorem late_dns_answer_witness:
  "\<exists>w. handle_event scripted (Ev_dns 8 (Gai_addrs [demo_sockaddr])) orphan_world = Some w \<and>
     dns_requests w = Map.empty \<and> refs w = Map.empty \<and> resolving w = Map.empty"
  using late_dns_answer [OF orphan_core, of 8 7 "\<lparr>dr_idx = NAME, dr_evdns_req = Some 8, dr_session = Some 9\<rparr>" 9
      "\<lparr>ref_ptr = None, refcnt = 0, weak_refcnt = 1, free_fn = False\<rparr>" scripted "Gai_addrs [demo_sockaddr]"]
  by (simp add: orphan_world_def demo_world_def)

subsection \<open>The response\<close>

text \<open>The client of session \<open>a\<close> is on the buffer \<open>b\<close>.\<close>

definition client_output :: "addr \<Rightarrow> evbuf \<Rightarrow> ('e, 'p) world \<Rightarrow> bool" where
  "client_output a b w \<longleftrightarrow> (\<exists>s h X. sessions w a = Some s \<and> ss_http s ! CLIENT = Some h \<and> hsessions w h = Some X \<and>
     tcp_socket_get_output (hs_channel X) w = Some b)"

text \<open>Memory for the two texts and a date, and no call on a buffer fails.\<close>

definition can_respond :: "('e, 'p) lib \<Rightarrow> ('e, 'p) world \<Rightarrow> bool" where
  "can_respond L w \<longleftrightarrow> answer 0 w \<and> answer 1 w \<and> no_failures L \<and> http_get_datetime L w \<noteq> None"

lemma http_client_response_sends:
  assumes laws: "evbuffer_laws L C" and ready: "response_ready a name surname joke w"
    and s: "sessions w a = Some s" "ss_name_replied s" "ss_joke_replied s" and out: "client_output a b w" and can: "can_respond L w"
    and fr: "unused (fresh w) (strs w)"
  shows "\<exists>w' t. http_client_response L a w = Some w' \<and> C b (ext w') = C b (ext w) @ t \<and>
     read_response t = Some (''HTTP/1.0 200 OK'', personalised name surname joke) \<and> (\<forall>b'. b' \<noteq> b \<longrightarrow> C b' (ext w') = C b' (ext w)) \<and>
     sessions w' = (sessions w)(a \<mapsto> s\<lparr>ss_name := None, ss_joke := None, ss_surname := None, ss_state := CLIENT_RESPONSE\<rparr>) \<and>
     dom (strs w') = dom (strs w) - str_ptrs s"
proof -
  obtain n sn j where p: "ss_name s = Some n" "ss_surname s = Some sn" "ss_joke s = Some j"
    using ready s(1) by (auto elim!: response_readyE)
  obtain h X where h: "ss_http s ! CLIENT = Some h" "hsessions w h = Some X" "tcp_socket_get_output (hs_channel X) w = Some b"
    using out s(1) by (auto simp: client_output_def)
  have a: "answer 0 w" "answer (Suc 0) w" using can by (simp_all add: can_respond_def)
  have none: "strs w (fresh w) = None" "strs w (Suc (fresh w)) = None" using fr by (simp_all add: unused_def)
  let ?t = "personalised name surname joke"
  let ?w1 = "w\<lparr>answers := tl (tl (answers w)), fresh := Suc (Suc (fresh w)), sessions := (sessions w)(a \<mapsto> drop_strings True s),
     strs := (strs w)(n := None, sn := None, j := None, Suc (fresh w) \<mapsto> ?t, fresh w := None)\<rparr>"
  have make: "client_response_create a w = Some (Some (Suc (fresh w)), ?w1)"
    using client_response_create_result [OF ready s(1) p] a by simp
  have get: "tcp_socket_get_output (hs_channel X) ?w1 = Some b" "http_get_datetime L ?w1 = http_get_datetime L w"
    using h(3) by (simp_all add: tcp_socket_get_output_def channel_bev_def http_get_datetime_def)
  have h1: "hsessions ?w1 h = Some X" "strs ?w1 (Suc (fresh w)) = Some ?t" using h(2) by simp_all
  obtain r w' where w': "http_response_write L h (Suc (fresh w)) ?w1 = Some (r, w')"
    "r = 0 \<longrightarrow> strs w' = (strs ?w1)(Suc (fresh w) := None) \<and>
        (\<exists>t. C b (ext w') = C b (ext ?w1) @ t \<and> read_response t = Some (''HTTP/1.0 200 OK'', ?t))"
    "no_failures L \<and> http_get_datetime L ?w1 \<noteq> None \<longrightarrow> r = 0" "\<forall>b'. b' \<noteq> b \<longrightarrow> C b' (ext w') = C b' (ext ?w1)"
    using http_response_write_result [OF laws h1(1) get(1) h1(2)] by blast
  have r: "r = 0" using w'(3) get(2) can by (simp add: can_respond_def)
  then obtain t where t: "strs w' = (strs ?w1)(Suc (fresh w) := None)" "C b (ext w') = C b (ext w) @ t"
    "read_response t = Some (''HTTP/1.0 200 OK'', ?t)" using w'(2) by auto
  obtain bv where "channel_bev (hs_channel X) ?w1 = Some bv"
    using get(1) by (auto simp: tcp_socket_get_output_def split: bind_splits)
  from http_response_write_ext [OF h1(1) this h1(2), of L] w'(1)
  have same: "sessions w' = sessions ?w1" by auto
  let ?s = "s\<lparr>ss_name := None, ss_joke := None, ss_surname := None, ss_state := CLIENT_RESPONSE\<rparr>"
  let ?w2 = "w'\<lparr>sessions := (sessions w)(a \<mapsto> ?s)\<rparr>"
  have "http_client_response L a w = Some ?w2"
    using s make h(1) w'(1) r same
    by (simp add: http_client_response_def session_state_set_def upd_session_def drop_strings_def)
  moreover have "dom (strs w') = dom (strs w) - str_ptrs s"
    unfolding t(1) using none p by (auto simp: str_ptrs_def split: if_splits)
  ultimately show ?thesis using t(2,3) w'(4) by (intro exI [of _ ?w2] exI [of _ t]) simp
qed

definition response_sent :: "(evbuf \<Rightarrow> 'e \<Rightarrow> string) \<Rightarrow> evbuf \<Rightarrow> string \<Rightarrow> addr \<Rightarrow> ('e, 'p) world \<Rightarrow> ('e, 'p) world \<Rightarrow> bool" where
  "response_sent C b text a w w' \<longleftrightarrow>
     (\<exists>t. C b (ext w') = C b (ext w) @ t \<and> read_response t = Some (''HTTP/1.0 200 OK'', text)) \<and>
     (\<forall>b'. b' \<noteq> b \<longrightarrow> C b' (ext w') = C b' (ext w)) \<and>
     (\<exists>s. sessions w' a = Some s \<and> ss_state s = CLIENT_RESPONSE \<and> str_ptrs s = {})"

text \<open>Releasing the upstream server that answered last, and responding.\<close>

lemma release_and_respond:
  assumes laws: "evbuffer_laws L C" and core: "core w" and ready: "response_ready a name surname joke w"
    and s: "sessions w a = Some s" "ss_name_replied s" "ss_joke_replied s" and out: "client_output a b w" and can: "can_respond L w"
    and i: "i < 3" "i \<noteq> CLIENT" "ss_http s ! i = Some h"
  shows "\<exists>w'. do { w1 \<leftarrow> http_session_free (Some h) w; w2 \<leftarrow> upd_session a (\<lambda>s. s\<lparr>ss_http := (ss_http s)[i := None]\<rparr>) w1;
        http_client_response L a w2 } = Some w' \<and> response_sent C b (personalised name surname joke) a w w'"
proof -
  note K0 = coreD [OF core]
  obtain hc X where hc: "ss_http s ! CLIENT = Some hc" "hsessions w hc = Some X" "tcp_socket_get_output (hs_channel X) w = Some b"
    using out s(1) by (auto simp: client_output_def)
  have sl: "slot (sessions w) a i h" "slot (sessions w) a CLIENT hc" using s(1) i hc(1) by (simp_all add: slot_def slots)
  obtain K where K: "chain (hsessions w) (bodies w) (channels w) (bevs w) a i h K" by (rule slot_chain [OF core sl(1)])
  obtain KC where KC: "chain (hsessions w) (bodies w) (channels w) (bevs w) a CLIENT hc KC" by (rule slot_chain [OF core sl(2)])
  have ne: "hc \<noteq> h" using chain_slot_unique [OF K, of a CLIENT KC] KC i(1,2) by (auto simp: slots)
  then have ne2: "co_ca KC \<noteq> co_ca K" "co_ba KC \<noteq> co_ba K" using chain_channel_unique [OF KC K] chain_bev_unique [OF KC K] by auto
  obtain F where F: "http_session_free (Some h) w = Some (w\<lparr>hsessions := (hsessions w)(h := None),
     bodies := bodies w - {e. hs_body (co_hs K) = Some e}, channels := (channels w)(co_ca K := None),
     bevs := (bevs w)(co_ba K := None), fds := F\<rparr>)" (is "_ = Some ?w1") using free_chain [OF K] by blast
  let ?s = "s\<lparr>ss_http := (ss_http s)[i := None]\<rparr>"
  let ?w2 = "?w1\<lparr>sessions := (sessions w)(a \<mapsto> ?s)\<rparr>"
  have up: "upd_session a (\<lambda>s. s\<lparr>ss_http := (ss_http s)[i := None]\<rparr>) ?w1 = Some ?w2" using s(1) by (simp add: upd_session_def)
  have XK: "co_hs KC = X" "hs_channel X = Some (co_ca KC)" "b = Output (co_ba KC)"
    using KC hc(2,3) by (auto simp: chain_def tcp_socket_get_output_def channel_bev_def)
  have "response_ready a name surname joke ?w2" using ready s(1) by (auto simp: response_ready_def split: option.splits)
  moreover have "client_output a b ?w2"
    using hc(1,2) ne ne2 XK KC i(2) by (auto simp: client_output_def tcp_socket_get_output_def channel_bev_def chain_def)
  moreover have "can_respond L ?w2" using can by (simp add: can_respond_def http_get_datetime_def)
  moreover have "unused (fresh ?w2) (strs ?w2)" using K0(1) by (simp add: fresh_ok_def)
  ultimately obtain w' t where w': "http_client_response L a ?w2 = Some w'" "C b (ext w') = C b (ext ?w2) @ t"
     "read_response t = Some (''HTTP/1.0 200 OK'', personalised name surname joke)" "\<forall>b'. b' \<noteq> b \<longrightarrow> C b' (ext w') = C b' (ext ?w2)"
     "sessions w' = (sessions ?w2)(a \<mapsto> ?s\<lparr>ss_name := None, ss_joke := None, ss_surname := None, ss_state := CLIENT_RESPONSE\<rparr>)"
     "dom (strs w') = dom (strs ?w2) - str_ptrs ?s"
    using http_client_response_sends [OF laws, of a name surname joke ?w2 ?s b] s by auto
  then have "response_sent C b (personalised name surname joke) a w w'" by (auto simp: response_sent_def str_ptrs_def)
  with F up w'(1) show ?thesis by simp
qed

text \<open>The upstream server in slot \<open>i\<close> of the session \<open>a\<close> has sent the text \<open>p\<close>; nothing will fail.\<close>

definition reply_arrived :: "('e, 'p) lib \<Rightarrow> addr \<Rightarrow> session \<Rightarrow> nat \<Rightarrow> addr \<Rightarrow> string \<Rightarrow> evbuf \<Rightarrow> ('e, 'p) world \<Rightarrow> bool" where
  "reply_arrived L a s i h p b w \<longleftrightarrow> core w \<and> env_ok L \<and> no_failures L \<and> answers w = [] \<and> http_get_datetime L w \<noteq> None \<and>
     sessions w a = Some s \<and> ss_http s ! i = Some h \<and> int_ok (ss_pending_replies s - 1) \<and>
     message_text L h w = Some (Some p) \<and> json_loadb L p \<and> client_output a b w"

lemma reply_master:
  assumes "reply_arrived L a s i h p b w" "i < 3"
  shows "http_session_master h w = Some a"
proof -
  have "slot (sessions w) a i h" using assms by (simp add: reply_arrived_def slot_def)
  moreover have core: "core w" using assms by (simp add: reply_arrived_def)
  ultimately obtain K where "chain (hsessions w) (bodies w) (channels w) (bevs w) a i h K" by (meson slot_chain)
  then show ?thesis by (auto simp: chain_def http_session_master_def)
qed

lemma strdup_ok:
  fixes w :: "('e, 'p) world"
  assumes "answers w = []" "c_string t"
  shows "strdup t w = (Some (fresh w), w\<lparr>fresh := Suc (fresh w), strs := (strs w)(fresh w \<mapsto> t)\<rparr>)"
proof -
  have "takeWhile (\<lambda>c. c \<noteq> nul) t = t" using assms(2) by (auto simp: takeWhile_eq_all_conv c_string_def)
  with assms(1) show ?thesis by (auto simp: strdup_def new_addr_if intro!: world.equality)
qed

text \<open>A session that stores a new string.\<close>

lemma core_new_string:
  assumes core: "core w" and s: "sessions w a = Some s" and t: "c_string t" "length t \<le> 1000"
    and same: "ss_http s' = ss_http s" "ss_me s' = ss_me s"
    and new: "str_ptrs s' \<subseteq> insert (fresh w) (str_ptrs s)" "fresh w \<notin> str_ptrs s \<Longrightarrow> distinct_strs s'"
  shows "core (w\<lparr>fresh := Suc (fresh w), strs := (strs w)(fresh w \<mapsto> t), sessions := (sessions w)(a \<mapsto> s')\<rparr>)"
proof -
  note K = coreD [OF core]
  have none: "strs w (fresh w) = None" using K(1) by (simp add: fresh_ok_def unused_def)
  have free: "fresh w \<notin> str_ptrs s1" if "sessions w a1 = Some s1" for a1 s1
    using strs_okD(2) [OF K(4) that, of "fresh w"] none by auto
  have "strs_ok ((sessions w)(a \<mapsto> s')) ((strs w)(fresh w \<mapsto> t))"
  proof (rule strs_ok_change [OF K(4) new(2)])
    show "fresh w \<notin> str_ptrs s" by (rule free [OF s])
    show "(\<exists>s. sessions w a = Some s \<and> p \<in> str_ptrs s) \<or> strs w p = None" if "p \<in> str_ptrs s'" for p
      using that new(1) s none by auto
    show "\<exists>u. ((strs w)(fresh w \<mapsto> t)) p = Some u \<and> text_ok u" if "p \<in> str_ptrs s'" for p
      using that new(1) t strs_okD(2) [OF K(4) s, of p] by (auto simp: text_ok_def)
    show "((strs w)(fresh w \<mapsto> t)) p = strs w p" if "sessions w a1 = Some s1" "p \<in> str_ptrs s1" for a1 s1 p
      using free [OF that(1)] that(2) by auto
  qed
  moreover have "unused (Suc (fresh w)) ((strs w)(fresh w \<mapsto> t))" using K(1) by (simp add: fresh_ok_def unused_new)
  moreover have "fresh_ok (w\<lparr>fresh := Suc (fresh w)\<rparr>)" by (rule fresh_ok_mono [OF K(1)]) simp
  ultimately show ?thesis
    using K(2-) s same http_ok_same [OF K(3) s same(1)]
    by (simp add: core_def fresh_ok_def len_ok_def refs_ok_same unused_upd)
qed

text \<open>C9.
  The joke arrives after the name. When the name server has answered and the joke server's response is complete and well formed,
  \<open>http_response_joke\<close> writes to its client, and to nobody else, one complete response with status 200 whose body is the joke with the name and the
  surname put in; the session then has released its strings and waits for the client to read it.
\<close>

theorem joke_reply_completes:
  assumes re: "reply_arrived L a s JOKE h p b w" and laws: "evbuffer_laws L C"
    and joke: "json_unpack L p [[''value'', ''joke'']] = Some [joke]" "c_string joke"
    and name: "ss_name_replied s" "ss_name s = Some n" "ss_surname s = Some sn" "strs w n = Some name" "strs w sn = Some surname"
  shows "\<exists>w'. http_response_joke L h w = Some w' \<and> response_sent C b (personalised name surname joke) a w w'"
proof -
  note R = re [unfolded reply_arrived_def]
  have core: "core w" using R by blast
  note K0 = coreD [OF core]
  have s: "sessions w a = Some s" "ss_http s ! JOKE = Some h" using R by blast+
  have T: "text_ok name" "text_ok surname" "n < fresh w" "sn < fresh w" "n \<noteq> sn"
    using strs_okD(2) [OF K0(4) s(1), of n] strs_okD(2) [OF K0(4) s(1), of sn] strs_okD(1) [OF K0(4) s(1)] name K0(1)
    by (auto simp: str_ptrs_def distinct_strs_def fresh_ok_def intro: unused_lt)
  have len: "length joke \<le> 1000" using R joke(1) by (auto simp: env_ok_def)
  let ?q = "fresh w"
  have qn: "strs w ?q = None" using K0(1) by (simp add: fresh_ok_def unused_def)
  let ?s3 = "s\<lparr>ss_pending_replies := ss_pending_replies s - 1, ss_joke := Some ?q, ss_joke_replied := True\<rparr>"
  let ?w3 = "w\<lparr>fresh := Suc ?q, strs := (strs w)(?q \<mapsto> joke), sessions := (sessions w)(a \<mapsto> ?s3)\<rparr>"
  have run: "http_response_joke L h w = do { w4 \<leftarrow> http_session_free (Some h) ?w3;
       w5 \<leftarrow> upd_session a (\<lambda>s. s\<lparr>ss_http := (ss_http s)[JOKE := None]\<rparr>) w4; http_client_response L a w5 }"
    using R reply_master [OF re] joke
    by (auto simp: http_response_joke_def slot_indices upd_session_def strdup_ok message_text_def http_session_body_def
        split: bind_splits if_splits intro!: arg_cong2 [where f = Option.bind] world.equality)
  have "response_ready a name surname joke ?w3"
    using name joke(2) T qn personalised_length [of name surname joke] len
    by (auto simp: response_ready_def text_ok_def)
  moreover have "core ?w3"
    by (rule core_new_string [OF core s(1) joke(2) len]) (use name T(5) in \<open>auto simp: str_ptrs_def distinct_strs_def\<close>)
  moreover have "client_output a b ?w3" using R by (auto simp: client_output_def tcp_socket_get_output_def channel_bev_def)
  moreover have "can_respond L ?w3" using R by (simp add: can_respond_def http_get_datetime_def answer_def)
  ultimately show ?thesis
    using release_and_respond [OF laws, where w = ?w3 and a = a and s = ?s3 and b = b and i = JOKE and h = h] name(1) s(2) slot_indices
    unfolding run by (simp add: response_sent_def)
qed

text \<open>C10.
  The name arrives after the joke: the other order has the same result.
\<close>

theorem name_reply_completes:
  assumes re: "reply_arrived L a s NAME h p b w" and laws: "evbuffer_laws L C"
    and name: "json_unpack L p [[''name''], [''surname'']] = Some [name, surname]" "c_string name" "c_string surname"
    and joke: "ss_joke_replied s" "ss_joke s = Some j" "strs w j = Some joke"
  shows "\<exists>w'. http_response_name L h w = Some w' \<and> response_sent C b (personalised name surname joke) a w w'"
proof -
  note R = re [unfolded reply_arrived_def]
  have core: "core w" using R by blast
  note K0 = coreD [OF core]
  have s: "sessions w a = Some s" "ss_http s ! NAME = Some h" using R by blast+
  have T: "text_ok joke" "j < fresh w"
    using strs_okD(2) [OF K0(4) s(1), of j] joke K0(1) by (auto simp: str_ptrs_def fresh_ok_def intro: unused_lt)
  have len: "length name \<le> 1000" "length surname \<le> 1000" using R name(1) by (auto simp: env_ok_def)
  let ?q = "fresh w"
  have none: "strs w ?q = None" "strs w (Suc ?q) = None" using K0(1) by (simp_all add: fresh_ok_def unused_def)
  let ?s3 = "s\<lparr>ss_pending_replies := ss_pending_replies s - 1, ss_name := Some ?q\<rparr>"
  let ?w3 = "w\<lparr>fresh := Suc ?q, strs := (strs w)(?q \<mapsto> name), sessions := (sessions w)(a \<mapsto> ?s3)\<rparr>"
  let ?s5 = "?s3\<lparr>ss_surname := Some (Suc ?q), ss_name_replied := True\<rparr>"
  let ?w5 = "w\<lparr>fresh := Suc (Suc ?q), strs := (strs w)(?q \<mapsto> name, Suc ?q \<mapsto> surname), sessions := (sessions w)(a \<mapsto> ?s5)\<rparr>"
  have run: "http_response_name L h w = do { w6 \<leftarrow> http_session_free (Some h) ?w5;
       w7 \<leftarrow> upd_session a (\<lambda>s. s\<lparr>ss_http := (ss_http s)[NAME := None]\<rparr>) w6; http_client_response L a w7 }"
    using R reply_master [OF re] name
    by (auto simp: http_response_name_def slot_indices upd_session_def strdup_ok message_text_def http_session_body_def
        split: bind_splits if_splits intro!: arg_cong2 [where f = Option.bind] world.equality)
  have d: "distinct_strs s" by (rule strs_okD(1) [OF K0(4) s(1)])
  have c3: "core ?w3"
    by (rule core_new_string [OF core s(1) name(2) len(1)]) (use d in \<open>auto simp: str_ptrs_def distinct_strs_def\<close>)
  have d3: "distinct_strs ?s3" using strs_okD(1) [OF coreD(4) [OF c3], of a] by simp
  have "core (?w3\<lparr>fresh := Suc (fresh ?w3), strs := (strs ?w3)(fresh ?w3 \<mapsto> surname), sessions := (sessions ?w3)(a \<mapsto> ?s5)\<rparr>)"
    by (rule core_new_string [OF c3 _ name(3) len(2), where s = ?s3]) (use d3 in \<open>auto simp: str_ptrs_def distinct_strs_def\<close>)
  then have "core ?w5" by simp
  moreover have "response_ready a name surname joke ?w5"
    using joke name T none personalised_length [of name surname joke] len
    by (auto simp: response_ready_def text_ok_def)
  moreover have "client_output a b ?w5" using R by (auto simp: client_output_def tcp_socket_get_output_def channel_bev_def)
  moreover have "can_respond L ?w5" using R by (simp add: can_respond_def http_get_datetime_def answer_def)
  ultimately show ?thesis
    using release_and_respond [OF laws, where w = ?w5 and a = a and s = ?s5 and b = b and i = NAME and h = h] joke(1) s(2) slot_indices
    unfolding run by (simp add: response_sent_def)
qed

subsection \<open>A concrete reply\<close>

text \<open>Session 4 with its client (HTTP session 5) and one upstream server (HTTP session 6) in slot \<open>i\<close>; the other server has answered.\<close>

definition waiting_session :: "nat \<Rightarrow> session" where
  "waiting_session i = zero_session\<lparr>ss_http := [Some 5, None, None][i := Some 6], ss_name := (if i = JOKE then Some 20 else None),
     ss_surname := (if i = JOKE then Some 21 else None), ss_joke := (if i = JOKE then None else Some 22),
     ss_name_replied := (i = JOKE), ss_joke_replied := (i \<noteq> JOKE), ss_pending_replies := 1\<rparr>"

definition waiting_hs :: "nat \<Rightarrow> addr \<Rightarrow> nat http_session" where
  "waiting_hs i c = \<lparr>hs_master = 4, hs_state = HTTP_MESSAGE_COMPLETE, hs_len = 0, hs_parser = 0,
     hs_body = (if i = CLIENT then None else Some 8), hs_channel = Some c, hs_cbs = slot_callbacks i\<rparr>"

definition waiting_channel :: "addr \<Rightarrow> addr \<Rightarrow> channel" where
  "waiting_channel h b = \<lparr>ch_service = Some Http_session_io_service, ch_eof = False, ch_ctx = Some h, ch_io = Some b, ch_listen = False\<rparr>"

definition waiting_bev :: "addr \<Rightarrow> bev" where
  "waiting_bev c = \<lparr>bev_fd = 3, bev_arg = Some c, bev_high_wm = 0\<rparr>"

definition waiting_world :: "nat \<Rightarrow> (buffers, nat) world" where
  "waiting_world i = demo_world\<lparr>fresh := 30, fds := {3}, listeners := Map.empty, strs := [20 \<mapsto> ''Al'', 21 \<mapsto> ''Bo'', 22 \<mapsto> ''Eduardo Panisset''],
     
     hsessions := [5 \<mapsto> waiting_hs CLIENT 1, 6 \<mapsto> waiting_hs i 7], channels := [1 \<mapsto> waiting_channel 5 2, 7 \<mapsto> waiting_channel 6 9],
     bevs := [2 \<mapsto> waiting_bev 1, 9 \<mapsto> waiting_bev 7], bodies := {8}, sessions := [4 \<mapsto> waiting_session i]\<rparr>"

lemma waiting_chain:
  "chain [5 \<mapsto> waiting_hs CLIENT 1, 6 \<mapsto> waiting_hs i 7] {8} [1 \<mapsto> waiting_channel 5 2, 7 \<mapsto> waiting_channel 6 9] [2 \<mapsto> waiting_bev 1, 9 \<mapsto> waiting_bev 7]
     4 CLIENT 5 \<lparr>co_hs = waiting_hs CLIENT 1, co_ca = 1, co_ch = waiting_channel 5 2, co_ba = 2, co_bev = waiting_bev 1\<rparr>"
  "chain [5 \<mapsto> waiting_hs CLIENT 1, 6 \<mapsto> waiting_hs i 7] {8} [1 \<mapsto> waiting_channel 5 2, 7 \<mapsto> waiting_channel 6 9] [2 \<mapsto> waiting_bev 1, 9 \<mapsto> waiting_bev 7]
     4 i 6 \<lparr>co_hs = waiting_hs i 7, co_ca = 7, co_ch = waiting_channel 6 9, co_ba = 9, co_bev = waiting_bev 7\<rparr>"
  by (simp_all add: chain_def waiting_hs_def waiting_channel_def waiting_bev_def)

lemma waiting_slot:
  assumes "i \<in> {NAME, JOKE}"
  shows "slot [4 \<mapsto> waiting_session i] a j h \<longleftrightarrow> a = 4 \<and> (j = CLIENT \<and> h = 5 \<or> j = i \<and> h = 6)"
  using assms by (auto simp: slot_def waiting_session_def zero_session_def slots numeral_3_eq_3 less_Suc_eq)

lemma waiting_core:
  assumes i: "i \<in> {NAME, JOKE}"
  shows "core (waiting_world i)"
proof -
  let ?H = "[5 \<mapsto> waiting_hs CLIENT 1, 6 \<mapsto> waiting_hs i 7]"
  let ?C = "[1 \<mapsto> waiting_channel 5 2, 7 \<mapsto> waiting_channel 6 9]"
  let ?V = "[2 \<mapsto> waiting_bev 1, 9 \<mapsto> waiting_bev 7]"
  have "http_ok [4 \<mapsto> waiting_session i] ?H {8} ?C ?V"
  proof (rule http_okI)
    show "link ?H {8} ?C ?V a j h" if "slot [4 \<mapsto> waiting_session i] a j h" for a j h
      using that waiting_chain [of i] unfolding waiting_slot [OF i] link_def by blast
    show "\<exists>a j h K. slot [4 \<mapsto> waiting_session i] a j h \<and> chain ?H {8} ?C ?V a j h K \<and> co_ca K = c \<and> co_ba K = b"
      if "?V b = Some B" "bev_arg B = Some c" for b B c
    proof -
      have "b = 2 \<and> c = 1 \<or> b = 9 \<and> c = 7" using that by (auto simp: waiting_bev_def split: if_splits)
      then show ?thesis using waiting_chain [of i] unfolding waiting_slot [OF i] by fastforce
    qed
  qed (use i in \<open>auto simp: waiting_hs_def slots split: if_splits\<close>)
  moreover have "strs_ok [4 \<mapsto> waiting_session i] [20 \<mapsto> ''Al'', 21 \<mapsto> ''Bo'', 22 \<mapsto> ''Eduardo Panisset'']"
    using i by (auto simp: strs_ok_def waiting_session_def zero_session_def distinct_strs_def str_ptrs_def text_ok_def c_string_def nul_def)
  moreover have "len_ok [4 \<mapsto> waiting_session i]" using i by (auto simp: len_ok_def waiting_session_def slots)
  moreover have "ss_me (waiting_session i) = None" by (simp add: waiting_session_def zero_session_def)
  ultimately show ?thesis
    by (simp add: core_def waiting_world_def demo_world_def refs_ok_def dns_ok_def lst_ok_def fresh_ok_def unused_def unused_set_def)
qed

lemma date_fits:
  assumes "gmtime L (ext w) = Some tm" "tm_valid tm" "four_chars (tm_year tm)"
  shows "http_get_datetime L w = Some (date_text tm)"
proof -
  have "length (date_text tm) = 37"
    using assms(2,3) decimal_int_four [of "tm_year tm"]
    by (simp add: date_text_def tm_valid_def day_name_length month_name_length two_digits_length crlf_def)
  then show ?thesis using assms(1) by (simp add: http_get_datetime_def strftime_def)
qed

lemma scripted_no_failures: "no_failures scripted"
  by (simp add: no_failures_def scripted_def list_add_def)

lemma scripted_date: "gmtime scripted e = Some \<lparr>tm_wday = 4, tm_mday = 1, tm_mon = 0, tm_year = 1970,
    tm_hour = 0, tm_min = 0, tm_sec = 0\<rparr>"
  by (simp add: scripted_def)

lemma waiting_reply:
  assumes i: "i \<in> {NAME, JOKE}"
  shows "reply_arrived scripted 4 (waiting_session i) i 6 '''' (Output 2) (waiting_world i)"
  unfolding reply_arrived_def
proof (intro conjI)
  show "core (waiting_world i)" by (rule waiting_core [OF i])
  show "env_ok scripted" by (rule scripted_env)
  show "no_failures scripted" by (rule scripted_no_failures)
  show "http_get_datetime scripted (waiting_world i) \<noteq> None"
    using date_fits [OF scripted_date, of "waiting_world i"] by (simp add: tm_valid_def four_chars_def)
  show "client_output 4 (Output 2) (waiting_world i)"
    using i by (auto simp: client_output_def waiting_world_def waiting_session_def zero_session_def slots tcp_socket_get_output_def
        channel_bev_def waiting_hs_def waiting_channel_def)
  show "message_text scripted 6 (waiting_world i) = Some (Some '''')"
    using i by (auto simp: message_text_def http_session_body_def waiting_world_def waiting_hs_def slots scripted_def demo_world_def)
  show "json_loadb scripted ''''" by (simp add: scripted_def)
  show "ss_http (waiting_session i) ! i = Some 6" using i by (auto simp: waiting_session_def slots)
qed (simp_all add: waiting_world_def demo_world_def waiting_session_def int_ok_def)

theorem joke_reply_completes_witness:
  "\<exists>w t. http_response_joke scripted 6 (waiting_world JOKE) = Some w \<and> ext w (Output 2) = t \<and> read_response t = Some (''HTTP/1.0 200 OK'', ''Al Bo codes.'')"
proof -
  have "personalised ''Al'' ''Bo'' ''Eduardo Panisset codes.'' = ''Al Bo codes.''" by (simp add: personalised_def)
  moreover have "ss_name_replied (waiting_session JOKE)" "ss_name (waiting_session JOKE) = Some 20" "ss_surname (waiting_session JOKE) = Some 21"
    by (simp_all add: waiting_session_def)
  moreover have "strs (waiting_world JOKE) 20 = Some ''Al''" "strs (waiting_world JOKE) 21 = Some ''Bo''" "ext (waiting_world JOKE) (Output 2) = ''''"
    by (simp_all add: waiting_world_def demo_world_def)
  moreover have "json_unpack scripted '''' [[''value'', ''joke'']] = Some [''Eduardo Panisset codes.'']" "c_string ''Eduardo Panisset codes.''" by (simp_all add: scripted_def c_string_def nul_def)
  ultimately show ?thesis
    using joke_reply_completes [OF waiting_reply scripted_buffers, where joke = "''Eduardo Panisset codes.''" and n = 20 and sn = 21 and name = "''Al''" and surname = "''Bo''"]
    by (auto simp: response_sent_def)
qed

theorem name_reply_completes_witness:
  "\<exists>w t. http_response_name scripted 6 (waiting_world NAME) = Some w \<and> ext w (Output 2) = t \<and> read_response t = Some (''HTTP/1.0 200 OK'', ''Ann Ann'')"
proof -
  have "personalised ''Ann'' ''Ann'' ''Eduardo Panisset'' = ''Ann Ann''" by (simp add: personalised_def)
  moreover have "ss_joke_replied (waiting_session NAME)" "ss_joke (waiting_session NAME) = Some 22"
    by (simp_all add: waiting_session_def slots)
  moreover have "strs (waiting_world NAME) 22 = Some ''Eduardo Panisset''" "ext (waiting_world NAME) (Output 2) = ''''"
    by (simp_all add: waiting_world_def demo_world_def)
  moreover have "json_unpack scripted '''' [[''name''], [''surname'']] = Some [''Ann'', ''Ann'']" "c_string ''Ann''" by (simp_all add: scripted_def c_string_def nul_def)
  ultimately show ?thesis
    using name_reply_completes [OF waiting_reply scripted_buffers, where name = "''Ann''" and surname = "''Ann''" and j = 22 and joke = "''Eduardo Panisset''"]
    by (auto simp: response_sent_def)
qed

subsection \<open>Parsing stays in the input\<close>

text \<open>A run of the parser says that it consumed at most the \<open>m\<close> bytes it was given.\<close>

primrec run_bounded :: "nat \<Rightarrow> 'p prun \<Rightarrow> bool" where
  "run_bounded m (Returns n err p) \<longleftrightarrow> n \<le> m"
| "run_bounded m (Calls cb k) \<longleftrightarrow> (\<forall>reply. run_bounded m (k reply))"

definition parser_counts :: "('e, 'p) lib \<Rightarrow> bool" where
  "parser_counts L \<longleftrightarrow> (\<forall>p s. run_bounded (length s) (http_parser_execute L p s))"

text \<open>What the callbacks and the parser leave alone: the count of parsed bytes and the input buffers.\<close>

definition parsed_to :: "(evbuf \<Rightarrow> 'e \<Rightarrow> string) \<Rightarrow> addr \<Rightarrow> nat \<Rightarrow> ('e, 'p) world \<Rightarrow> ('e, 'p) world \<Rightarrow> bool" where
  "parsed_to C h k w w' \<longleftrightarrow> (\<exists>X. hsessions w h = Some X \<and> (\<exists>Y. hsessions w' h = Some Y \<and> hs_len Y = hs_len X + k)) \<and>
     (\<forall>b. C (Input b) (ext w') = C (Input b) (ext w))"

lemma parsed_to_trans: "parsed_to C h k w w' \<Longrightarrow> parsed_to C h m w' w'' \<Longrightarrow> parsed_to C h (k + m) w w''"
  by (auto simp: parsed_to_def)

lemma parser_hook_parsed:
  assumes "appends C (evbuffer_add L)" "parser_hook L h cb w = Some (reply, w')" "hsessions w h = Some X"
  shows "parsed_to C h 0 w w'"
proof (cases cb)
  case (On_body at)
  then obtain b r e where "hs_body X = Some b" "evbuffer_add L (Body b) at (ext w) = (r, e)" "w' = w\<lparr>ext := e\<rparr>"
    using assms(2,3) by (auto simp: parser_hook_def message_body_def call_ext_def Let_def split: bind_splits if_splits prod.splits)
  with assms(3) appendsD(2) [OF assms(1)] show ?thesis by (auto simp: parsed_to_def)
qed (use assms(2,3) in \<open>auto simp: parsed_to_def parser_hook_def message_begin_def headers_parse_complete_def message_parse_complete_def
      evbuffer_new_def new_addr_if set_hs_def Let_def split: if_splits\<close>)

lemma run_parser_parsed:
  assumes "appends C (evbuffer_add L)"
  shows "run_parser L h t w = Some ((n, err, p), w') \<Longrightarrow> run_bounded m t \<Longrightarrow> hsessions w h = Some X \<Longrightarrow> n \<le> m \<and> parsed_to C h 0 w w'"
proof (induction t arbitrary: w X)
  case (Calls cb k)
  then obtain reply w1 where 1: "parser_hook L h cb w = Some (reply, w1)" "run_parser L h (k reply) w1 = Some ((n, err, p), w')"
    by (auto split: option.splits)
  have hook: "parsed_to C h 0 w w1" by (rule parser_hook_parsed [OF assms 1(1) Calls.prems(3)])
  then obtain Y where Y: "hsessions w1 h = Some Y" by (auto simp: parsed_to_def)
  have "run_bounded m (k reply)" using Calls.prems(2) by (cases reply) simp
  from Calls.IH [OF _ 1(2) this Y] have "n \<le> m \<and> parsed_to C h 0 w1 w'" by simp
  with parsed_to_trans [OF hook] show ?case by fastforce
qed (auto simp: parsed_to_def)

lemma execute_parser_parsed:
  assumes laws: "appends C (evbuffer_add L)" "parser_counts L" and run: "execute_parser L h data w = Some ((n, err), w')"
  shows "n \<le> length data \<and> parsed_to C h 0 w w'"
proof -
  obtain X p w1 Y where X: "hsessions w h = Some X" "run_parser L h (http_parser_execute L (hs_parser X) data) w = Some ((n, err, p), w1)"
    "hsessions w1 h = Some Y" "w' = set_hs h (Y\<lparr>hs_parser := p\<rparr>) w1"
    using run by (auto simp: execute_parser_def split: bind_splits)
  have "n \<le> length data \<and> parsed_to C h 0 w w1"
    by (rule run_parser_parsed [OF laws(1) X(2) _ X(1)]) (use laws(2) in \<open>simp add: parser_counts_def\<close>)
  with X show ?thesis by (auto simp: parsed_to_def set_hs_def)
qed

lemma upd_hs_parsed:
  assumes "upd_hs h f w = Some w'" "\<And>X. hs_len (f X) = hs_len X + k"
  shows "parsed_to C h k w w'"
  using assms by (auto simp: upd_hs_def parsed_to_def set_hs_def split: bind_splits)

lemma parse_chunks_parsed:
  assumes laws: "appends C (evbuffer_add L)" "parser_counts L"
  shows "parse_chunks L h vs w = Some (err, w') \<Longrightarrow> hsessions w h \<noteq> None \<Longrightarrow>
    \<exists>k \<le> length (concat vs). parsed_to C h k w w' \<and> (err = HTTP_PARSER_E_SUCCESS \<longrightarrow> k = length (concat vs))"
proof (induction vs arbitrary: w)
  case Nil
  then show ?case by (auto simp: parsed_to_def)
next
  case (Cons v vs)
  obtain n e w1 w2 where 1: "execute_parser L h v w = Some ((n, e), w1)" "upd_hs h (\<lambda>s. s\<lparr>hs_len := hs_len s + n\<rparr>) w1 = Some w2"
    and rest: "(if e = HPE_PAUSED
     then do {
       w3 \<leftarrow> upd_hs h (\<lambda>s. s\<lparr>hs_parser := http_parser_unpause L (hs_parser s)\<rparr>) w2;
       s \<leftarrow> hsessions w3 h;
       if hs_state s = HTTP_HEADERS_COMPLETE \<and> n < length v
       then do {
         ((parsed1, err1), w4) \<leftarrow> execute_parser L h [v ! n] w3;
         if parsed1 \<noteq> 1 then Some (HTTP_PARSER_E_ERROR, w4)
         else do {
           w5 \<leftarrow> upd_hs h (\<lambda>s. s\<lparr>hs_len := hs_len s + parsed1\<rparr>) w4;
           Some (HTTP_PARSER_E_PAUSED, w5) } }
       else Some (HTTP_PARSER_E_PAUSED, w3) }
     else if e \<noteq> HPE_OK then Some (HTTP_PARSER_E_ERROR, w2)
     else if n < length v then Some (HTTP_PARSER_E_ERROR, w2)
     else parse_chunks L h vs w2) = Some (err, w')"
    using Cons.prems(1) by (auto split: bind_splits)
  have n: "n \<le> length v" "parsed_to C h 0 w w1" using execute_parser_parsed [OF laws 1(1)] by auto
  have 2: "parsed_to C h n w w2" using parsed_to_trans [OF n(2) upd_hs_parsed [OF 1(2)]] by simp
  consider (paused) "e = HPE_PAUSED" | (fail) "e \<noteq> HPE_PAUSED" "e \<noteq> HPE_OK \<or> n < length v" | (go) "e = HPE_OK" "\<not> n < length v" by blast
  then show ?case
  proof cases
    case paused
    then obtain w3 X where 3: "upd_hs h (\<lambda>s. s\<lparr>hs_parser := http_parser_unpause L (hs_parser s)\<rparr>) w2 = Some w3" "hsessions w3 h = Some X"
      using rest by (auto split: bind_splits)
    have p3: "parsed_to C h n w w3" using parsed_to_trans [OF 2 upd_hs_parsed [OF 3(1), of 0]] by simp
    show ?thesis
    proof (cases "hs_state X = HTTP_HEADERS_COMPLETE \<and> n < length v")
      case True
      then obtain m e1 w4 where 4: "execute_parser L h [v ! n] w3 = Some ((m, e1), w4)"
        "if m \<noteq> 1 then err = HTTP_PARSER_E_ERROR \<and> w' = w4
         else err = HTTP_PARSER_E_PAUSED \<and> upd_hs h (\<lambda>s. s\<lparr>hs_len := hs_len s + m\<rparr>) w4 = Some w'"
        using rest paused 3 by (auto split: bind_splits if_splits)
      have p4: "parsed_to C h n w w4" using parsed_to_trans [OF p3] execute_parser_parsed [OF laws 4(1)] by fastforce
      show ?thesis
      proof (cases "m = 1")
        case m: True
        then have "upd_hs h (\<lambda>s. s\<lparr>hs_len := hs_len s + 1\<rparr>) w4 = Some w'" using 4(2) by simp
        from parsed_to_trans [OF p4 upd_hs_parsed [OF this, of 1]] have "parsed_to C h (n + 1) w w'" by simp
        with m 4(2) True show ?thesis by (intro exI [of _ "n + 1"]) auto
      next
        case False
        with 4(2) p4 n(1) show ?thesis by (intro exI [of _ n]) auto
      qed
    next
      case False
      then have "err = HTTP_PARSER_E_PAUSED \<and> w' = w3" using rest paused 3 by auto
      with p3 n(1) show ?thesis by (intro exI [of _ n]) auto
    qed
  next
    case fail
    then have "err = HTTP_PARSER_E_ERROR \<and> w' = w2" using rest by (auto split: if_splits)
    with 2 n(1) show ?thesis by (intro exI [of _ n]) auto
  next
    case go
    then have "parse_chunks L h vs w2 = Some (err, w')" "n = length v" using rest n(1) by auto
    moreover have "hsessions w2 h \<noteq> None" using 2 by (auto simp: parsed_to_def)
    ultimately obtain k where "k \<le> length (concat vs)" "parsed_to C h k w2 w'" "err = HTTP_PARSER_E_SUCCESS \<longrightarrow> k = length (concat vs)"
      using Cons.IH by blast
    with parsed_to_trans [OF 2] \<open>n = length v\<close> show ?thesis by (intro exI [of _ "n + k"]) auto
  qed
qed

text \<open>C8.
  The parser never reads past the input. A call of \<open>http_request_parse\<close> on an HTTP session of the service returns;
  the count of parsed bytes grows and stays within the input buffer of its socket, however the buffer is split into chunks, also when the parser
  is resumed for one byte after the head; no input buffer changes; and when the result is not an error and the parser has not paused,
  every byte of the input has been parsed.
\<close>

theorem parse_within_input:
  assumes laws: "evbuffer_laws L C" "parser_counts L" "parser_laws L ph" and w: "core w" "hsessions w h = Some X" "hs_good ph X"
    and st: "hs_state X \<noteq> HTTP_MESSAGE_COMPLETE" and sl: "slot (sessions w) a i h"
    and b: "tcp_socket_get_input (hs_channel X) w = Some b" and len: "hs_len X \<le> length (C b (ext w))"
  shows "\<exists>err w' Y. http_request_parse L h (hs_channel X) w = Some (err, w') \<and> hsessions w' h = Some Y \<and>
     hs_len X \<le> hs_len Y \<and> hs_len Y \<le> length (C b (ext w')) \<and> C b (ext w') = C b (ext w) \<and>
     (err = HTTP_PARSER_E_SUCCESS \<longrightarrow> hs_len Y = length (C b (ext w)))"
proof -
  obtain err w' where run: "http_request_parse L h (hs_channel X) w = Some (err, w')"
    using http_request_parse_runs [OF laws(3) w st sl] by (auto simp: runs_def)
  obtain b0 where b0: "b = Input b0" using b by (auto simp: tcp_socket_get_input_def split: bind_splits)
  have add: "appends C (evbuffer_add L)" using laws(1) by (simp add: evbuffer_laws_def)
  have ptr: "0 \<le> evbuffer_ptr_set L b (hs_len X) (ext w)" "concat (evbuffer_peek L b (hs_len X) (ext w)) = drop (hs_len X) (C b (ext w))"
    using laws(1) len by (simp_all add: evbuffer_laws_def)
  let ?vs = "evbuffer_peek L b (hs_len X) (ext w)"
  obtain w1 where w1: "w1 = w \<or> w1 = w\<lparr>answers := tl (answers w)\<rparr>" "err = HTTP_PARSER_E_ERROR \<and> w' = w1 \<or> parse_chunks L h ?vs w1 = Some (err, w')"
    using run b w(2) ptr(1) by (auto simp: http_request_parse_def ask_if Let_def split: if_splits)
  from w1(2) have "\<exists>k \<le> length (concat ?vs). parsed_to C h k w1 w' \<and> (err = HTTP_PARSER_E_SUCCESS \<longrightarrow> k = length (concat ?vs))"
  proof
    assume "err = HTTP_PARSER_E_ERROR \<and> w' = w1"
    then show ?thesis using w1(1) w(2) by (intro exI [of _ 0]) (auto simp: parsed_to_def)
  next
    assume P: "parse_chunks L h ?vs w1 = Some (err, w')"
    show ?thesis by (rule parse_chunks_parsed [OF add laws(2) P]) (use w1(1) w(2) in auto)
  qed
  then obtain k where k: "k \<le> length (C b (ext w)) - hs_len X" "parsed_to C h k w1 w'"
    "err = HTTP_PARSER_E_SUCCESS \<longrightarrow> k = length (C b (ext w)) - hs_len X" using ptr(2) by auto
  then obtain Y where "hsessions w' h = Some Y" "hs_len Y = hs_len X + k" "C b (ext w') = C b (ext w)"
    using w1(1) w(2) b0 by (auto simp: parsed_to_def)
  with run k(1,3) len show ?thesis by auto
qed

lemma scripted_counts: "parser_counts scripted"
  by (auto simp: parser_counts_def scripted_def toy_execute_def neq_Nil_conv)

text \<open>The session of the last section, its client having sent the first two bytes of a request.\<close>

definition parsing_hs :: "nat http_session" where
  "parsing_hs = (waiting_hs CLIENT 1)\<lparr>hs_state := HTTP_MESSAGE_BEGIN\<rparr>"

definition parsing_world :: "(buffers, nat) world" where
  "parsing_world = set_hs 5 parsing_hs (waiting_world JOKE)\<lparr>ext := (\<lambda>b. if b = Input 2 then ''GE'' else '''')\<rparr>"

lemma parsing_world: "core parsing_world" "hsessions parsing_world 5 = Some parsing_hs" "hs_good toy_phase parsing_hs"
proof -
  have h: "hsessions (waiting_world JOKE) 5 = Some (waiting_hs CLIENT 1)" by (simp add: waiting_world_def slots)
  have "core (set_hs 5 parsing_hs (waiting_world JOKE))"
    by (rule core_set_hs [OF waiting_core h]) (simp_all add: parsing_hs_def same_id_def waiting_hs_def)
  then show "core parsing_world" by (simp add: parsing_world_def)
qed (simp_all add: parsing_world_def parsing_hs_def waiting_hs_def hs_good_def body_ok_def toy_phase_def state_phase_def)

theorem parse_within_input_witness:
  "\<exists>err w' Y. http_request_parse scripted 5 (Some 1) parsing_world = Some (err, w') \<and> hsessions w' 5 = Some Y \<and>
     hs_len Y \<le> 2 \<and> ext w' (Input 2) = ''GE'' \<and> (err = HTTP_PARSER_E_SUCCESS \<longrightarrow> hs_len Y = 2)"
proof -
  have X: "hs_channel parsing_hs = Some 1" "hs_len parsing_hs = 0" "hs_state parsing_hs \<noteq> HTTP_MESSAGE_COMPLETE"
    by (simp_all add: parsing_hs_def waiting_hs_def)
  have sl: "slot (sessions parsing_world) 4 CLIENT 5" using waiting_slot [of JOKE]
    by (simp add: parsing_world_def waiting_world_def set_hs_def)
  have b: "tcp_socket_get_input (Some 1) parsing_world = Some (Input 2)" "ext parsing_world (Input 2) = ''GE''"
    by (simp_all add: tcp_socket_get_input_def channel_bev_def parsing_world_def waiting_world_def set_hs_def waiting_channel_def)
  show ?thesis
    using parse_within_input [OF scripted_buffers scripted_counts scripted_parser parsing_world X(3) sl, of "Input 2"] X b
    by auto
qed

end
