(* ===== verification/Lifecycle.thy ===== *)
theory Lifecycle
  imports Behaviours
begin

section \<open>The life of a session, step by step\<close>

text \<open>
  What each event does to the session it belongs to: the connection that is accepted, the
  client's request that makes two names be looked up, the upstream connection that is asked, and the
  response that has been sent, after which everything the session held is released.
\<close>

subsection \<open>Everything a session holds\<close>

text \<open>The HTTP sessions in the slots \<open>I\<close> of the session \<open>a\<close>, each with its objects.\<close>

definition held :: "('e, 'p) world \<Rightarrow> addr \<Rightarrow> nat set \<Rightarrow> (addr \<times> 'p chain_objs) set" where
  "held w a I = {(h, K). \<exists>i \<in> I. slot (sessions w) a i h \<and> chain (hsessions w) (bodies w) (channels w) (bevs w) a i h K}"

definition without_http :: "(addr \<times> 'p chain_objs) set \<Rightarrow> ('e, 'p) world \<Rightarrow> ('e, 'p) world \<Rightarrow> bool" where
  "without_http O' w w' \<longleftrightarrow> hsessions w' = hsessions w |` (- fst ` O') \<and>
     channels w' = channels w |` (- (co_ca \<circ> snd) ` O') \<and> bevs w' = bevs w |` (- (co_ba \<circ> snd) ` O') \<and>
     bodies w' = bodies w - {e. \<exists>(h, K) \<in> O'. hs_body (co_hs K) = Some e} \<and> ext w' = ext w"

lemma restrict_more: "(m(x := None)) |` (- A) = m |` (- insert x A)"
  by (auto simp: restrict_map_def fun_eq_iff)

lemma without_more:
  assumes "without_http P w2 w'" "hsessions w2 = (hsessions w)(h := None)" "bodies w2 = bodies w - {e. hs_body (co_hs K) = Some e}"
    "channels w2 = (channels w)(co_ca K := None)" "bevs w2 = (bevs w)(co_ba K := None)" "ext w2 = ext w"
  shows "without_http (insert (h, K) P) w w'"
proof -
  have "bodies w' = bodies w - {e. hs_body (co_hs K) = Some e} - {e. \<exists>(h, K) \<in> P. hs_body (co_hs K) = Some e}"
    using assms(1,3) unfolding without_http_def by simp
  also have "\<dots> = bodies w - {e. \<exists>(k, K') \<in> insert (h, K) P. hs_body (co_hs K') = Some e}" by auto
  finally show ?thesis using assms(1)
    by (simp only: without_http_def assms(2,4,5,6) restrict_more image_insert fst_conv snd_conv comp_apply)
qed

lemma without_none: "without_http {} w w"
  by (simp add: without_http_def restrict_map_def)

lemma held_none:
  assumes s: "sessions w a = Some s" "ss_http s ! i = None" and s': "ss_http s' = ss_http s"
  shows "held w a (insert i I) = held (w\<lparr>sessions := (sessions w)(a \<mapsto> s')\<rparr>) a I"
  using assms by (auto simp: held_def slot_def)

lemma held_some:
  assumes core: "core w" and s: "sessions w a = Some s" "ss_http s ! i = Some h" "i < 3"
    and K: "chain (hsessions w) (bodies w) (channels w) (bevs w) a i h K" and s': "ss_http s' = (ss_http s)[i := None]"
    and w2: "hsessions w2 = (hsessions w)(h := None)" "bodies w2 = bodies w - {e. hs_body (co_hs K) = Some e}"
      "channels w2 = (channels w)(co_ca K := None)" "bevs w2 = (bevs w)(co_ba K := None)" "sessions w2 = (sessions w)(a \<mapsto> s')"
  shows "held w a (insert i I) = insert (h, K) (held w2 a I)"
proof -
  have len: "length (ss_http s) = 3" using coreD(2) [OF core] s(1) by (simp add: len_ok_def)
  have sl: "slot (sessions w2) a j k \<longleftrightarrow> slot (sessions w) a j k \<and> j \<noteq> i" for j k
    using slot_clear [where S = "sessions w" and s = s and s' = s' and i = i and a = a, OF s(1) len s'] w2(5) by simp
  have here: "slot (sessions w) a i h" using s by (simp add: slot_def)
  have ch: "chain (hsessions w2) (bodies w2) (channels w2) (bevs w2) a j k K' \<longleftrightarrow>
      chain (hsessions w) (bodies w) (channels w) (bevs w) a j k K'" if "slot (sessions w2) a j k" for j k K'
  proof
    assume A: "chain (hsessions w) (bodies w) (channels w) (bevs w) a j k K'"
    have j: "j < 3" "j \<noteq> i" using that sl by (auto simp: slot_def)
    have k: "k \<noteq> h" using chain_slot_unique [OF K, of a j K'] A j s(3) by auto
    have "co_ca K' \<noteq> co_ca K" "co_ba K' \<noteq> co_ba K"
      using chain_channel_unique [OF K A] chain_bev_unique [OF K A] k by auto
    moreover have "hs_body (co_hs K') = Some e \<Longrightarrow> hs_body (co_hs K) \<noteq> Some e" for e
      using http_ok_body [OF coreD(3) [OF core], of h _ k] K A k by (auto simp: chain_def)
    ultimately show "chain (hsessions w2) (bodies w2) (channels w2) (bevs w2) a j k K'"
      using A k by (auto simp: chain_def w2)
  qed (auto simp: chain_def w2 split: if_splits)
  show ?thesis
  proof (intro set_eqI iffI)
    fix P assume "P \<in> held w a (insert i I)"
    then obtain k K' j where P: "P = (k, K')" "j \<in> insert i I" "slot (sessions w) a j k"
      "chain (hsessions w) (bodies w) (channels w) (bevs w) a j k K'" by (auto simp: held_def)
    show "P \<in> insert (h, K) (held w2 a I)"
    proof (cases "j = i")
      case True
      then have "k = h" using P(3) s by (simp add: slot_def)
      then have "K' = K" using chain_fun [OF K, of a j K'] P(4) by simp
      with P(1) \<open>k = h\<close> show ?thesis by simp
    next
      case False
      then have "slot (sessions w2) a j k" using sl P(3) by simp
      moreover from this have "chain (hsessions w2) (bodies w2) (channels w2) (bevs w2) a j k K'" using ch P(4) by blast
      ultimately show ?thesis using P(1,2) False unfolding held_def by blast
    qed
  next
    fix P assume "P \<in> insert (h, K) (held w2 a I)"
    then consider "P = (h, K)" | k K' j where "P = (k, K')" "j \<in> I" "slot (sessions w2) a j k"
      "chain (hsessions w2) (bodies w2) (channels w2) (bevs w2) a j k K'" unfolding held_def by blast
    then show "P \<in> held w a (insert i I)"
    proof cases
      case 1
      with here K show ?thesis unfolding held_def by blast
    next
      case 2
      moreover from this have "slot (sessions w) a j k" "chain (hsessions w) (bodies w) (channels w) (bevs w) a j k K'"
        using sl ch by blast+
      ultimately show ?thesis unfolding held_def by blast
    qed
  qed
qed

lemma free_slots_exact:
  assumes "core w" "sessions w a = Some s" "\<forall>i \<in> set is. i < 3" "session_free_slots a is w = Some w'"
  shows "without_http (held w a (set is)) w w'"
  using assms
proof (induction "is" arbitrary: w s)
  case Nil
  then show ?case by (simp add: held_def without_none)
next
  case (Cons i "is")
  have len: "length (ss_http s) = 3" using coreD(2) [OF Cons.prems(1)] Cons.prems(2) by (simp add: len_ok_def)
  have i: "i < 3" using Cons.prems(3) by simp
  let ?s = "s\<lparr>ss_http := (ss_http s)[i := None]\<rparr>"
  have same: "same_refs s ?s" by (simp add: same_refs_def)
  show ?case
  proof (cases "ss_http s ! i")
    case None
    let ?w2 = "w\<lparr>sessions := (sessions w)(a \<mapsto> ?s)\<rparr>"
    have http: "ss_http ?s = ss_http s" using None list_update_id [of "ss_http s" i] by simp
    have core2: "core ?w2" using core_session [OF Cons.prems(1,2), of ?s] http same by (simp add: same_refs_def)
    have run: "session_free_slots a is ?w2 = Some w'"
      using Cons.prems(2,4) None i len by (simp add: upd_session_simp http_session_free_def)
    from Cons.IH [OF core2 _ _ run] Cons.prems(3) have "without_http (held ?w2 a (set is)) ?w2 w'" by simp
    then show ?thesis unfolding list.set(2) held_none [OF Cons.prems(2) None http] by (simp add: without_http_def)
  next
    case (Some h)
    have sl: "slot (sessions w) a i h" using Cons.prems(2) i Some by (simp add: slot_def)
    obtain K where K: "chain (hsessions w) (bodies w) (channels w) (bevs w) a i h K" by (rule slot_chain [OF Cons.prems(1) sl])
    obtain F where F: "http_session_free (Some h) w = Some (w\<lparr>hsessions := (hsessions w)(h := None),
       bodies := bodies w - {e. hs_body (co_hs K) = Some e}, channels := (channels w)(co_ca K := None),
       bevs := (bevs w)(co_ba K := None), fds := F\<rparr>)" (is "_ = Some ?w1") using free_chain [OF K] by blast
    let ?w2 = "?w1\<lparr>sessions := (sessions w)(a \<mapsto> ?s)\<rparr>"
    have run: "session_free_slots a is ?w2 = Some w'"
      using Cons.prems(2,4) Some i len F by (simp add: upd_session_simp)
    obtain w1' where w1': "http_session_free (Some h) w = Some w1'"
      "core (w1'\<lparr>sessions := (sessions w)(a \<mapsto> ?s)\<rparr>)"
      by (rule free_slot [OF Cons.prems(1,2) i], rule that) (use same Some in auto)
    then have core2: "core ?w2" using F by simp
    from Cons.IH [OF core2 _ _ run] Cons.prems(3) have IH: "without_http (held ?w2 a (set is)) ?w2 w'" by simp
    have more: "held w a (insert i (set is)) = insert (h, K) (held ?w2 a (set is))"
      by (rule held_some [OF Cons.prems(1,2) Some i K, where s' = ?s]) simp_all
    show ?thesis unfolding list.set(2) more by (rule without_more [OF IH]) simp_all
  qed
qed

text \<open>What is left after the release of the session \<open>a\<close>, which was \<open>s\<close>.\<close>

definition drop_ref :: "ptr \<Rightarrow> (addr \<rightharpoonup> ref) \<Rightarrow> addr \<rightharpoonup> ref" where
  "drop_ref p R = (case p of None \<Rightarrow> R
     | Some r \<Rightarrow> (case R r of None \<Rightarrow> R
        | Some X \<Rightarrow> R(r := if weak_refcnt X = 0 then None else Some (X\<lparr>refcnt := 0, ref_ptr := None\<rparr>))))"

definition session_gone :: "addr \<Rightarrow> session \<Rightarrow> ('e, 'p) world \<Rightarrow> ('e, 'p) world \<Rightarrow> bool" where
  "session_gone a s w w' \<longleftrightarrow> sessions w' = (sessions w)(a := None) \<and> without_http (held w a {0, 1, 2}) w w' \<and>
     strs w' = strs w |` (- str_ptrs s) \<and> refs w' = drop_ref (ss_me s) (refs w) \<and>
     dns_requests w' = dns_requests w \<and> resolving w' = resolving w \<and> listeners w' = listeners w"

lemma free_str_exact:
  assumes "\<And>x. p = Some x \<Longrightarrow> strs w x \<noteq> None"
  shows "free_str p w = Some (w\<lparr>strs := strs w |` (- {x. p = Some x})\<rparr>)"
  using assms by (cases p) (auto simp: free_str_def restrict_map_def fun_eq_iff)

lemma reference_dec_exact:
  assumes "core w" "sessions w a = Some s"
  shows "\<exists>r. reference_dec (ss_me s) w = Some (r, w\<lparr>refs := drop_ref (ss_me s) (refs w)\<rparr>)"
proof (cases "ss_me s")
  case (Some r)
  obtain X where X: "refs w r = Some X" "ref_ptr X = Some a" "refcnt X = 1" "\<not> free_fn X"
    using refs_ok_me [OF coreD(5) [OF assms(1)] assms(2) Some] by metis
  then show ?thesis using Some by (simp add: reference_dec_def Let_def int_ok_def drop_ref_def)
qed (simp add: reference_dec_def drop_ref_def)

lemma session_free_exact:
  assumes core: "core w" and s: "sessions w a = Some s"
  shows "\<exists>w'. session_free (Some a) w = Some w' \<and> session_gone a s w w' \<and> same_env w w'"
proof -
  have "runs (session_free_slots a [0..<COUNT] w) (\<lambda>w'. core w' \<and> http_only w w' \<and> others a w w' \<and>
     (\<exists>s'. sessions w' a = Some s' \<and> same_refs s s' \<and> (\<forall>i < 3. ss_http s' ! i = (if i \<in> set [0..<COUNT] then None else ss_http s ! i))))"
    by (rule free_slots [OF core s]) (simp add: slots)
  then obtain w1 s1 where w1: "session_free_slots a [0..<COUNT] w = Some w1" "core w1" "http_only w w1" "others a w w1"
    "sessions w1 a = Some s1" "same_refs s s1"
    by (auto simp: runs_def)
  have idx: "set [0..<COUNT] = {0, 1, 2}" by (auto simp: COUNT_def)
  have http: "without_http (held w a {0, 1, 2}) w w1"
    using free_slots_exact [OF core s _ w1(1)] unfolding idx by simp
  obtain x where dec: "reference_dec (ss_me s1) w1 = Some (x, w1\<lparr>refs := drop_ref (ss_me s1) (refs w1)\<rparr>)"
    using reference_dec_exact [OF w1(2,5)] by blast
  have T: "distinct_strs s1" "\<And>p. p \<in> str_ptrs s1 \<Longrightarrow> strs w1 p \<noteq> None"
    using strs_okD(1,2) [OF coreD(4) [OF w1(2)] w1(5)] by blast+
  let ?A = "{x. ss_name s1 = Some x}" and ?B = "{x. ss_surname s1 = Some x}" and ?C = "{x. ss_joke s1 = Some x}"
  let ?w2 = "w1\<lparr>refs := drop_ref (ss_me s1) (refs w1), sessions := (sessions w1)(a \<mapsto> s1\<lparr>ss_me := None\<rparr>)\<rparr>"
  let ?w4 = "?w2\<lparr>strs := strs w1 |` (- ?A), sessions := (sessions w1)(a \<mapsto> s1\<lparr>ss_me := None, ss_name := None\<rparr>)\<rparr>"
  let ?w6 = "?w2\<lparr>strs := strs w1 |` (- ?A) |` (- ?B), sessions := (sessions w1)(a \<mapsto> s1\<lparr>ss_me := None, ss_name := None, ss_surname := None\<rparr>)\<rparr>"
  let ?w = "?w2\<lparr>strs := strs w1 |` (- ?A) |` (- ?B) |` (- ?C), sessions := (sessions w1)(a := None)\<rparr>"
  have F: "free_str (ss_name s1) ?w2 = Some (?w2\<lparr>strs := strs w1 |` (- ?A)\<rparr>)"
    "free_str (ss_surname s1) ?w4 = Some (?w4\<lparr>strs := strs w1 |` (- ?A) |` (- ?B)\<rparr>)"
    "free_str (ss_joke s1) ?w6 = Some (?w6\<lparr>strs := strs w1 |` (- ?A) |` (- ?B) |` (- ?C)\<rparr>)"
    by (subst free_str_exact; use T in \<open>auto simp: str_ptrs_def distinct_strs_def restrict_map_def\<close>)+
  have "session_free (Some a) w = Some ?w"
    using w1(1,5) dec F by (simp add: session_free_def upd_session_def)
  moreover have "strs ?w = strs w |` (- str_ptrs s)"
    using w1(3,6) by (auto simp: http_only_def same_refs_def str_ptrs_def restrict_map_def fun_eq_iff)
  moreover have "sessions ?w = (sessions w)(a := None)" using w1(4) by (auto simp: others_def fun_eq_iff)
  ultimately show ?thesis using http w1(3,6)
    by (intro exI [of _ ?w]) (simp add: session_gone_def without_http_def http_only_def same_refs_def same_env_def)
qed

subsection \<open>The response has been sent\<close>

text \<open>The session is also out of the list, whose mutex is free again.\<close>

definition session_removed :: "addr \<Rightarrow> session \<Rightarrow> ('e, 'p) world \<Rightarrow> ('e, 'p) world \<Rightarrow> bool" where
  "session_removed a s w w' \<longleftrightarrow> session_gone a s w w' \<and> (\<exists>l m ds. svc_sessions w = Some l \<and> svc_sessions w' = Some l \<and>
     svc_mutex w' = Some m \<and> mutexes w' m = Some False \<and> list_queue.holds (store_heap (lh w)) l (map Some ds) \<and>
     list_queue.holds (store_heap (lh w')) l (map Some (remove1 a ds)))"

lemma session_remove_exact:
  assumes core: "core w" and svc: "svc_ok w" and s: "sessions w a = Some s"
  shows "\<exists>w'. http_service_session_remove a w = Some w' \<and> session_removed a s w w'"
proof -
  from svc obtain l m ds where L: "svc_sessions w = Some l" "svc_mutex w = Some m" "mutexes w m = Some False"
    "list_queue.holds (store_heap (lh w)) l (map Some ds)" "distinct ds" "set ds = dom (sessions w)"
    unfolding svc_ok_def by blast
  have "a \<in> set ds" using L(6) s by auto
  then obtain n h where h: "list_find_node l (Some a) (store_heap (lh w)) = Some (Some n)"
    "list_remove l (Some n) (store_heap (lh w)) = Some (Some a, h)"
    "list_queue.holds h l (map Some (remove1 a ds))"
    using list_queue.find_and_remove [OF L(4), of "Some a"] by (auto simp: remove1_map_Some)
  let ?w2 = "w\<lparr>mutexes := (mutexes w)(m \<mapsto> True), lh := List_Store h\<rparr>"
  have "\<exists>w'. session_free (Some a) ?w2 = Some w' \<and> session_gone a s ?w2 w' \<and> same_env ?w2 w'"
    by (rule session_free_exact) (simp_all add: core s)
  then obtain w3 where w3: "session_free (Some a) ?w2 = Some w3" "session_gone a s ?w2 w3" "same_env ?w2 w3" by blast
  let ?w4 = "w3\<lparr>mutexes := (mutexes w3)(m \<mapsto> False)\<rparr>"
  have env: "svc_sessions w3 = Some l" "svc_mutex w3 = Some m" "mutexes w3 = (mutexes w)(m \<mapsto> True)" "lh w3 = List_Store h"
    using w3(3) L by (simp_all add: same_env_def)
  have "http_service_session_remove a w = Some ?w4"
    using L h(1,2) w3(1) env by (simp add: http_service_session_remove_def mutex_lock_def mutex_unlock_def)
  moreover have "session_gone a s w ?w4" using w3(2) by (simp add: session_gone_def without_http_def held_def)
  ultimately show ?thesis using L(1,4) h(3) env by (auto simp: session_removed_def)
qed

text \<open>C16.
  The end of a session. When the last byte of the response has left the buffer of the client's socket, the write event closes the
  session and releases everything it held, and nothing else: its HTTP sessions with their
  channels, bufferevents and bodies, its strings, its reference (the struct stays for the DNS requests that
  carry it, without a pointer to the session), its node in the service's list, and the session itself.
\<close>

theorem sent_response_ends_session:
  assumes core: "core w" and svc: "svc_ok w" and v: "serves w a s CLIENT h X c b" and B: "bevs w b = Some B" "bev_arg B = Some c"
    and sent: "hs_state X = HTTP_MESSAGE_COMPLETE" "ss_state s = CLIENT_RESPONSE" "evbuffer_get_length L (Output b) (ext w) = 0"
  shows "\<exists>w'. handle_event L (Ev_write b) w = Some w' \<and> session_removed a s w w'"
proof -
  have s: "sessions w a = Some s" using v by (simp add: serves_def)
  obtain w' where w': "http_service_session_remove a w = Some w'" "session_removed a s w w'"
    using session_remove_exact [OF core svc s] by blast
  have "hs_cbs X = client_callbacks" using v by (simp add: serves_def slot_callbacks_def)
  then have "ready_to_close (hs_cbs X) = Some Client_ready_to_close" by (simp add: client_callbacks_def)
  moreover have "tcp_socket_get_output_length L (Some c) w = Some (evbuffer_get_length L (Output b) (ext w))"
    using v by (simp add: serves_def tcp_socket_get_output_length_def tcp_socket_get_output_def)
  moreover have "client_ready_to_close h w = Some w'"
    using v s sent w'(1) by (auto simp: serves_def client_ready_to_close_def http_session_master_def)
  ultimately have "handle_event L (Ev_write b) w = Some w'"
    using v B sent by (auto simp: serves_def tcp_socket_write_cb_def services_def http_session_write_cb_def
        http_session_channel_should_close_def run_http_cb_def)
  with w'(2) show ?thesis by blast
qed

text \<open>The session of \<open>waiting_world\<close> when its response has been written and sent; \<open>h\<close> is the heap of the service's list.\<close>

definition sent_world :: "list_heap \<Rightarrow> (buffers, nat) world" where
  "sent_world h = (waiting_world JOKE)\<lparr>sessions := [4 \<mapsto> (waiting_session JOKE)\<lparr>ss_state := CLIENT_RESPONSE\<rparr>], lh := List_Store h\<rparr>"

lemma sent_core: "core (sent_world h)"
proof -
  have "core ((waiting_world JOKE)\<lparr>sessions := (sessions (waiting_world JOKE))(4 \<mapsto> (waiting_session JOKE)\<lparr>ss_state := CLIENT_RESPONSE\<rparr>)\<rparr>)"
    by (rule core_session [OF waiting_core]) (simp_all add: waiting_world_def)
  then show ?thesis by (simp add: sent_world_def waiting_world_def)
qed

lemma waiting_serves:
  "i \<in> {NAME, JOKE} \<Longrightarrow> serves (waiting_world i) 4 (waiting_session i) CLIENT 5 (waiting_hs CLIENT 1) 1 2"
  "i \<in> {NAME, JOKE} \<Longrightarrow> serves (waiting_world i) 4 (waiting_session i) i 6 (waiting_hs i 7) 7 9"
  by (auto simp: serves_def waiting_world_def waiting_session_def waiting_hs_def waiting_channel_def waiting_bev_def channel_bev_def
      slots numeral_3_eq_3)

theorem sent_response_ends_session_witness:
  "\<exists>h w. handle_event scripted (Ev_write 2) (sent_world h) = Some w \<and> sessions w = Map.empty \<and> strs w = [22 \<mapsto> ''Eduardo Panisset'']"
proof -
  obtain h where h: "list_queue.holds h 0 (map Some [] @ [Some 4])"
    using list_queue.holds_push_back [OF demo_holds(1) demo_holds(2), of "Some 4"] by auto
  have "svc_ok (sent_world h)"
    unfolding svc_ok_def using h by (intro exI [of _ 0] exI [of _ 1] exI [of _ "[4]"]) (simp add: sent_world_def waiting_world_def demo_world_def)
  moreover have "serves (sent_world h) 4 ((waiting_session JOKE)\<lparr>ss_state := CLIENT_RESPONSE\<rparr>) CLIENT 5 (waiting_hs CLIENT 1) 1 2"
    using waiting_serves(1) [of JOKE] by (simp add: serves_def sent_world_def waiting_world_def channel_bev_def)
  ultimately obtain w where "handle_event scripted (Ev_write 2) (sent_world h) = Some w"
    "session_removed 4 ((waiting_session JOKE)\<lparr>ss_state := CLIENT_RESPONSE\<rparr>) (sent_world h) w"
    using sent_response_ends_session [OF sent_core, where b = 2 and B = "waiting_bev 1" and L = scripted] 
    by (fastforce simp: sent_world_def waiting_world_def waiting_bev_def waiting_hs_def scripted_def demo_world_def)
  then show ?thesis
    by (intro exI [of _ h] exI [of _ w]) (auto simp: session_removed_def session_gone_def sent_world_def waiting_world_def
        waiting_session_def str_ptrs_def restrict_map_def fun_eq_iff zero_session_def)
qed

subsection \<open>An upstream server is connected\<close>

definition request_lines :: "nat \<Rightarrow> string list" where
  "request_lines i = (if i = NAME
     then [''GET /api/ HTTP/1.1'', ''Host: uinames.com'', ''User-Agent: Tigera/WebService/1.0.0'', ''Accept: */*'']
     else [''GET /jokes/random?firstName=Eduardo&lastName=Panisset&limitTo=[nerdy] HTTP/1.1'', ''Host: api.icndb.com'',
           ''User-Agent: Tigera/WebService/1.0.0'', ''Accept: */*''])"

lemma request_shape:
  "request_line name_request = hd (request_lines NAME) @ crlf" "headers name_request = map (\<lambda>x. x @ crlf) (tl (request_lines NAME))"
  "request_line joke_request = hd (request_lines JOKE) @ crlf" "headers joke_request = map (\<lambda>x. x @ crlf) (tl (request_lines JOKE))"
  "\<forall>x \<in> set (hd (request_lines i) # tl (request_lines i)). x \<noteq> [] \<and> CHR 0x0D \<notin> set x"
  by (simp_all add: name_request_def joke_request_def request_lines_def slots)

lemma send_request_exact:
  assumes laws: "evbuffer_laws L C" "no_failures L" and v: "serves w a s i h X c b"
    and cnt: "int_ok (ss_pending_connections s - 1)" "int_ok (ss_pending_replies s + 1)"
    and req: "request_line req = l @ crlf" "headers req = map (\<lambda>x. x @ crlf) ls" "\<forall>x \<in> set (l # ls). x \<noteq> [] \<and> CHR 0x0D \<notin> set x"
  shows "\<exists>e t. send_request L req h w = Some (w\<lparr>ext := e, sessions := (sessions w)(a \<mapsto>
        s\<lparr>ss_pending_connections := ss_pending_connections s - 1, ss_pending_replies := ss_pending_replies s + 1\<rparr>)\<rparr>) \<and>
     C (Output b) e = C (Output b) (ext w) @ t \<and> read_head t = Some (l # ls, []) \<and> (\<forall>b'. b' \<noteq> Output b \<longrightarrow> C b' e = C b' (ext w))"
proof -
  let ?w1 = "w\<lparr>sessions := (sessions w)(a \<mapsto> s\<lparr>ss_pending_connections := ss_pending_connections s - 1\<rparr>)\<rparr>"
  have h: "hsessions ?w1 h = Some X" "tcp_socket_get_output (hs_channel X) ?w1 = Some (Output b)"
    using v by (auto simp: serves_def tcp_socket_get_output_def channel_bev_def)
  obtain r e where e: "http_request_write L h req ?w1 = Some (r, ?w1\<lparr>ext := e\<rparr>)" "r = 0"
    "\<exists>t. C (Output b) e = C (Output b) (ext w) @ t \<and> read_head t = Some (l # ls, [])" "\<forall>b'. b' \<noteq> Output b \<longrightarrow> C b' e = C b' (ext w)"
    using http_request_write_result [OF laws(1) h req] laws(2) by auto
  have "send_request L req h w = Some (w\<lparr>ext := e, sessions := (sessions w)(a \<mapsto>
      s\<lparr>ss_pending_connections := ss_pending_connections s - 1, ss_pending_replies := ss_pending_replies s + 1\<rparr>)\<rparr>)"
    using v cnt e(1,2) by (auto simp: serves_def send_request_def http_session_master_def upd_session_def intro!: world.equality)
  with e(3,4) show ?thesis by blast
qed

lemma connected_event:
  "\<not> sets_eof 0x80" "has_flag (io_event_of 0x80) IO_CHANNEL_EVENT_CONNECTED" "\<not> has_flag (io_event_of 0x80) IO_CHANNEL_EVENT_ERROR"
  by (simp_all add: io_event_of_def sets_eof_def has_flag_def Let_def BEV_EVENT_READING_def BEV_EVENT_WRITING_def BEV_EVENT_EOF_def
      BEV_EVENT_ERROR_def BEV_EVENT_TIMEOUT_def BEV_EVENT_CONNECTED_def IO_CHANNEL_EVENT_NONE_def IO_CHANNEL_EVENT_CONNECTED_def
      IO_CHANNEL_EVENT_ERROR_def)

text \<open>C15.
  When libevent reports that the connection to an upstream server is established, exactly one request goes to this server
  and nothing to anybody else: for the name server the one, for the joke server the other, both complete with the empty line at the end;
  the session then waits for one connection less and one reply more.
\<close>

theorem connected_sends_request:
  assumes laws: "evbuffer_laws L C" "no_failures L" and v: "serves w a s i h X c b" and i: "i \<in> {NAME, JOKE}"
    and B: "bevs w b = Some B" "bev_arg B = Some c"
    and cnt: "int_ok (ss_pending_connections s - 1)" "int_ok (ss_pending_replies s + 1)"
  shows "\<exists>e t. handle_event L (Ev_flags b 0x80) w = Some (w\<lparr>ext := e, sessions := (sessions w)(a \<mapsto>
        s\<lparr>ss_pending_connections := ss_pending_connections s - 1, ss_pending_replies := ss_pending_replies s + 1\<rparr>)\<rparr>) \<and>
     C (Output b) e = C (Output b) (ext w) @ t \<and> read_head t = Some (request_lines i, []) \<and>
     (\<forall>b'. b' \<noteq> Output b \<longrightarrow> C b' e = C b' (ext w))"
proof -
  let ?req = "if i = NAME then name_request else joke_request"
  have "handle_event L (Ev_flags b 0x80) w = send_request L ?req h w"
  proof -
    obtain Y where c: "channels w c = Some Y" "ch_ctx Y = Some h" "ch_service Y = Some Http_session_io_service"
      and X: "hsessions w h = Some X" "hs_cbs X = upstream_callbacks i"
      using v i by (auto simp: serves_def slot_callbacks_def slots)
    have "handle_event L (Ev_flags b 0x80) w = (case connected (hs_cbs X) of None \<Rightarrow> Some w | Some cb \<Rightarrow> run_http_cb L cb h w)"
      using B c X(1) connected_event by (simp add: tcp_socket_event_cb_def services_def http_session_event_cb_def)
    then show ?thesis
      by (simp add: X(2) upstream_callbacks_def run_http_cb_def http_request_name_def http_request_joke_def)
  qed
  moreover have "request_line ?req = hd (request_lines i) @ crlf" "headers ?req = map (\<lambda>x. x @ crlf) (tl (request_lines i))"
    using i request_shape by auto
  note S = send_request_exact [OF laws v cnt this request_shape(5)]
  moreover have "hd (request_lines i) # tl (request_lines i) = request_lines i" by (simp add: request_lines_def)
  ultimately show ?thesis by simp
qed

theorem connected_sends_request_witness:
  "\<exists>w. handle_event scripted (Ev_flags 9 0x80) (waiting_world NAME) = Some w \<and> read_head (ext w (Output 9)) = Some (request_lines NAME, [])"
proof -
  have "serves (waiting_world NAME) 4 (waiting_session NAME) NAME 6 (waiting_hs NAME 7) 7 9" by (rule waiting_serves) simp
  moreover have "bevs (waiting_world NAME) 9 = Some (waiting_bev 7)" "ext (waiting_world NAME) = (\<lambda>b. '''')"
    by (simp_all add: waiting_world_def demo_world_def)
  moreover have "int_ok (ss_pending_connections (waiting_session NAME) - 1)" "int_ok (ss_pending_replies (waiting_session NAME) + 1)"
    by (simp_all add: waiting_session_def zero_session_def int_ok_def)
  ultimately show ?thesis
    using connected_sends_request [OF scripted_buffers scripted_no_failures, where w = "waiting_world NAME" and b = 9 and i = NAME
        and a = 4 and s = "waiting_session NAME" and h = 6 and X = "waiting_hs NAME 7" and c = 7 and B = "waiting_bev 7"]
    by (auto simp: waiting_bev_def simp del: handle_event.simps)
qed

subsection \<open>The client's request is complete\<close>

definition lookup :: "nat \<Rightarrow> addr \<Rightarrow> addr \<Rightarrow> dns_request" where
  "lookup i q r = \<lparr>dr_idx = i, dr_evdns_req = Some q, dr_session = Some r\<rparr>"

lemma dns_request_new_exact:
  assumes env: "evdns_getaddrinfo L domain (ext w) = (Gai_pending, e)" and mem: "answers w = []" and s: "sessions w a = Some s" "ss_me s = Some r"
    and r: "refs w r = Some X" "r < fresh w" and dns: "this_dns w \<noteq> None"
    and cnt: "int_ok (ss_pending_resolutions s + 1)" "int_ok (weak_refcnt X + 1)"
  shows "dns_request_new L a domain i w = Some (Some (fresh w), w\<lparr>fresh := fresh w + 2,
     dns_requests := (dns_requests w)(fresh w \<mapsto> lookup i (Suc (fresh w)) r), refs := (refs w)(r \<mapsto> X\<lparr>weak_refcnt := weak_refcnt X + 1\<rparr>),
     ext := e, resolving := (resolving w)(Suc (fresh w) \<mapsto> fresh w),
     sessions := (sessions w)(a \<mapsto> s\<lparr>ss_pending_resolutions := ss_pending_resolutions s + 1\<rparr>)\<rparr>)"
  using assms
  by (auto simp: dns_request_new_def new_addr_if reference_weak_inc_def dnsname_resolve_def upd_session_def Let_def lookup_def
      intro!: world.equality)

text \<open>C13.
  When the client's request is complete, the session takes a reference to itself and starts exactly two name lookups, first the name server's, then the
  joke server's. Each lookup has a DNS request of its own, which carries the reference weakly: the reference has one strong holder, the
  session, and two weak ones. Nothing is sent to anybody yet.
\<close>

theorem request_starts_lookups:
  assumes env: "env_ok L" and core: "core w" and v: "serves w a s CLIENT h X c b" and me: "ss_me s = None"
    and mem: "answers w = []" "this_dns w \<noteq> None" and cnt: "int_ok (ss_pending_resolutions s)" "int_ok (ss_pending_resolutions s + 2)"
  shows "\<exists>w' r d q d' q'. client_msg_complete L h w = Some w' \<and> distinct [d, d', r] \<and> q \<noteq> q' \<and>
     refs w r = None \<and> dns_requests w d = None \<and> dns_requests w d' = None \<and> resolving w q = None \<and> resolving w q' = None \<and>
     refs w' = (refs w)(r \<mapsto> \<lparr>ref_ptr = Some a, refcnt = 1, weak_refcnt = 2, free_fn = False\<rparr>) \<and>
     dns_requests w' = (dns_requests w)(d \<mapsto> lookup NAME q r, d' \<mapsto> lookup JOKE q' r) \<and> resolving w' = (resolving w)(q \<mapsto> d, q' \<mapsto> d') \<and>
     sessions w' = (sessions w)(a \<mapsto> s\<lparr>ss_me := Some r, ss_pending_resolutions := ss_pending_resolutions s + 2,
        ss_state := RESOLVING_WEBSERVER_DOMAINS\<rparr>) \<and>
     ext w' = snd (evdns_getaddrinfo L ''api.icndb.com'' (snd (evdns_getaddrinfo L ''uinames.com'' (ext w))))"
proof -
  obtain e1 where e1: "evdns_getaddrinfo L ''uinames.com'' (ext w) = (Gai_pending, e1)"
    using env by (metis env_ok_def prod.collapse)
  obtain e2 where e2: "evdns_getaddrinfo L ''api.icndb.com'' e1 = (Gai_pending, e2)"
    using env by (metis env_ok_def prod.collapse)
  let ?r = "fresh w"
  have new: "refs w ?r = None" "dns_requests w (Suc ?r) = None" "dns_requests w (Suc (Suc (Suc ?r))) = None"
    "resolving w (Suc (Suc ?r)) = None" "resolving w (Suc (Suc (Suc (Suc ?r)))) = None"
    using coreD(1) [OF core] by (simp_all add: fresh_ok_def unused_def)
  let ?s2 = "s\<lparr>ss_me := Some ?r\<rparr>"
  let ?w2 = "w\<lparr>fresh := Suc ?r, refs := (refs w)(?r \<mapsto> \<lparr>ref_ptr = Some a, refcnt = 1, weak_refcnt = 0, free_fn = False\<rparr>),
     sessions := (sessions w)(a \<mapsto> ?s2)\<rparr>"
  let ?X = "\<lparr>ref_ptr = Some a, refcnt = 1, weak_refcnt = 0, free_fn = False\<rparr>"
  let ?d = "fresh ?w2"
  let ?s3 = "?s2\<lparr>ss_pending_resolutions := ss_pending_resolutions ?s2 + 1\<rparr>"
  let ?X3 = "?X\<lparr>weak_refcnt := weak_refcnt ?X + 1\<rparr>"
  let ?w3 = "?w2\<lparr>fresh := fresh ?w2 + 2, dns_requests := (dns_requests ?w2)(?d \<mapsto> lookup NAME (Suc ?d) ?r),
     refs := (refs ?w2)(?r \<mapsto> ?X3), ext := e1, resolving := (resolving ?w2)(Suc ?d \<mapsto> ?d), sessions := (sessions ?w2)(a \<mapsto> ?s3)\<rparr>"
  have 3: "dns_request_new L a ''uinames.com'' NAME ?w2 = Some (Some ?d, ?w3)"
    by (rule dns_request_new_exact) (use e1 mem cnt in \<open>simp_all add: int_ok_def\<close>)
  let ?d' = "fresh ?w3"
  let ?w4 = "?w3\<lparr>fresh := fresh ?w3 + 2, dns_requests := (dns_requests ?w3)(?d' \<mapsto> lookup JOKE (Suc ?d') ?r),
     refs := (refs ?w3)(?r \<mapsto> ?X3\<lparr>weak_refcnt := weak_refcnt ?X3 + 1\<rparr>), ext := e2, resolving := (resolving ?w3)(Suc ?d' \<mapsto> ?d'),
     sessions := (sessions ?w3)(a \<mapsto> ?s3\<lparr>ss_pending_resolutions := ss_pending_resolutions ?s3 + 1\<rparr>)\<rparr>"
  have 4: "dns_request_new L a ''api.icndb.com'' JOKE ?w3 = Some (Some ?d', ?w4)"
    by (rule dns_request_new_exact) (use e2 mem cnt in \<open>simp_all add: int_ok_def\<close>)
  let ?w5 = "?w4\<lparr>sessions := (sessions ?w4)(a \<mapsto> s\<lparr>ss_me := Some ?r, ss_pending_resolutions := ss_pending_resolutions s + 2,
        ss_state := RESOLVING_WEBSERVER_DOMAINS\<rparr>)\<rparr>"
  have s: "sessions w a = Some s" "http_session_master h w = Some a" using v by (auto simp: serves_def http_session_master_def)
  have me2: "upd_session a (\<lambda>s. s\<lparr>ss_me := Some ?r\<rparr>) (w\<lparr>fresh := Suc ?r, refs := (refs w)(?r \<mapsto> ?X)\<rparr>) = Some ?w2"
    using s by (simp add: upd_session_def)
  have r: "reference_new (Some a) False w = (Some ?r, w\<lparr>fresh := Suc ?r, refs := (refs w)(?r \<mapsto> ?X)\<rparr>)"
    using mem by (auto simp: reference_new_def new_addr_if intro!: world.equality)
  have "session_state_set a RESOLVING_WEBSERVER_DOMAINS ?w4 = Some ?w5"
    by (simp add: session_state_set_def upd_session_def add.commute [of 2])
  then have run: "client_msg_complete L h w = Some ?w5"
    using s(2) r me2 3 4 by (simp add: client_msg_complete_def)
  show ?thesis
    by (rule exI [of _ ?w5], rule exI [of _ ?r], rule exI [of _ ?d], rule exI [of _ "Suc ?d"], rule exI [of _ ?d'], rule exI [of _ "Suc ?d'"],
        intro conjI, rule run) (use new e1 e2 in simp_all)
qed

theorem request_starts_lookups_witness:
  "\<exists>w r. client_msg_complete scripted 5 (waiting_world JOKE) = Some w \<and>
     refs w = [r \<mapsto> \<lparr>ref_ptr = Some 4, refcnt = 1, weak_refcnt = 2, free_fn = False\<rparr>]"
proof -
  have "ss_me (waiting_session JOKE) = None" "ss_pending_resolutions (waiting_session JOKE) = 0"
    by (simp_all add: waiting_session_def zero_session_def)
  moreover have "answers (waiting_world JOKE) = []" "this_dns (waiting_world JOKE) \<noteq> None" "refs (waiting_world JOKE) = Map.empty"
    by (simp_all add: waiting_world_def demo_world_def)
  moreover have "int_ok 0" "int_ok 2" by (simp_all add: int_ok_def)
  ultimately show ?thesis
    using request_starts_lookups [OF scripted_env waiting_core [of JOKE] waiting_serves(1) [of JOKE]] by fastforce
qed

subsection \<open>A name is resolved\<close>

definition new_upstream_hs :: "('e, 'p) lib \<Rightarrow> addr \<Rightarrow> nat \<Rightarrow> addr \<Rightarrow> 'p http_session" where
  "new_upstream_hs L a i c = \<lparr>hs_master = a, hs_state = HTTP_MESSAGE_BEGIN, hs_len = 0, hs_parser = http_parser_init L HTTP_RESPONSE,
     hs_body = None, hs_channel = Some c, hs_cbs = upstream_callbacks i\<rparr>"

definition session_channel :: "addr \<Rightarrow> addr \<Rightarrow> channel" where
  "session_channel h b = \<lparr>ch_service = Some Http_session_io_service, ch_eof = False, ch_ctx = Some h, ch_io = Some b, ch_listen = False\<rparr>"

definition session_bev :: "addr \<Rightarrow> addr \<Rightarrow> bev" where
  "session_bev fd c = \<lparr>bev_fd = fd, bev_arg = Some c, bev_high_wm = TCP_SOCKET_READ_HIGH_WM\<rparr>"

lemma tcp_socket_connect_exact:
  assumes c: "channels w c = Some Y" "ch_io Y = None" and mem: "answers w = []" "this_ebase w \<noteq> None"
    and con: "bufferevent_socket_connect L (Suc (fresh w)) sa (ext w) = (r, e)" "0 \<le> r"
  shows "tcp_socket_connect L c sa w = Some (IO_CHANNEL_E_AGAIN, w\<lparr>fresh := Suc (Suc (fresh w)), ext := e, fds := insert (fresh w) (fds w),
       bevs := (bevs w)(Suc (fresh w) \<mapsto> session_bev (fresh w) c), channels := (channels w)(c \<mapsto> Y\<lparr>ch_io := Some (Suc (fresh w))\<rparr>)\<rparr>)"
  using assms
  by (auto simp: tcp_socket_connect_def new_socket_def bufferevent_socket_new_def set_channel_def new_addr_if Let_def tcp_socket_config_ok
      ask_if session_bev_def intro!: world.equality)

lemma http_server_connect_exact:
  fixes w :: "('e, 'p) world"
  assumes s: "sessions w a = Some s" "length (ss_http s) = 3" and i: "i < 3" and mem: "answers w = []" "this_ebase w \<noteq> None"
    and con: "bufferevent_socket_connect L (fresh w + 3) sa (ext w) = (r, e)" "0 \<le> r" and cnt: "int_ok (ss_pending_connections s + 1)"
    and f: "f = fresh w"
  shows "http_server_connect L a sa i w = Some (w\<lparr>fresh := f + 4, ext := e, fds := insert (f + 2) (fds w),
     bevs := (bevs w)(f + 3 \<mapsto> session_bev (f + 2) f), channels := (channels w)(f \<mapsto> session_channel (f + 1) (f + 3)),
     hsessions := (hsessions w)(f + 1 \<mapsto> new_upstream_hs L a i f),
     sessions := (sessions w)(a \<mapsto> s\<lparr>ss_http := (ss_http s)[i := Some (f + 1)], ss_pending_connections := ss_pending_connections s + 1\<rparr>)\<rparr>)"
proof -
  let ?Y = "\<lparr>ch_service = Some Http_session_io_service, ch_eof = False, ch_ctx = Some (Suc f), ch_io = None, ch_listen = False\<rparr>"
  let ?X = "(new_upstream_hs L a i f)\<lparr>hs_cbs := no_callbacks\<rparr>"
  let ?w1 = "w\<lparr>fresh := Suc f, channels := (channels w)(f \<mapsto> ?Y\<lparr>ch_service := None, ch_ctx := None\<rparr>)\<rparr>"
  let ?w2 = "w\<lparr>fresh := Suc (Suc f), channels := (channels w)(f \<mapsto> ?Y), hsessions := (hsessions w)(Suc f \<mapsto> ?X)\<rparr>"
  let ?w3 = "?w2\<lparr>fresh := Suc (Suc (fresh ?w2)), ext := e, fds := insert (fresh ?w2) (fds ?w2),
       bevs := (bevs ?w2)(Suc (fresh ?w2) \<mapsto> session_bev (fresh ?w2) f), channels := (channels ?w2)(f \<mapsto> ?Y\<lparr>ch_io := Some (Suc (fresh ?w2))\<rparr>)\<rparr>"
  have new: "tcp_socket_new w = (Some f, ?w1)"
    using mem f by (auto simp: tcp_socket_new_def set_channel_def new_addr_if intro!: world.equality)
  have hs: "http_session_new L a (Some f) HTTP_RESPONSE ?w1 = Some (Some (Suc f), ?w2)"
    using mem by (auto simp: http_session_new_def set_hs_def set_channel_def new_addr_if new_upstream_hs_def intro!: world.equality)
  have con2: "tcp_socket_connect L f sa ?w2 = Some (IO_CHANNEL_E_AGAIN, ?w3)"
    by (rule tcp_socket_connect_exact [where r = r]) (use mem con f in \<open>simp_all add: numeral_3_eq_3\<close>)
  show ?thesis
    using new hs con2 s i cnt
    by (simp add: http_server_connect_def channel_connect_def upd_session_def http_session_callbacks_set_def)
       (auto simp: set_hs_def new_upstream_hs_def session_channel_def numeral_eq_Suc intro!: world.equality)
qed


text \<open>A session with its client that waits for the name server's address.\<close>

definition asking_world :: "(buffers, nat) world" where
  "asking_world = (waiting_world JOKE)\<lparr>sessions := [4 \<mapsto> (waiting_session JOKE)\<lparr>ss_me := Some 10\<rparr>],
     refs := [10 \<mapsto> \<lparr>ref_ptr = Some 4, refcnt = 1, weak_refcnt = 1, free_fn = False\<rparr>],
     dns_requests := [11 \<mapsto> lookup NAME 12 10], resolving := [12 \<mapsto> 11]\<rparr>"

lemma asking_core: "core asking_world"
proof -
  have "core (waiting_world JOKE)" by (rule waiting_core) simp
  note C = coreD [OF this]
  have s: "sessions (waiting_world JOKE) 4 = Some (waiting_session JOKE)" by (simp add: waiting_world_def)
  have same: "ss_http ((waiting_session JOKE)\<lparr>ss_me := Some 10\<rparr>) = ss_http (waiting_session JOKE)" by simp
  have "http_ok (sessions asking_world) (hsessions asking_world) (bodies asking_world) (channels asking_world) (bevs asking_world)"
    using http_ok_same [OF C(3) s same] unfolding asking_world_def waiting_world_def by (simp del: fun_upd_apply)
  moreover have "strs_ok (sessions asking_world) (strs asking_world)"
    using strs_ok_same [OF C(4) s, of "(waiting_session JOKE)\<lparr>ss_me := Some 10\<rparr>"]
    unfolding asking_world_def waiting_world_def by (simp add: str_ptrs_def distinct_strs_def del: fun_upd_apply)
  moreover have "pending (dns_requests asking_world) 10 i \<longleftrightarrow> i = NAME" for i by (auto simp: pending_def asking_world_def lookup_def)
  then have "refs_ok (sessions asking_world) (refs asking_world) (dns_requests asking_world)"
    by (auto simp: refs_ok_def ref_good_def weak_holders_def asking_world_def slots)
  moreover have "dns_ok (dns_requests asking_world) (refs asking_world) (resolving asking_world)"
    by (auto simp: dns_ok_def asking_world_def lookup_def split: if_splits)
  ultimately show ?thesis using C(1,2,7)
    by (simp add: core_def asking_world_def waiting_world_def fresh_ok_def unused_def len_ok_def demo_world_def waiting_session_def slots)
qed


subsection \<open>A connection is accepted\<close>

lemma session_add_exact:
  assumes L: "svc_sessions w = Some l" "svc_mutex w = Some m" "mutexes w m = Some False"
    and xs: "list_queue.holds (store_heap (lh w)) l xs" "will_succeed (store_heap (lh w))"
  shows "\<exists>H. http_service_session_add a w = Some (w\<lparr>lh := List_Store H\<rparr>) \<and> list_queue.holds H l (xs @ [Some a])"
proof -
  obtain H where H: "list_push_back l (Some a) (store_heap (lh w)) = Some H" "list_queue.holds H l (xs @ [Some a])"
    using list_queue.holds_push_back [OF xs] by blast
  have "http_service_session_add a w = Some (w\<lparr>lh := List_Store H\<rparr>)"
    using L H by (auto simp: http_service_session_add_def mutex_lock_def mutex_unlock_def fun_upd_idem intro!: world.equality)
  with H(2) show ?thesis by blast
qed

text \<open>C12.
  An accepted connection becomes a session. From the socket are made a bufferevent, a channel, the client's HTTP session and the session, linked
  to each other; the session waits for a request with the client's callbacks and is the last
  in the service's list. All other objects, and the listener, are as before.
\<close>

theorem accepted_connection_becomes_session:
  assumes core: "core w" and svc: "svc_ok w" and K: "listeners w l = Some K" and mem: "answers w = []" "this_ebase w \<noteq> None"
      "will_succeed (store_heap (lh w))"
    and fam: "sa_family sa \<in> {AF_INET, AF_INET6}"
  shows "\<exists>w' a h c b fd. handle_event L (Ev_accept l sa local) w = Some w' \<and>
     sessions w a = None \<and> hsessions w h = None \<and> channels w c = None \<and> bevs w b = None \<and>
     sessions w' = (sessions w)(a \<mapsto> new_session h) \<and> hsessions w' = (hsessions w)(h \<mapsto> new_client_hs L a c) \<and>
     channels w' = (channels w)(c \<mapsto> session_channel h b) \<and> bevs w' = (bevs w)(b \<mapsto> session_bev fd c) \<and> fds w' = insert fd (fds w) \<and>
     (\<exists>ls xs. svc_sessions w' = Some ls \<and> svc_sessions w = Some ls \<and> list_queue.holds (store_heap (lh w)) ls xs \<and>
        list_queue.holds (store_heap (lh w')) ls (xs @ [Some a])) \<and>
     listeners w' = listeners w \<and> strs w' = strs w \<and> bodies w' = bodies w \<and> refs w' = refs w \<and> dns_requests w' = dns_requests w \<and>
     ext w' = ext w \<and> mutexes w' = mutexes w"
proof -
  note C = coreD [OF core]
  obtain ls m ds where S: "svc_sessions w = Some ls" "svc_mutex w = Some m" "mutexes w m = Some False"
    "list_queue.holds (store_heap (lh w)) ls (map Some ds)" using svc unfolding svc_ok_def by blast
  obtain c Y where c: "lst_arg K = Some c" "channels w c = Some Y" "ch_service Y = Some Http_io_service"
    using C(7) K unfolding lst_ok_def by blast
  let ?f = "fresh w"
  let ?b = "Suc ?f"
  let ?ch = "Suc ?b"
  let ?a = "Suc ?ch"
  let ?h = "Suc ?a"
  have none: "bevs w ?b = None" "channels w ?ch = None" "sessions w ?a = None" "hsessions w ?h = None"
    using C(1) by (simp_all add: fresh_ok_def unused_def)
  let ?Yn = "\<lparr>ch_service = None, ch_eof = False, ch_ctx = None, ch_io = Some ?b, ch_listen = False\<rparr>"
  let ?w3 = "w\<lparr>fresh := Suc ?b, fds := insert ?f (fds w), bevs := (bevs w)(?b \<mapsto> \<lparr>bev_fd = ?f, bev_arg = None, bev_high_wm = 0\<rparr>)\<rparr>"
  let ?p = "\<lparr>ap_src = local, ap_dst = sa, ap_proto = 6, ap_io_ctx = Some ?b\<rparr>"
  let ?w5 = "w\<lparr>fresh := Suc ?ch, fds := insert ?f (fds w), bevs := (bevs w)(?b \<mapsto> session_bev ?f ?ch), channels := (channels w)(?ch \<mapsto> ?Yn)\<rparr>"
  have run3: "handle_event L (Ev_accept l sa local) w = http_service_accept_cb L (Some c) ?p ?w3"
    using fam K c mem by (auto simp: tcp_socket_accept_cb_def new_addr_if ask_if bufferevent_socket_new_def Let_def services_def
        intro!: arg_cong [where f = "http_service_accept_cb L (Some c) ?p"] world.equality)
  have "c \<noteq> ?ch" using c(2) none(2) by auto
  then have acc: "channel_accept (Some c) ?p ?w3 = Some (Some ?ch, ?w5)"
    using mem c(2) none by (auto simp: channel_accept_def tcp_socket_accept_def tcp_socket_new_def set_channel_def new_addr_if
        tcp_socket_config_ok session_bev_def intro!: world.equality)
  have c5: "channels ?w5 ?ch = Some ?Yn" "sessions ?w5 (fresh ?w5) = None" "hsessions ?w5 (Suc (fresh ?w5)) = None" using none by simp_all
  let ?w6 = "w\<lparr>fresh := Suc ?h, fds := insert ?f (fds w), bevs := (bevs w)(?b \<mapsto> session_bev ?f ?ch),
     channels := (channels w)(?ch \<mapsto> session_channel ?h ?b), hsessions := (hsessions w)(?h \<mapsto> new_client_hs L ?a ?ch),
     sessions := (sessions w)(?a \<mapsto> new_session ?h)\<rparr>"
  have made: "session_new L (Some ?ch) ?w5 = Some (Some ?a, ?w6)"
    using session_new_result [OF c5, of L] mem by (auto simp: session_channel_def intro!: world.equality)
  obtain H where H: "http_service_session_add ?a ?w6 = Some (?w6\<lparr>lh := List_Store H\<rparr>)" "list_queue.holds H ls (map Some ds @ [Some ?a])"
    using session_add_exact [of ?w6 ls m "map Some ds" ?a] S mem by auto
  have run: "handle_event L (Ev_accept l sa local) w = Some (?w6\<lparr>lh := List_Store H\<rparr>)"
    unfolding run3 using acc made H(1) by (simp add: http_service_accept_cb_def)
  show ?thesis
    by (rule exI [of _ "?w6\<lparr>lh := List_Store H\<rparr>"], rule exI [of _ ?a], rule exI [of _ ?h], rule exI [of _ ?ch], rule exI [of _ ?b],
        rule exI [of _ ?f], intro conjI, rule run) (use none S H(2) in \<open>auto simp: mem\<close>)
qed

theorem accepted_connection_becomes_session_witness:
  "\<exists>w a h. handle_event scripted (Ev_accept 3 demo_sockaddr demo_sockaddr) demo_world = Some w \<and> sessions w = [a \<mapsto> new_session h]"
proof -
  have "idle_service demo_world" by (rule demo_idle)
  then have "core demo_world" "svc_ok demo_world" using idle_inv invD(1,2) by blast+
  moreover have "sa_family demo_sockaddr \<in> {AF_INET, AF_INET6}" by (simp add: demo_sockaddr_def)
  moreover have "listeners demo_world 3 = Some \<lparr>lst_fd = 2, lst_arg = Some 4\<rparr>" "answers demo_world = []" "this_ebase demo_world \<noteq> None"
    "will_succeed (store_heap (lh demo_world))" "sessions demo_world = Map.empty"
    using demo_holds by (simp_all add: demo_world_def)
  ultimately show ?thesis
    using accepted_connection_becomes_session [of demo_world 3 "\<lparr>lst_fd = 2, lst_arg = Some 4\<rparr>" demo_sockaddr scripted demo_sockaddr]
    by (auto simp del: handle_event.simps)
qed

end
