(* ===== verification/Concurrency.thy ===== *)
theory Concurrency
  imports Lifecycle
begin

section \<open>Workers sharing the list of sessions\<close>

text \<open>
  The workers run their event loops in threads of their own; all they share is the list of sessions,
  which \<open>http_service_session_add\<close> and \<open>http_service_session_remove\<close> change under \<open>session_mutex\<close>.
  Here the two functions are broken up into the steps between which the scheduler may switch to another thread:
  taking the mutex, each store of the insertion, every node of the search, the unlinking,
  the release of the session and giving the mutex back. A \<open>crew\<close> is the memory with the position
  of every thread; a schedule is the sequence of threads that get a turn. It is shown that no
  schedule leads to undefined behaviour or a deadlock, and that each has the effect of the whole calls one after the other,
  which is what the handlers of \<open>Safety\<close> take them for.
\<close>

subsection \<open>Steps\<close>

datatype list_call = Add addr | Remove addr

text \<open>Where a thread is; all but \<open>Outside\<close> and \<open>Release_after\<close> are reached with the mutex taken.\<close>

datatype phase =
    Outside
  | Push addr
  | Link_node addr
  | Move_tail addr
  | Look addr
  | Search addr ptr
  | Unlink addr addr
  | Release addr
  | Release_after addr
  | Leave

record ('e, 'p) crew =
  shared :: "('e, 'p) world"
  phase_of :: "nat \<Rightarrow> phase"
  waiting_calls :: "nat \<Rightarrow> list_call list"

fun entry :: "list_call \<Rightarrow> phase" where
  "entry (Add a) = Push a"
| "entry (Remove a) = Look a"

abbreviation heap_of :: "('e, 'p) world \<Rightarrow> list_heap" where
  "heap_of w \<equiv> store_heap (lh w)"

abbreviation with_heap :: "list_heap \<Rightarrow> ('e, 'p) world \<Rightarrow> ('e, 'p) world" where
  "with_heap h w \<equiv> w\<lparr>lh := List_Store h\<rparr>"

text \<open>The three parts of \<open>list_push_back\<close>: the new node with its datum, the link from the tail cell, the new tail.\<close>

definition push_node :: "ptr \<Rightarrow> list_heap \<Rightarrow> (addr \<times> list_heap) option" where
  "push_node d h =
     (case node_new h of
        (None, h1) \<Rightarrow> None
      | (Some n, h1) \<Rightarrow> do { nd \<leftarrow> nodes h1 n; Some (n, set_node n (nd\<lparr>n_data := d\<rparr>) h1) })"

definition push_link :: "addr \<Rightarrow> addr \<Rightarrow> list_heap \<Rightarrow> list_heap option" where
  "push_link l n h = do { L \<leftarrow> hlists h l; store_cell (l_tail L) (Some n) h }"

definition push_tail :: "addr \<Rightarrow> addr \<Rightarrow> list_heap \<Rightarrow> list_heap option" where
  "push_tail l n h =
     do { L \<leftarrow> hlists h l;
          nd \<leftarrow> nodes h n;
          Some (set_list l (L\<lparr>l_tail := Some (Next n)\<rparr>) (set_node n (nd\<lparr>n_previous := l_tail L\<rparr>) h)) }"

lemma list_push_back_parts:
  "list_push_back l d h = do { (n, h1) \<leftarrow> push_node d h; h2 \<leftarrow> push_link l n h1; push_tail l n h2 }"
  by (cases "node_new h") (auto simp: list_push_back_def push_node_def push_link_def push_tail_def Let_def bind_assoc
      split: option.split intro!: arg_cong2 [where f = Option.bind])

text \<open>One step of a thread inside a call.\<close>

fun phase_step :: "phase \<Rightarrow> ('e, 'p) world \<Rightarrow> (phase \<times> ('e, 'p) world) option" where
  "phase_step Outside w = Some (Outside, w)"
| "phase_step (Push a) w = do { (n, h) \<leftarrow> push_node (Some a) (heap_of w); Some (Link_node n, with_heap h w) }"
| "phase_step (Link_node n) w =
     do { l \<leftarrow> svc_sessions w; h \<leftarrow> push_link l n (heap_of w); Some (Move_tail n, with_heap h w) }"
| "phase_step (Move_tail n) w =
     do { l \<leftarrow> svc_sessions w; h \<leftarrow> push_tail l n (heap_of w); Some (Leave, with_heap h w) }"
| "phase_step (Look a) w = do { l \<leftarrow> svc_sessions w; L \<leftarrow> hlists (heap_of w) l; Some (Search a (l_head L), w) }"
| "phase_step (Search a None) w = do { w1 \<leftarrow> mutex_unlock (svc_mutex w) w; Some (Release_after a, w1) }"
| "phase_step (Search a (Some n)) w =
     do { nd \<leftarrow> nodes (heap_of w) n;
          Some (if n_data nd = Some a then Unlink a n else Search a (n_next nd), w) }"
| "phase_step (Unlink a n) w =
     do { l \<leftarrow> svc_sessions w; (d, h) \<leftarrow> list_remove l (Some n) (heap_of w); Some (Release a, with_heap h w) }"
| "phase_step (Release a) w = do { w1 \<leftarrow> session_free (Some a) w; Some (Leave, w1) }"
| "phase_step (Release_after a) w = do { w1 \<leftarrow> session_free (Some a) w; Some (Outside, w1) }"
| "phase_step Leave w = do { w1 \<leftarrow> mutex_unlock (svc_mutex w) w; Some (Outside, w1) }"

definition mutex_taken :: "('e, 'p) world \<Rightarrow> bool" where
  "mutex_taken w \<longleftrightarrow> (case svc_mutex w of None \<Rightarrow> False | Some m \<Rightarrow> mutexes w m = Some True)"

text \<open>
  The turn of thread \<open>i\<close>: outside, it enters its next call, or waits for the mutex; inside it
  makes its next step. \<open>None\<close> is undefined behaviour.
\<close>

definition thread_turn :: "nat \<Rightarrow> ('e, 'p) crew \<Rightarrow> ('e, 'p) crew option" where
  "thread_turn i s =
     (if phase_of s i = Outside
      then (case waiting_calls s i of
              [] \<Rightarrow> Some s
            | c # cs \<Rightarrow>
                (if mutex_taken (shared s) then Some s
                 else do {
                   w \<leftarrow> mutex_lock (svc_mutex (shared s)) (shared s);
                   Some (s\<lparr>shared := w, phase_of := (phase_of s)(i := entry c),
                           waiting_calls := (waiting_calls s)(i := cs)\<rparr>) }))
      else do {
        (p, w) \<leftarrow> phase_step (phase_of s i) (shared s);
        Some (s\<lparr>shared := w, phase_of := (phase_of s)(i := p)\<rparr>) })"

fun run_schedule :: "nat list \<Rightarrow> ('e, 'p) crew \<Rightarrow> ('e, 'p) crew option" where
  "run_schedule [] s = Some s"
| "run_schedule (i # is) s = do { s1 \<leftarrow> thread_turn i s; run_schedule is s1 }"

definition crew_start :: "('e, 'p) world \<Rightarrow> (nat \<Rightarrow> list_call list) \<Rightarrow> ('e, 'p) crew" where
  "crew_start w js = \<lparr>shared = w, phase_of = (\<lambda>i. Outside), waiting_calls = js\<rparr>"

text \<open>The calls as wholes, and a sequence of them.\<close>

fun whole_call :: "list_call \<Rightarrow> ('e, 'p) world \<Rightarrow> ('e, 'p) world option" where
  "whole_call (Add a) w = http_service_session_add a w"
| "whole_call (Remove a) w = http_service_session_remove a w"

fun whole_calls :: "list_call list \<Rightarrow> ('e, 'p) world \<Rightarrow> ('e, 'p) world option" where
  "whole_calls [] w = Some w"
| "whole_calls (c # cs) w = do { w1 \<leftarrow> whole_call c w; whole_calls cs w1 }"

lemma whole_calls_append: "whole_calls (xs @ ys) w = do { w1 \<leftarrow> whole_calls xs w; whole_calls ys w1 }"
proof (induction xs arbitrary: w)
  case (Cons c xs)
  then show ?case by (cases "whole_call c w") simp_all
qed simp

lemma run_schedule_append: "run_schedule (xs @ ys) s = do { s1 \<leftarrow> run_schedule xs s; run_schedule ys s1 }"
proof (induction xs arbitrary: s)
  case (Cons i xs)
  then show ?case by (cases "thread_turn i s") simp_all
qed simp

subsection \<open>The rest of a call\<close>

text \<open>What is left of a call at each of its steps, run without a switch.\<close>

fun rest_of_call :: "phase \<Rightarrow> ('e, 'p) world \<Rightarrow> ('e, 'p) world option" where
  "rest_of_call Outside w = Some w"
| "rest_of_call Leave w = mutex_unlock (svc_mutex w) w"
| "rest_of_call (Move_tail n) w =
     do { l \<leftarrow> svc_sessions w; h \<leftarrow> push_tail l n (heap_of w); mutex_unlock (svc_mutex w) (with_heap h w) }"
| "rest_of_call (Link_node n) w =
     do { l \<leftarrow> svc_sessions w; h1 \<leftarrow> push_link l n (heap_of w); h \<leftarrow> push_tail l n h1; mutex_unlock (svc_mutex w) (with_heap h w) }"
| "rest_of_call (Push a) w =
     do { l \<leftarrow> svc_sessions w; h \<leftarrow> list_push_back l (Some a) (heap_of w); mutex_unlock (svc_mutex w) (with_heap h w) }"
| "rest_of_call (Release a) w = do { w1 \<leftarrow> session_free (Some a) w; mutex_unlock (svc_mutex w1) w1 }"
| "rest_of_call (Release_after a) w = session_free (Some a) w"
| "rest_of_call (Unlink a n) w =
     do { l \<leftarrow> svc_sessions w; (d, h) \<leftarrow> list_remove l (Some n) (heap_of w);
          w1 \<leftarrow> session_free (Some a) (with_heap h w); mutex_unlock (svc_mutex w1) w1 }"
| "rest_of_call (Search a q) w =
     do { node \<leftarrow> list_foreach_find (nodes (heap_of w)) q (Some a);
          (case node of
             Some n \<Rightarrow> do { l \<leftarrow> svc_sessions w; (d, h) \<leftarrow> list_remove l (Some n) (heap_of w);
                           w1 \<leftarrow> session_free (Some a) (with_heap h w); mutex_unlock (svc_mutex w1) w1 }
           | None \<Rightarrow> do { w1 \<leftarrow> mutex_unlock (svc_mutex w) w; session_free (Some a) w1 }) }"
| "rest_of_call (Look a) w =
     do { l \<leftarrow> svc_sessions w; node \<leftarrow> list_find_node l (Some a) (heap_of w);
          (case node of
             Some n \<Rightarrow> do { (d, h) \<leftarrow> list_remove l (Some n) (heap_of w);
                           w1 \<leftarrow> session_free (Some a) (with_heap h w); mutex_unlock (svc_mutex w1) w1 }
           | None \<Rightarrow> do { w1 \<leftarrow> mutex_unlock (svc_mutex w) w; session_free (Some a) w1 }) }"

lemma mutex_lock_frame:
  assumes "mutex_lock p w = Some w'"
  shows "svc_mutex w' = svc_mutex w" "svc_sessions w' = svc_sessions w" "lh w' = lh w"
  using assms by (auto simp: mutex_lock_def bind_eq_Some_conv split: if_splits)

text \<open>A call is the step into it and the rest.\<close>

lemma call_rest: "mutex_lock (svc_mutex w) w = Some w1 \<Longrightarrow> rest_of_call (entry c) w1 = whole_call c w"
  by (cases c) (simp_all add: http_service_session_add_def http_service_session_remove_def mutex_lock_frame cong: option.case_cong)

text \<open>A step leaves the rest of the call.\<close>

lemma step_rest:
  assumes "p \<noteq> Outside" "rest_of_call p w = Some v"
  shows "\<exists>p' w'. phase_step p w = Some (p', w') \<and> rest_of_call p' w' = Some v"
proof (cases p)
  case (Search a q)
  show ?thesis
  proof (cases q)
    case None
    with assms Search show ?thesis
      by (auto simp: list_foreach_find.simps [of _ None] bind_eq_Some_conv)
  next
    case (Some n)
    with assms Search obtain nd where nd: "nodes (heap_of w) n = Some nd"
      by (auto simp: list_foreach_find.simps [of _ "Some n"] split: option.splits)
    show ?thesis
    proof (cases "n_data nd = Some a")
      case True
      then have "rest_of_call (Unlink a n) w = Some v"
        using assms Search Some nd by (simp add: list_foreach_find.simps [of _ "Some n"])
      with True show ?thesis using Search Some nd by simp
    next
      case False
      then have "rest_of_call (Search a (n_next nd)) w = Some v"
        using assms Search Some nd by (simp add: list_foreach_find.simps [of _ "Some n"])
      with False show ?thesis using Search Some nd by simp
    qed
  qed
qed (use assms in \<open>auto simp: list_push_back_parts list_find_node_def bind_eq_Some_conv split: option.splits\<close>)

subsection \<open>The calls as wholes\<close>

text \<open>The mutex is free, the list holds the sessions \<open>ds\<close>, and its nodes can be allocated.\<close>

definition list_ready :: "addr list \<Rightarrow> ('e, 'p) world \<Rightarrow> bool" where
  "list_ready ds w \<longleftrightarrow> core w \<and> distinct ds \<and> answers (heap_of w) = [] \<and>
     (\<exists>l m. svc_sessions w = Some l \<and> svc_mutex w = Some m \<and> mutexes w m = Some False \<and> list_queue.holds (heap_of w) l (map Some ds))"

text \<open>
  A thread handles its own sessions \<open>U\<close>, of which \<open>L\<close> are in the list: it adds one that is not in the
  list yet, and removes one that is, after which the session is gone.
\<close>

fun proper_calls :: "addr set \<Rightarrow> addr set \<Rightarrow> list_call list \<Rightarrow> bool" where
  "proper_calls L U [] \<longleftrightarrow> True"
| "proper_calls L U (Add a # cs) \<longleftrightarrow> a \<in> U \<and> a \<notin> L \<and> proper_calls (insert a L) U cs"
| "proper_calls L U (Remove a # cs) \<longleftrightarrow> a \<in> L \<and> proper_calls (L - {a}) (U - {a}) cs"

definition owned_calls :: "addr list \<Rightarrow> ('e, 'p) world \<Rightarrow> (nat \<Rightarrow> list_call list) \<Rightarrow> bool" where
  "owned_calls ds w js \<longleftrightarrow> (\<exists>U. (\<forall>i j. i \<noteq> j \<longrightarrow> U i \<inter> U j = {}) \<and>
     (\<forall>i. U i \<subseteq> dom (sessions w) \<and> proper_calls (set ds \<inter> U i) (U i) (js i)))"

lemma whole_add:
  assumes r: "list_ready ds w" and a: "a \<notin> set ds"
  shows "\<exists>w'. http_service_session_add a w = Some w' \<and> list_ready (ds @ [a]) w' \<and> sessions w' = sessions w"
proof -
  obtain l m where L: "svc_sessions w = Some l" "svc_mutex w = Some m" "mutexes w m = Some False"
    "list_queue.holds (heap_of w) l (map Some ds)" using r unfolding list_ready_def by blast
  have ans: "answers (heap_of w) = []" using r by (simp add: list_ready_def)
  have mem: "will_succeed (heap_of w)" using ans by (simp add: will_succeed_def)
  obtain H where push: "list_push_back l (Some a) (heap_of w) = Some H" "list_queue.holds H l (map Some ds @ [Some a])"
    using list_queue.holds_push_back [OF L(4) mem] by blast
  then have H: "http_service_session_add a w = Some (with_heap H (w\<lparr>mutexes := (mutexes w)(m \<mapsto> False)\<rparr>))"
    using L by (simp add: http_service_session_add_def mutex_lock_def mutex_unlock_def)
  have "answers H = []" using answers_list_push_back [OF push(1)] ans by simp
  with H push(2) L r a show ?thesis by (simp add: list_ready_def)
qed

lemma whole_remove:
  assumes r: "list_ready ds w" and a: "a \<in> set ds" "a \<in> dom (sessions w)"
  shows "\<exists>w'. http_service_session_remove a w = Some w' \<and> list_ready (remove1 a ds) w' \<and>
     (\<forall>b. b \<noteq> a \<longrightarrow> sessions w' b = sessions w b)"
proof -
  obtain l m where L: "svc_sessions w = Some l" "svc_mutex w = Some m" "mutexes w m = Some False"
    "list_queue.holds (heap_of w) l (map Some ds)" using r unfolding list_ready_def by blast
  have R: "core w" "distinct ds" "answers (heap_of w) = []" using r by (simp_all add: list_ready_def)
  obtain n h where h: "list_find_node l (Some a) (heap_of w) = Some (Some n)"
    "list_remove l (Some n) (heap_of w) = Some (Some a, h)" "list_queue.holds h l (map Some (remove1 a ds))"
    using list_queue.find_and_remove [OF L(4), of "Some a"] a(1) by (auto simp: remove1_map_Some)
  let ?w2 = "with_heap h (w\<lparr>mutexes := (mutexes w)(m \<mapsto> True)\<rparr>)"
  obtain s where s: "sessions w a = Some s" using a(2) by blast
  have "runs (session_free (Some a) ?w2) (\<lambda>w'. core w' \<and> keeps a ?w2 w' \<and> sessions w' a = None)"
    by (rule session_free_runs [of _ _ s]) (simp_all add: R(1) s)
  then obtain w3 where w3: "session_free (Some a) ?w2 = Some w3" "core w3" "keeps a ?w2 w3" by (auto simp: runs_def)
  have env: "svc_sessions w3 = Some l" "svc_mutex w3 = Some m" "mutexes w3 = (mutexes w)(m \<mapsto> True)" "lh w3 = List_Store h"
    using w3(3) L by (simp_all add: keeps_def same_env_def)
  let ?w4 = "w3\<lparr>mutexes := (mutexes w3)(m \<mapsto> False)\<rparr>"
  have "http_service_session_remove a w = Some ?w4"
    using L h(1,2) w3(1) env by (simp add: http_service_session_remove_def mutex_lock_def mutex_unlock_def)
  moreover have "list_ready (remove1 a ds) ?w4"
    using R env h(3) w3(2) answers_list_remove [OF h(2)] by (simp add: list_ready_def)
  moreover have "\<forall>b. b \<noteq> a \<longrightarrow> sessions ?w4 b = sessions w b" using w3(3) by (simp add: keeps_def others_def)
  ultimately show ?thesis by blast
qed

text \<open>The next call of any thread can be made, and leaves the other threads what they rely on.\<close>

lemma whole_call_runs:
  assumes r: "list_ready ds w" and o: "owned_calls ds w js" and i: "js i = c # cs"
  shows "\<exists>w' ds'. whole_call c w = Some w' \<and> list_ready ds' w' \<and> owned_calls ds' w' (js(i := cs))"
proof -
  obtain U where V: "(\<forall>i j. i \<noteq> j \<longrightarrow> U i \<inter> U j = {}) \<and>
     (\<forall>i. U i \<subseteq> dom (sessions w) \<and> proper_calls (set ds \<inter> U i) (U i) (js i))"
    using o unfolding owned_calls_def by (elim exE)
  have U: "i \<noteq> j \<Longrightarrow> U i \<inter> U j = {}" "U i \<subseteq> dom (sessions w)" "proper_calls (set ds \<inter> U i) (U i) (js i)" for i j
    using V by simp_all
  show ?thesis
  proof (cases c)
    case (Add a)
    have "proper_calls (set ds \<inter> U i) (U i) (Add a # cs)" using U(3) [of i] i Add by (simp del: proper_calls.simps)
    then have a: "a \<in> U i" "a \<notin> set ds" "proper_calls (insert a (set ds \<inter> U i)) (U i) cs"
      unfolding proper_calls.simps by blast+
    obtain w' where w': "http_service_session_add a w = Some w'" "list_ready (ds @ [a]) w'" "sessions w' = sessions w"
      using whole_add [OF r a(2)] by blast
    have "proper_calls (set (ds @ [a]) \<inter> U j) (U j) ((js(i := cs)) j)" for j
    proof (cases "j = i")
      case True
      have "set (ds @ [a]) \<inter> U i = insert a (set ds \<inter> U i)" using a(1) by auto
      with a(3) True show ?thesis by simp
    next
      case False
      then have "a \<notin> U j" using U(1) [of i j] a(1) by auto
      then have "set (ds @ [a]) \<inter> U j = set ds \<inter> U j" by auto
      with False U(3) [of j] show ?thesis by simp
    qed
    then have "owned_calls (ds @ [a]) w' (js(i := cs))"
      unfolding owned_calls_def w'(3) using U(1,2) by (intro exI [of _ U] conjI allI impI)
    with Add w' show ?thesis by auto
  next
    case (Remove a)
    have "proper_calls (set ds \<inter> U i) (U i) (Remove a # cs)" using U(3) [of i] i Remove by (simp del: proper_calls.simps)
    then have a: "a \<in> U i" "a \<in> set ds" "proper_calls (set ds \<inter> U i - {a}) (U i - {a}) cs" by auto
    obtain w' where w': "http_service_session_remove a w = Some w'" "list_ready (remove1 a ds) w'"
      "\<And>b. b \<noteq> a \<Longrightarrow> sessions w' b = sessions w b"
      using whole_remove [OF r a(2)] a(1) U(2) by blast
    let ?V = "U(i := U i - {a})"
    have ds: "set (remove1 a ds) = set ds - {a}" using r by (simp add: list_ready_def set_remove1_eq)
    have notin: "a \<notin> U j" if "j \<noteq> i" for j using that U(1) [of i j] a(1) by auto
    have "proper_calls (set (remove1 a ds) \<inter> ?V j) (?V j) ((js(i := cs)) j)" for j
    proof (cases "j = i")
      case True
      have "set (remove1 a ds) \<inter> (U i - {a}) = set ds \<inter> U i - {a}" using ds by auto
      with a(3) True show ?thesis by simp
    next
      case False
      have "set (remove1 a ds) \<inter> U j = set ds \<inter> U j" using ds notin [OF False] by auto
      with False U(3) [of j] show ?thesis by simp
    qed
    moreover have "?V j \<subseteq> dom (sessions w')" for j
    proof
      fix b assume b: "b \<in> ?V j"
      then have "b \<noteq> a" "b \<in> U j" using notin [of j] by (auto split: if_splits)
      then show "b \<in> dom (sessions w')" using U(2) [of j] w'(3) [of b] by (auto simp: dom_def)
    qed
    moreover have "?V j \<inter> ?V k = {}" if "j \<noteq> k" for j k using U(1) [OF that] by auto
    ultimately have "owned_calls (remove1 a ds) w' (js(i := cs))"
      unfolding owned_calls_def by (intro exI [of _ ?V] conjI allI impI)
    with Remove w' show ?thesis by auto
  qed
qed

subsection \<open>Every schedule\<close>

text \<open>What holds of the memory at each step of a call; a search that has not found its node yet will find it.\<close>

fun sound_phase :: "phase \<Rightarrow> ('e, 'p) world \<Rightarrow> bool" where
  "sound_phase Outside w \<longleftrightarrow> True"
| "sound_phase (Look a) w \<longleftrightarrow> mutex_taken w \<and> core w \<and> a \<in> dom (sessions w) \<and>
     (\<exists>l n. svc_sessions w = Some l \<and> list_find_node l (Some a) (heap_of w) = Some (Some n))"
| "sound_phase (Search a q) w \<longleftrightarrow> mutex_taken w \<and> core w \<and> a \<in> dom (sessions w) \<and>
     (\<exists>n. list_foreach_find (nodes (heap_of w)) q (Some a) = Some (Some n))"
| "sound_phase (Unlink a n) w \<longleftrightarrow> mutex_taken w \<and> core w \<and> a \<in> dom (sessions w)"
| "sound_phase (Release a) w \<longleftrightarrow> mutex_taken w \<and> core w \<and> a \<in> dom (sessions w)"
| "sound_phase (Release_after a) w \<longleftrightarrow> False"
| "sound_phase p w \<longleftrightarrow> mutex_taken w"

lemma sound_taken: "sound_phase p w \<Longrightarrow> p \<noteq> Outside \<Longrightarrow> mutex_taken w"
  by (cases p) auto

lemma mutex_taken_frame [simp]: "mutex_taken (with_heap h w) = mutex_taken w"
  by (simp add: mutex_taken_def cong: option.case_cong)

lemma step_sound:
  assumes s: "sound_phase p w" and step: "phase_step p w = Some (p', w')"
  shows "sound_phase p' w'"
proof (cases p)
  case (Search a q)
  show ?thesis
  proof (cases q)
    case None
    with s Search show ?thesis by (simp add: list_foreach_find.simps [of _ None])
  next
    case (Some n)
    with s step Search show ?thesis
      by (auto simp: list_foreach_find.simps [of _ "Some n"] bind_eq_Some_conv split: option.splits if_splits)
  qed
next
  case (Release a)
  obtain x where x: "sessions w a = Some x" using s Release by auto
  obtain v where v: "session_free (Some a) w = Some v" "keeps a w v"
    using session_free_runs [OF _ x] s Release by (auto simp: runs_def)
  then have "mutex_taken v" using s Release by (simp add: keeps_def same_env_def mutex_taken_def cong: option.case_cong)
  with v(1) step Release show ?thesis by auto
qed (use s step in \<open>auto simp: bind_eq_Some_conv list_find_node_def\<close>)

text \<open>
  All threads but \<open>h\<close> are outside; the rest of the call of \<open>h\<close> leads to what the calls begun
  so far lead to one after the other, and that is a state in which every further call can be made.
\<close>

definition crew_inv :: "(nat \<Rightarrow> list_call list) \<Rightarrow> ('e, 'p) world \<Rightarrow> nat \<Rightarrow> (nat \<times> list_call) list \<Rightarrow> ('e, 'p) world \<Rightarrow> ('e, 'p) crew \<Rightarrow> bool" where
  "crew_inv js w0 h order v s \<longleftrightarrow>
     (\<forall>i. js i = map snd (filter (\<lambda>x. fst x = i) order) @ waiting_calls s i) \<and> whole_calls (map snd order) w0 = Some v \<and>
     (\<exists>ds. list_ready ds v \<and> owned_calls ds v (waiting_calls s)) \<and>
     (\<forall>j. j \<noteq> h \<longrightarrow> phase_of s j = Outside) \<and> rest_of_call (phase_of s h) (shared s) = Some v \<and> sound_phase (phase_of s h) (shared s)"

lemma entry_not_outside [simp]: "entry c \<noteq> Outside"
  by (cases c) simp_all

lemma crew_enters:
  assumes inv: "crew_inv js w0 h order v s" and out: "phase_of s h = Outside" and c: "waiting_calls s i = c # cs"
  shows "\<exists>w v'. mutex_lock (svc_mutex (shared s)) (shared s) = Some w \<and> \<not> mutex_taken (shared s) \<and>
     crew_inv js w0 i (order @ [(i, c)]) v' (s\<lparr>shared := w, phase_of := (phase_of s)(i := entry c),
       waiting_calls := (waiting_calls s)(i := cs)\<rparr>)"
proof -
  note I = inv [unfolded crew_inv_def]
  obtain ds where ds: "list_ready ds v" "owned_calls ds v (waiting_calls s)" using I by blast
  have sh: "shared s = v" using I out by simp
  obtain l m where L: "svc_sessions v = Some l" "svc_mutex v = Some m" "mutexes v m = Some False"
    "list_queue.holds (heap_of v) l (map Some ds)" using ds(1) unfolding list_ready_def by blast
  let ?w = "v\<lparr>mutexes := (mutexes v)(m \<mapsto> True)\<rparr>"
  have lock: "mutex_lock (svc_mutex v) v = Some ?w" using L by (simp add: mutex_lock_def)
  obtain v' ds' where v': "whole_call c v = Some v'" "list_ready ds' v'" "owned_calls ds' v' ((waiting_calls s)(i := cs))"
    using whole_call_runs [OF ds c] by blast
  have rest: "rest_of_call (entry c) ?w = Some v'" using call_rest [OF lock, of c] v'(1) by simp
  have taken: "mutex_taken ?w" using L by (simp add: mutex_taken_def)
  have "sound_phase (entry c) ?w"
  proof (cases c)
    case (Remove a)
    obtain U where "\<forall>i. U i \<subseteq> dom (sessions v) \<and> proper_calls (set ds \<inter> U i) (U i) (waiting_calls s i)"
      using ds(2) unfolding owned_calls_def by (elim exE conjE)
    then have "U i \<subseteq> dom (sessions v)" "proper_calls (set ds \<inter> U i) (U i) (Remove a # cs)"
      using c Remove by (metis (no_types))+
    then have a: "a \<in> set ds" "a \<in> dom (sessions v)" by auto
    obtain n h where "list_find_node l (Some a) (heap_of v) = Some (Some n)"
      using list_queue.find_and_remove [OF L(4), of "Some a"] a(1) by auto
    moreover have "core v" using ds(1) by (simp add: list_ready_def)
    ultimately show ?thesis using Remove a(2) L(1) taken by simp
  qed (use taken in simp)
  then have "crew_inv js w0 i (order @ [(i, c)]) v' (s\<lparr>shared := ?w, phase_of := (phase_of s)(i := entry c),
       waiting_calls := (waiting_calls s)(i := cs)\<rparr>)"
    unfolding crew_inv_def using I c v' rest out by (auto simp: whole_calls_append)
  moreover have "\<not> mutex_taken v" using L by (simp add: mutex_taken_def)
  ultimately show ?thesis using lock unfolding sh by blast
qed

lemma crew_steps:
  assumes inv: "crew_inv js w0 h order v s" and inside: "phase_of s h \<noteq> Outside"
  shows "\<exists>p w. phase_step (phase_of s h) (shared s) = Some (p, w) \<and>
     crew_inv js w0 h order v (s\<lparr>shared := w, phase_of := (phase_of s)(h := p)\<rparr>)"
proof -
  note I = inv [unfolded crew_inv_def]
  obtain p w where p: "phase_step (phase_of s h) (shared s) = Some (p, w)" "rest_of_call p w = Some v"
    using step_rest [OF inside] I by blast
  have "sound_phase p w" by (rule step_sound [OF _ p(1)]) (use I in blast)
  with p I show ?thesis unfolding crew_inv_def by (intro exI [of _ p] exI [of _ w]) simp
qed

lemma crew_turn:
  assumes inv: "crew_inv js w0 h order v s"
  shows "\<exists>s' h' order' v'. thread_turn i s = Some s' \<and> crew_inv js w0 h' order' v' s'"
proof (cases "phase_of s i = Outside")
  case False
  then have "h = i" using inv unfolding crew_inv_def by metis
  with crew_steps [OF inv] False show ?thesis by (force simp: thread_turn_def)
next
  case True
  show ?thesis
  proof (cases "waiting_calls s i")
    case Nil
    with True inv show ?thesis by (auto simp: thread_turn_def)
  next
    case (Cons c cs)
    show ?thesis
    proof (cases "phase_of s h = Outside")
      case out: True
      from crew_enters [OF inv out Cons] True Cons show ?thesis by (force simp: thread_turn_def)
    next
      case False
      then have "mutex_taken (shared s)" using inv sound_taken unfolding crew_inv_def by blast
      with True Cons inv show ?thesis by (auto simp: thread_turn_def)
    qed
  qed
qed

lemma crew_runs:
  "crew_inv js w0 h order v s \<Longrightarrow> \<exists>s' h' order' v'. run_schedule sched s = Some s' \<and> crew_inv js w0 h' order' v' s'"
proof (induction sched arbitrary: h order v s)
  case Nil
  then show ?case by auto
next
  case (Cons i sched)
  obtain s1 h1 o1 v1 where "thread_turn i s = Some s1" "crew_inv js w0 h1 o1 v1 s1" using crew_turn [OF Cons.prems] by blast
  with Cons.IH show ?case by force
qed

lemma crew_inv_start: "list_ready ds w \<Longrightarrow> owned_calls ds w js \<Longrightarrow> crew_inv js w 0 [] w (crew_start w js)"
  by (auto simp: crew_inv_def crew_start_def)

subsection \<open>Every thread finishes\<close>

text \<open>From \<open>p\<close>, enough turns of the thread alone end the call.\<close>

definition leaves :: "phase \<Rightarrow> ('e, 'p) world \<Rightarrow> ('e, 'p) world \<Rightarrow> bool" where
  "leaves p w v \<longleftrightarrow> (\<forall>s :: ('e, 'p) crew. \<forall>i. phase_of s i = p \<longrightarrow> shared s = w \<longrightarrow>
     (\<exists>k. run_schedule (replicate k i) s = Some (s\<lparr>shared := v, phase_of := (phase_of s)(i := Outside)\<rparr>)))"

lemma leaves_Outside: "leaves Outside w w"
  unfolding leaves_def by (intro allI impI exI [of _ 0]) (auto intro!: crew.equality)

lemma leaves_step:
  fixes w :: "('e, 'p) world"
  assumes p: "p \<noteq> Outside" and step: "phase_step p w = Some (p', w')" and rest: "leaves p' w' v"
  shows "leaves p w v"
  unfolding leaves_def
proof (intro allI impI)
  fix s :: "('e, 'p) crew" and i assume s: "phase_of s i = p" "shared s = w"
  let ?s = "s\<lparr>shared := w', phase_of := (phase_of s)(i := p')\<rparr>"
  have "\<exists>k. run_schedule (replicate k i) ?s = Some (?s\<lparr>shared := v, phase_of := (phase_of ?s)(i := Outside)\<rparr>)"
    by (rule rest [unfolded leaves_def, rule_format]) simp_all
  then obtain k where "run_schedule (replicate k i) ?s = Some (s\<lparr>shared := v, phase_of := (phase_of s)(i := Outside)\<rparr>)" by auto
  moreover have "thread_turn i s = Some ?s" using s p step by (simp add: thread_turn_def)
  ultimately have "run_schedule (replicate (Suc k) i) s = Some (s\<lparr>shared := v, phase_of := (phase_of s)(i := Outside)\<rparr>)" by simp
  then show "\<exists>k. run_schedule (replicate k i) s = Some (s\<lparr>shared := v, phase_of := (phase_of s)(i := Outside)\<rparr>)" by blast
qed

lemma leaves_from:
  assumes "p \<noteq> Outside" "rest_of_call p w = Some v"
    and "\<And>p' w'. phase_step p w = Some (p', w') \<Longrightarrow> rest_of_call p' w' = Some v \<Longrightarrow> leaves p' w' v"
  shows "leaves p w v"
  using step_rest [OF assms(1,2)] assms leaves_step by blast

lemma leaves_ends:
  "rest_of_call Leave w = Some v \<Longrightarrow> leaves Leave w v"
  "rest_of_call (Release_after a) w = Some v \<Longrightarrow> leaves (Release_after a) w v"
  by (rule leaves_from; auto simp: bind_eq_Some_conv intro: leaves_Outside)+

lemma leaves_Release: "rest_of_call (Release a) w = Some v \<Longrightarrow> leaves (Release a) w v"
  by (rule leaves_from) (auto simp: bind_eq_Some_conv intro: leaves_ends)

lemma leaves_Unlink: "rest_of_call (Unlink a n) w = Some v \<Longrightarrow> leaves (Unlink a n) w v"
  by (rule leaves_from) (auto simp: bind_eq_Some_conv simp del: rest_of_call.simps intro: leaves_Release)

lemma leaves_Move_tail: "rest_of_call (Move_tail n) w = Some v \<Longrightarrow> leaves (Move_tail n) w v"
  by (rule leaves_from) (auto simp: bind_eq_Some_conv intro: leaves_ends)

lemma leaves_Link_node: "rest_of_call (Link_node n) w = Some v \<Longrightarrow> leaves (Link_node n) w v"
  by (rule leaves_from) (auto simp: bind_eq_Some_conv simp del: rest_of_call.simps intro: leaves_Move_tail)

lemma leaves_Push: "rest_of_call (Push a) w = Some v \<Longrightarrow> leaves (Push a) w v"
  by (rule leaves_from) (auto simp: bind_eq_Some_conv simp del: rest_of_call.simps intro: leaves_Link_node)

text \<open>The search passes finitely many nodes: \<open>list_foreach_find\<close> has returned.\<close>

lemma leaves_Search:
  fixes w :: "('e, 'p) world"
  assumes "list_foreach_find N q d = Some r" "nodes (heap_of w) = N" "d = Some a" "rest_of_call (Search a q) w = Some v"
  shows "leaves (Search a q) w v"
proof -
  have "\<forall>w :: ('e, 'p) world. \<forall>a v. nodes (heap_of w) = N \<longrightarrow> d = Some a \<longrightarrow> rest_of_call (Search a q) w = Some v \<longrightarrow> leaves (Search a q) w v"
  proof (rule list_foreach_find.raw_induct [OF _ assms(1)], intro allI impI)
    fix f N q d r and w :: "('e, 'p) world" and a v
    assume IH: "\<And>N q d r. f N q d = Some r \<Longrightarrow>
        \<forall>w :: ('e, 'p) world. \<forall>a v. nodes (heap_of w) = N \<longrightarrow> d = Some a \<longrightarrow> rest_of_call (Search a q) w = Some v \<longrightarrow> leaves (Search a q) w v"
      and step: "(case q of None \<Rightarrow> Some None
        | Some n \<Rightarrow> (case N n of None \<Rightarrow> None | Some nd \<Rightarrow> if n_data nd = d then Some (Some n) else f N (n_next nd) d)) = Some r"
      and w: "nodes (heap_of w) = N" "d = Some a" "rest_of_call (Search a q) w = Some v"
    show "leaves (Search a q) w v"
    proof (rule leaves_from [OF _ w(3)])
      fix p' w' assume p': "phase_step (Search a q) w = Some (p', w')" "rest_of_call p' w' = Some v"
      show "leaves p' w' v"
      proof (cases q)
        case None
        with p' show ?thesis by (auto simp: bind_eq_Some_conv simp del: rest_of_call.simps intro: leaves_ends)
      next
        case (Some n)
        then obtain nd where nd: "N n = Some nd" using step by (auto split: option.splits)
        show ?thesis
        proof (cases "n_data nd = Some a")
          case True
          with p' Some nd w(1) show ?thesis by (auto simp del: rest_of_call.simps intro: leaves_Unlink)
        next
          case False
          then have "f N (n_next nd) d = Some r" using step Some nd w(2) by simp
          moreover have "p' = Search a (n_next nd)" "w' = w" using False p' Some nd w(1) by auto
          ultimately show ?thesis using IH w(1,2) p'(2) by blast
        qed
      qed
    qed simp
  qed
  with assms(2-4) show ?thesis by blast
qed

lemma leaves_rest:
  assumes "rest_of_call p w = Some v"
  shows "leaves p w v"
proof -
  have search: "rest_of_call (Search a q) w' = Some v \<Longrightarrow> leaves (Search a q) w' v" for a q w'
    using leaves_Search [OF _ refl refl, of w' q a _ v] by (auto simp: bind_eq_Some_conv)
  have look: "rest_of_call (Look a) w' = Some v \<Longrightarrow> leaves (Look a) w' v" for a w'
    by (rule leaves_from) (auto simp: bind_eq_Some_conv simp del: rest_of_call.simps intro: search)
  show ?thesis using assms
  proof (cases p)
    case Outside
    with assms show ?thesis by (simp add: leaves_Outside)
  qed (simp_all only: search look leaves_ends leaves_Release leaves_Unlink leaves_Move_tail leaves_Link_node leaves_Push)
qed

lemma crew_leaves:
  fixes w0 :: "('e, 'p) world"
  assumes inv: "crew_inv js w0 h order v s"
  shows "\<exists>more s'. run_schedule more s = Some s' \<and> crew_inv js w0 h order v s' \<and> (\<forall>i. phase_of s' i = Outside) \<and>
     waiting_calls s' = waiting_calls s"
proof -
  note I = inv [unfolded crew_inv_def]
  have "leaves (phase_of s h) (shared s) v" using I leaves_rest by blast
  then have "\<exists>k. run_schedule (replicate k h) s = Some (s\<lparr>shared := v, phase_of := (phase_of s)(h := Outside)\<rparr>)"
    unfolding leaves_def by (elim allE impE) (rule refl)+
  then obtain k where k: "run_schedule (replicate k h) s = Some (s\<lparr>shared := v, phase_of := (phase_of s)(h := Outside)\<rparr>)" by blast
  have "crew_inv js w0 h order v (s\<lparr>shared := v, phase_of := (phase_of s)(h := Outside)\<rparr>)"
    using I by (simp add: crew_inv_def)
  with k I show ?thesis
    by (intro exI [of _ "replicate k h"] exI [of _ "s\<lparr>shared := v, phase_of := (phase_of s)(h := Outside)\<rparr>"]) simp
qed

lemma crew_finishes:
  fixes w0 :: "('e, 'p) world"
  assumes "crew_inv js w0 h order v s" "\<forall>i. phase_of s i = Outside" "\<forall>i \<ge> n. waiting_calls s i = []"
  shows "\<exists>more s' h' order' v'. run_schedule more s = Some s' \<and> crew_inv js w0 h' order' v' s' \<and>
     (\<forall>i. phase_of s' i = Outside \<and> waiting_calls s' i = [])"
  using assms
proof (induction "\<Sum>i<n. length (waiting_calls s i)" arbitrary: h order v s rule: less_induct)
  case less
  show ?case
  proof (cases "\<exists>i<n. waiting_calls s i \<noteq> []")
    case False
    then have "waiting_calls s i = []" for i using less.prems(3) by (cases "i < n") simp_all
    with less.prems show ?thesis by (intro exI [of _ "[]"] exI [of _ s] exI [of _ h] exI [of _ order] exI [of _ v]) simp
  next
    case True
    then obtain i c cs where i: "i < n" "waiting_calls s i = c # cs" by (meson list.exhaust)
    obtain w v1 where w: "mutex_lock (svc_mutex (shared s)) (shared s) = Some w" "\<not> mutex_taken (shared s)"
      "crew_inv js w0 i (order @ [(i, c)]) v1 (s\<lparr>shared := w, phase_of := (phase_of s)(i := entry c),
         waiting_calls := (waiting_calls s)(i := cs)\<rparr>)"
      using crew_enters [OF less.prems(1) _ i(2)] less.prems(2) by blast
    let ?s = "s\<lparr>shared := w, phase_of := (phase_of s)(i := entry c), waiting_calls := (waiting_calls s)(i := cs)\<rparr>"
    have turn: "thread_turn i s = Some ?s" using w(1,2) i(2) less.prems(2) by (simp add: thread_turn_def)
    obtain m1 s1 where s1: "run_schedule m1 ?s = Some s1" "crew_inv js w0 i (order @ [(i, c)]) v1 s1"
      "\<forall>i. phase_of s1 i = Outside" "waiting_calls s1 = (waiting_calls s)(i := cs)"
      using crew_leaves [OF w(3)] by auto
    have less: "(\<Sum>j<n. length (waiting_calls s1 j)) < (\<Sum>j<n. length (waiting_calls s j))"
      by (rule sum_strict_mono_ex1) (use i s1(4) in auto)
    have "\<forall>j \<ge> n. waiting_calls s1 j = []" using less.prems(3) i(1) s1(4) by simp
    from less.hyps [OF less s1(2,3) this] obtain m2 s2 h2 o2 v2 where s2: "run_schedule m2 s1 = Some s2"
      "crew_inv js w0 h2 o2 v2 s2" "\<forall>i. phase_of s2 i = Outside \<and> waiting_calls s2 i = []" by blast
    have "run_schedule (i # m1 @ m2) s = Some s2" using turn s1(1) s2(1) by (simp add: run_schedule_append)
    with s2(2,3) show ?thesis by blast
  qed
qed

subsection \<open>Properties\<close>

text \<open>C2.
  The workers may be interleaved in any way. Whatever the schedule, nothing undefined happens; at most one thread is inside
  \<open>http_service_session_add\<close> or \<open>http_service_session_remove\<close>; and there is an order of the calls that
  have been entered, in which each thread's come in its own order, such that finishing the
  call in progress gives the memory that the whole calls give one after the other.
\<close>

theorem session_calls_serialised:
  assumes "list_ready ds w" "owned_calls ds w js"
  shows "\<exists>s order v h. run_schedule sched (crew_start w js) = Some s \<and>
     (\<forall>i. js i = map snd (filter (\<lambda>x. fst x = i) order) @ waiting_calls s i) \<and>
     whole_calls (map snd order) w = Some v \<and>
     (\<forall>j. j \<noteq> h \<longrightarrow> phase_of s j = Outside) \<and> rest_of_call (phase_of s h) (shared s) = Some v"
proof -
  obtain s h order v where "run_schedule sched (crew_start w js) = Some s" "crew_inv js w h order v s"
    using crew_runs [OF crew_inv_start [OF assms]] by blast
  then show ?thesis unfolding crew_inv_def by blast
qed

text \<open>C3.
  The workers never block each other for good: whatever the schedule has been, there are turns after which every thread
  has finished its calls, and the memory is then what the whole calls give one after the other in some order that keeps each thread's own.
\<close>

theorem session_calls_complete:
  assumes "list_ready ds w" "owned_calls ds w js" "\<forall>i \<ge> n. js i = []"
  shows "\<exists>more s order. run_schedule (sched @ more) (crew_start w js) = Some s \<and>
     (\<forall>i. phase_of s i = Outside \<and> waiting_calls s i = []) \<and>
     (\<forall>i. js i = map snd (filter (\<lambda>x. fst x = i) order)) \<and> whole_calls (map snd order) w = Some (shared s)"
proof -
  obtain s1 h1 o1 v1 where s1: "run_schedule sched (crew_start w js) = Some s1" "crew_inv js w h1 o1 v1 s1"
    using crew_runs [OF crew_inv_start [OF assms(1,2)]] by blast
  obtain m2 s2 where s2: "run_schedule m2 s1 = Some s2" "crew_inv js w h1 o1 v1 s2" "\<forall>i. phase_of s2 i = Outside"
    "waiting_calls s2 = waiting_calls s1" using crew_leaves [OF s1(2)] by blast
  have "\<forall>i \<ge> n. waiting_calls s2 i = []"
  proof (intro allI impI)
    fix i assume "n \<le> i"
    then have "js i = []" using assms(3) by blast
    moreover have "js i = map snd (filter (\<lambda>x. fst x = i) o1) @ waiting_calls s2 i" using s2(2) unfolding crew_inv_def by blast
    ultimately show "waiting_calls s2 i = []" by simp
  qed
  then obtain m3 s3 h3 o3 v3 where s3: "run_schedule m3 s2 = Some s3" "crew_inv js w h3 o3 v3 s3"
    "\<forall>i. phase_of s3 i = Outside \<and> waiting_calls s3 i = []" using crew_finishes [OF s2(2,3)] by blast
  have "run_schedule (sched @ m2 @ m3) (crew_start w js) = Some s3" using s1(1) s2(1) s3(1) by (simp add: run_schedule_append)
  moreover have "\<forall>i. js i = map snd (filter (\<lambda>x. fst x = i) o3)" using s3(2,3) by (simp add: crew_inv_def)
  moreover have "whole_calls (map snd o3) w = Some (shared s3)" using s3(2,3) by (simp add: crew_inv_def)
  ultimately show ?thesis using s3(3) by blast
qed

text \<open>Two live sessions that are not in the list yet: one worker adds and removes its session, the other adds its own.\<close>

definition two_sessions :: "(buffers, nat) world" where
  "two_sessions = demo_world\<lparr>sessions := [7 \<mapsto> zero_session, 8 \<mapsto> zero_session]\<rparr>"

definition two_workers :: "nat \<Rightarrow> list_call list" where
  "two_workers = (\<lambda>i. [])(0 := [Add 7, Remove 7], 1 := [Add 8])"

lemma zero_slots: "\<not> slot [7 \<mapsto> zero_session, 8 \<mapsto> zero_session] a i h"
  by (auto simp: slot_def zero_session_def COUNT_def split: if_splits)

lemma two_sessions_ready: "list_ready [] two_sessions"
proof -
  have http: "http_ok [7 \<mapsto> zero_session, 8 \<mapsto> zero_session] Map.empty {} (channels demo_world) Map.empty"
    by (simp add: http_ok_def zero_slots demo_world_def)
  have "fresh_ok two_sessions" "lst_ok (listeners demo_world) (channels demo_world)"
    using demo_idle by (auto simp: idle_service_def two_sessions_def fresh_ok_def unused_def demo_world_def)
  then have "core two_sessions" using http
    by (auto simp: core_def two_sessions_def demo_world_def len_ok_def strs_ok_def refs_ok_def dns_ok_def zero_session_def distinct_strs_def
        str_ptrs_def COUNT_def split: if_splits)
  then show ?thesis
    using demo_holds
    by (simp add: list_ready_def two_sessions_def demo_world_def list_new_def new_addr_if empty_heap_def)
qed

lemma two_workers_owned: "owned_calls [] two_sessions two_workers"
  unfolding owned_calls_def
  by (intro exI [of _ "(\<lambda>i. {})(0 := {7}, 1 := {8})"])
     (auto simp: two_sessions_def two_workers_def demo_world_def)

theorem session_calls_serialised_witness:
  "\<exists>s. run_schedule [0, 1, 0, 1, 0, 0, 1, 0] (crew_start two_sessions two_workers) = Some s \<and>
     (\<exists>h. \<forall>j. j \<noteq> h \<longrightarrow> phase_of s j = Outside)"
  using session_calls_serialised [OF two_sessions_ready two_workers_owned, of "[0, 1, 0, 1, 0, 0, 1, 0]"] by blast

theorem session_calls_complete_witness:
  "\<exists>more s. run_schedule ([0, 1, 0] @ more) (crew_start two_sessions two_workers) = Some s \<and>
     (\<forall>i. phase_of s i = Outside \<and> waiting_calls s i = [])"
proof -
  have "\<forall>i \<ge> 2. two_workers i = []" by (simp add: two_workers_def)
  from session_calls_complete [OF two_sessions_ready two_workers_owned this, of "[0, 1, 0]"] show ?thesis by blast
qed

end
