(* ===== verification/Threads.thy ===== *)
theory Threads
  imports Http_Engine
begin

section \<open>Threads (thread.h, pthread.c)\<close>

text \<open>
  The wrappers around POSIX threads. A process is a \<open>world\<close> with its threads: the \<open>thread_t\<close>,
  \<open>thread_arg_t\<close>, \<open>thread_id_t\<close> and \<open>thread_key_t\<close> structs on the heap, the state of every
  thread the kernel knows, the values of the thread specific keys, and the thread that runs.
  \<open>pthread_create\<close> makes a thread that has not run yet; \<open>thread_routine\<close> runs it, until it ends
  or blocks in the event loop of a base. Joining waits: it returns when the thread has ended,
  after it has run and left its event loop, which it does when the exit of the loop was requested.
  A wait that never ends is \<open>None\<close>.
\<close>

subsection \<open>Data\<close>

datatype thread_signal = THREAD_SIGTERM

text \<open>The only function the program starts a thread with, in \<open>worker.c\<close>.\<close>

datatype thread_fn = Worker_Loop

record thread =
  th_id :: ptr
  th_fn :: thread_fn

record thread_arg =
  ta_thread :: ptr
  ta_user_arg :: ptr

text \<open>\<open>Created a\<close>: not run yet, with the argument \<open>a\<close>; \<open>In_loop eb f x\<close>: in \<open>event_base_dispatch(eb)\<close>, called by \<open>f(x)\<close>.\<close>

datatype thread_state = Created addr | Running | In_loop addr thread_fn ptr | Ended

text \<open>\<open>ebases\<close>: the live event bases, with the request to leave the loop.\<close>

record ('e, 'p) process = "('e, 'p) world" +
  threads :: "addr \<rightharpoonup> thread"
  thread_args :: "addr \<rightharpoonup> thread_arg"
  thread_ids :: "addr \<rightharpoonup> addr"
  thread_keys :: "addr \<rightharpoonup> addr"
  pthreads :: "addr \<rightharpoonup> thread_state"
  tls :: "addr \<rightharpoonup> (addr \<Rightarrow> ptr)"
  current :: addr
  signals :: "(addr \<times> thread_signal) list"
  ebases :: "addr \<rightharpoonup> bool"

type_synonym ('e, 'p, 'm) proc = "('e, 'p, 'm) process_scheme"

lemma answer_process [simp]:
  "answer n (w\<lparr>threads := T\<rparr>) = answer n w" "answer n (w\<lparr>thread_args := A\<rparr>) = answer n w"
  "answer n (w\<lparr>thread_ids := I\<rparr>) = answer n w" "answer n (w\<lparr>thread_keys := K\<rparr>) = answer n w"
  "answer n (w\<lparr>pthreads := P\<rparr>) = answer n w" "answer n (w\<lparr>tls := V\<rparr>) = answer n w"
  "answer n (w\<lparr>current := t\<rparr>) = answer n w" "answer n (w\<lparr>signals := S\<rparr>) = answer n w"
  "answer n (w\<lparr>ebases := B\<rparr>) = answer n w"
  by (simp_all add: answer_def)

subsection \<open>Threads and their arguments\<close>

definition thread_arg_new :: "('e, 'p, 'm) proc \<Rightarrow> ptr \<times> ('e, 'p, 'm) proc" where
  "thread_arg_new w =
     (case new_addr w of
        (None, w1) \<Rightarrow> (None, w1)
      | (Some a, w1) \<Rightarrow> (Some a, w1\<lparr>thread_args := (thread_args w1)(a \<mapsto> \<lparr>ta_thread = None, ta_user_arg = None\<rparr>)\<rparr>))"

definition thread_arg_free :: "ptr \<Rightarrow> ('e, 'p, 'm) proc \<Rightarrow> ('e, 'p, 'm) proc option" where
  "thread_arg_free p w = do { A \<leftarrow> free_at (thread_args w) p; Some (w\<lparr>thread_args := A\<rparr>) }"

definition thread_new :: "thread_fn \<Rightarrow> ('e, 'p, 'm) proc \<Rightarrow> ptr \<times> ('e, 'p, 'm) proc" where
  "thread_new fn w =
     (case new_addr w of
        (None, w1) \<Rightarrow> (None, w1)
      | (Some a, w1) \<Rightarrow> (Some a, w1\<lparr>threads := (threads w1)(a \<mapsto> \<lparr>th_id = None, th_fn = fn\<rparr>)\<rparr>))"

definition thread_free :: "ptr \<Rightarrow> ('e, 'p, 'm) proc \<Rightarrow> ('e, 'p, 'm) proc option" where
  "thread_free p w = do { T \<leftarrow> free_at (threads w) p; Some (w\<lparr>threads := T\<rparr>) }"

text \<open>\<open>pthread_create\<close>: it fails, or the new thread gets an identity that is not in use.\<close>

definition pthread_create :: "addr \<Rightarrow> ('e, 'p, 'm) proc \<Rightarrow> ptr \<times> ('e, 'p, 'm) proc" where
  "pthread_create arg w =
     (case new_addr w of
        (None, w1) \<Rightarrow> (None, w1)
      | (Some t, w1) \<Rightarrow> (Some t, w1\<lparr>pthreads := (pthreads w1)(t \<mapsto> Created arg)\<rparr>))"

definition thread_start :: "ptr \<Rightarrow> ptr \<Rightarrow> ('e, 'p, 'm) proc \<Rightarrow> (int \<times> ('e, 'p, 'm) proc) option" where
  "thread_start thread arg w =
     (case thread_arg_new w of
        (None, w1) \<Rightarrow> do { w2 \<leftarrow> thread_arg_free None w1; Some (-1, w2) }
      | (Some a, w1) \<Rightarrow> do {
          let w2 = w1\<lparr>thread_args := (thread_args w1)(a \<mapsto> \<lparr>ta_thread = thread, ta_user_arg = arg\<rparr>)\<rparr>;
          x \<leftarrow> thread;
          T \<leftarrow> threads w2 x;
          (case pthread_create a w2 of
             (None, w3) \<Rightarrow> do { w4 \<leftarrow> thread_arg_free (Some a) w3; Some (-1, w4) }
           | (Some t, w3) \<Rightarrow> Some (0, w3\<lparr>threads := (threads w3)(x \<mapsto> T\<lparr>th_id := Some t\<rparr>)\<rparr>)) })"

text \<open>
  The new thread \<open>t\<close>. \<open>fns\<close> is what the functions do that threads are started with; its result is
  the base the thread waits for events in, or \<open>None\<close> when the function has returned.
\<close>

definition thread_routine ::
  "(thread_fn \<Rightarrow> ptr \<Rightarrow> ('e, 'p, 'm) proc \<Rightarrow> (ptr \<times> ('e, 'p, 'm) proc) option) \<Rightarrow> addr \<Rightarrow> addr \<Rightarrow>
   ('e, 'p, 'm) proc \<Rightarrow> ('e, 'p, 'm) proc option" where
  "thread_routine fns t arg w =
     do { let w0 = w\<lparr>current := t, pthreads := (pthreads w)(t \<mapsto> Running)\<rparr>;
          A \<leftarrow> thread_args w0 arg;
          w1 \<leftarrow> thread_arg_free (Some arg) w0;
          T \<leftarrow> deref (threads w1) (ta_thread A);
          (r, w2) \<leftarrow> fns (th_fn T) (ta_user_arg A) w1;
          Some (w2\<lparr>current := current w,
                   pthreads := (pthreads w2)(t \<mapsto> (case r of Some eb \<Rightarrow> In_loop eb (th_fn T) (ta_user_arg A) | None \<Rightarrow> Ended))\<rparr>) }"

text \<open>A thread that was created gets its turn.\<close>

definition run_thread ::
  "(thread_fn \<Rightarrow> ptr \<Rightarrow> ('e, 'p, 'm) proc \<Rightarrow> (ptr \<times> ('e, 'p, 'm) proc) option) \<Rightarrow> addr \<Rightarrow>
   ('e, 'p, 'm) proc \<Rightarrow> ('e, 'p, 'm) proc option" where
  "run_thread fns t w =
     (case pthreads w t of Some (Created arg) \<Rightarrow> thread_routine fns t arg w | _ \<Rightarrow> Some w)"

text \<open>
  Waiting for \<open>t\<close>. A thread in its event loop leaves it when the exit was requested, and does what its function
  does after the loop, \<open>ends\<close>, before it ends.
\<close>

definition pthread_join ::
  "(thread_fn \<Rightarrow> ptr \<Rightarrow> ('e, 'p, 'm) proc \<Rightarrow> (ptr \<times> ('e, 'p, 'm) proc) option) \<Rightarrow>
   (thread_fn \<Rightarrow> ptr \<Rightarrow> ('e, 'p, 'm) proc \<Rightarrow> ('e, 'p, 'm) proc option) \<Rightarrow> addr \<Rightarrow>
   ('e, 'p, 'm) proc \<Rightarrow> ('e, 'p, 'm) proc option" where
  "pthread_join fns ends t w =
     do { w1 \<leftarrow> run_thread fns t w;
          st \<leftarrow> pthreads w1 t;
          (case st of
             Ended \<Rightarrow> Some (w1\<lparr>pthreads := (pthreads w1)(t := None)\<rparr>)
           | In_loop eb f x \<Rightarrow>
               (if ebases w1 eb = Some True
                then do {
                  w2 \<leftarrow> ends f x (w1\<lparr>current := t\<rparr>);
                  Some (w2\<lparr>current := current w1, pthreads := (pthreads w2)(t := None)\<rparr>) }
                else None)
           | _ \<Rightarrow> None) }"

text \<open>
  \<open>thread_join\<close>. A thread that was never started has the identity 0 of the zeroed struct;
  joining it is undefined. \<open>pthread_join\<close> of a thread that exists and is not the caller succeeds.
\<close>

definition thread_join ::
  "(thread_fn \<Rightarrow> ptr \<Rightarrow> ('e, 'p, 'm) proc \<Rightarrow> (ptr \<times> ('e, 'p, 'm) proc) option) \<Rightarrow>
   (thread_fn \<Rightarrow> ptr \<Rightarrow> ('e, 'p, 'm) proc \<Rightarrow> ('e, 'p, 'm) proc option) \<Rightarrow> ptr \<Rightarrow>
   ('e, 'p, 'm) proc \<Rightarrow> (int \<times> ('e, 'p, 'm) proc) option" where
  "thread_join fns ends thread w =
     do { T \<leftarrow> deref (threads w) thread; t \<leftarrow> th_id T; w1 \<leftarrow> pthread_join fns ends t w; Some (0, w1) }"

subsection \<open>Identities, keys and signals\<close>

definition thread_self :: "('e, 'p, 'm) proc \<Rightarrow> ptr \<times> ('e, 'p, 'm) proc" where
  "thread_self w =
     (case new_addr w of
        (None, w1) \<Rightarrow> (None, w1)
      | (Some a, w1) \<Rightarrow> (Some a, w1\<lparr>thread_ids := (thread_ids w1)(a \<mapsto> current w1)\<rparr>))"

definition thread_id_free :: "ptr \<Rightarrow> ('e, 'p, 'm) proc \<Rightarrow> ('e, 'p, 'm) proc option" where
  "thread_id_free p w = do { I \<leftarrow> free_at (thread_ids w) p; Some (w\<lparr>thread_ids := I\<rparr>) }"

definition thread_key_free :: "ptr \<Rightarrow> ('e, 'p, 'm) proc \<Rightarrow> ('e, 'p, 'm) proc option" where
  "thread_key_free p w =
     (case p of None \<Rightarrow> Some w
      | Some a \<Rightarrow> do {
          k \<leftarrow> thread_keys w a;
          Some (w\<lparr>tls := (tls w)(k := None), thread_keys := (thread_keys w)(a := None)\<rparr>) })"

text \<open>
  \<open>pthread_key_create\<close> makes a key whose value is \<open>NULL\<close> in every thread. Where it fails,
  \<open>thread_key_free\<close> deletes the key 0 of the zeroed struct, a key that the program does not own:
  \<open>pthread_key_delete\<close> reports an error or deletes somebody else's key. It is taken as the error.
\<close>

definition thread_key_new :: "('e, 'p, 'm) proc \<Rightarrow> ptr \<times> ('e, 'p, 'm) proc" where
  "thread_key_new w =
     (case new_addr w of
        (None, w1) \<Rightarrow> (None, w1)
      | (Some a, w1) \<Rightarrow>
          (case new_addr w1 of
             (None, w2) \<Rightarrow> (None, w2)
           | (Some k, w2) \<Rightarrow>
               (Some a, w2\<lparr>thread_keys := (thread_keys w2)(a \<mapsto> k), tls := (tls w2)(k \<mapsto> (\<lambda>t. None))\<rparr>)))"

definition thread_key_set :: "ptr \<Rightarrow> ptr \<Rightarrow> ('e, 'p, 'm) proc \<Rightarrow> (int \<times> ('e, 'p, 'm) proc) option" where
  "thread_key_set p x w =
     do { k \<leftarrow> deref (thread_keys w) p;
          let (ok, w1) = ask w;
          (case tls w1 k of
             None \<Rightarrow> Some (-1, w1)
           | Some f \<Rightarrow> (if ok then Some (0, w1\<lparr>tls := (tls w1)(k \<mapsto> f(current w1 := x))\<rparr>) else Some (-1, w1))) }"

definition thread_key_get :: "ptr \<Rightarrow> ('e, 'p, 'm) proc \<Rightarrow> ptr option" where
  "thread_key_get p w =
     do { k \<leftarrow> deref (thread_keys w) p; Some (case tls w k of None \<Rightarrow> None | Some f \<Rightarrow> f (current w)) }"

definition thread_signal_send :: "ptr \<Rightarrow> thread_signal \<Rightarrow> ('e, 'p, 'm) proc \<Rightarrow> ('e, 'p, 'm) proc option" where
  "thread_signal_send p sig w =
     (case sig of THREAD_SIGTERM \<Rightarrow> do { t \<leftarrow> deref (thread_ids w) p; Some (w\<lparr>signals := signals w @ [(t, sig)]\<rparr>) })"

end
