(* ===== verification/Worker.thy ===== *)
theory Worker
  imports Threads
begin

section \<open>Workers: an event loop, a resolver and a thread (worker.h, worker.c)\<close>

text \<open>
  A worker owns an event base, a DNS resolver and a thread that runs \<open>worker_loop\<close>. The
  static variables \<open>thread_worker_key\<close> and \<open>main_thread_id\<close> are fields of the state, and
  \<open>this_event_base\<close> and \<open>this_dnsbase\<close> find the worker of the running thread. The fields
  \<open>this_ebase\<close> and \<open>this_dns\<close> of a \<open>world\<close> are what these two return in the thread that runs;
  \<open>enter_thread\<close> sets them.
\<close>

subsection \<open>Data\<close>

text \<open>The only prologue the program sets, in \<open>http_service.c\<close>; it sets no epilogue.\<close>

datatype worker_hook = Http_service_listener_start

record worker =
  wk_ebase :: ptr
  wk_dnsbase :: ptr
  wk_thread :: ptr
  wk_prologue :: "worker_hook option"
  wk_epilogue :: "worker_hook option"
  wk_ctx :: ptr

definition zero_worker :: worker where
  "zero_worker = \<lparr>wk_ebase = None, wk_dnsbase = None, wk_thread = None, wk_prologue = None, wk_epilogue = None, wk_ctx = None\<rparr>"

text \<open>\<open>dnsbases\<close>: the live resolvers, each with its event base.\<close>

record ('e, 'p) host = "('e, 'p) process" +
  workers :: "addr \<rightharpoonup> worker"
  dnsbases :: "addr \<rightharpoonup> addr"
  thread_worker_key :: ptr
  main_thread_id :: ptr

type_synonym ('e, 'p, 'm) hosts = "('e, 'p, 'm) host_scheme"
type_synonym ('e, 'p, 'm) hook_table = "worker_hook \<Rightarrow> ptr \<Rightarrow> ('e, 'p, 'm) hosts \<Rightarrow> (int \<times> ('e, 'p, 'm) hosts) option"

lemma answer_host [simp]:
  "answer n (w\<lparr>workers := K\<rparr>) = answer n w" "answer n (w\<lparr>dnsbases := B\<rparr>) = answer n w"
  "answer n (w\<lparr>thread_worker_key := k\<rparr>) = answer n w" "answer n (w\<lparr>main_thread_id := i\<rparr>) = answer n w"
  by (simp_all add: answer_def)

definition upd_worker :: "addr \<Rightarrow> (worker \<Rightarrow> worker) \<Rightarrow> ('e, 'p, 'm) hosts \<Rightarrow> ('e, 'p, 'm) hosts option" where
  "upd_worker a f w = do { k \<leftarrow> workers w a; Some (w\<lparr>workers := (workers w)(a \<mapsto> f k)\<rparr>) }"

subsection \<open>libevent's objects\<close>

definition event_base_new :: "('e, 'p, 'm) proc \<Rightarrow> ptr \<times> ('e, 'p, 'm) proc" where
  "event_base_new w =
     (case new_addr w of
        (None, w1) \<Rightarrow> (None, w1)
      | (Some a, w1) \<Rightarrow> (Some a, w1\<lparr>ebases := (ebases w1)(a \<mapsto> False)\<rparr>))"

definition event_base_free :: "ptr \<Rightarrow> ('e, 'p, 'm) proc \<Rightarrow> ('e, 'p, 'm) proc option" where
  "event_base_free p w = do { B \<leftarrow> free_at (ebases w) p; Some (w\<lparr>ebases := B\<rparr>) }"

definition event_base_loopexit :: "ptr \<Rightarrow> ('e, 'p, 'm) proc \<Rightarrow> (int \<times> ('e, 'p, 'm) proc) option" where
  "event_base_loopexit p w =
     do { a \<leftarrow> p; b \<leftarrow> ebases w a;
          let (ok, w1) = ask w;
          Some (if ok then (0, w1\<lparr>ebases := (ebases w1)(a \<mapsto> True)\<rparr>) else (-1, w1)) }"

definition evdns_base_new :: "addr \<Rightarrow> ('e, 'p, 'm) hosts \<Rightarrow> ptr \<times> ('e, 'p, 'm) hosts" where
  "evdns_base_new eb w =
     (case new_addr w of
        (None, w1) \<Rightarrow> (None, w1)
      | (Some a, w1) \<Rightarrow> (Some a, w1\<lparr>dnsbases := (dnsbases w1)(a \<mapsto> eb)\<rparr>))"

definition evdns_base_free :: "ptr \<Rightarrow> ('e, 'p, 'm) hosts \<Rightarrow> ('e, 'p, 'm) hosts option" where
  "evdns_base_free p w = do { B \<leftarrow> free_at (dnsbases w) p; Some (w\<lparr>dnsbases := B\<rparr>) }"

text \<open>\<open>n\<close> library calls in a row; the first that fails ends it.\<close>

fun ask_all :: "nat \<Rightarrow> 'm mem_scheme \<Rightarrow> bool \<times> 'm mem_scheme" where
  "ask_all 0 w = (True, w)"
| "ask_all (Suc n) w = (let (ok, w1) = ask w in if ok then ask_all n w1 else (False, w1))"

subsection \<open>The module\<close>

definition worker_init :: "('e, 'p, 'm) hosts \<Rightarrow> int \<times> ('e, 'p, 'm) hosts" where
  "worker_init w =
     (let (t, w1) = thread_self w;
          w2 = w1\<lparr>main_thread_id := t\<rparr>
      in if t = None then (-1, w2)
         else let (ok, w3) = ask w2
         in if \<not> ok then (-1, w3)
         else let (k, w4) = thread_key_new w3;
                  w5 = w4\<lparr>thread_worker_key := k\<rparr>
         in if k = None then (-1, w5) else (0, w5))"

definition worker_fini :: "('e, 'p, 'm) hosts \<Rightarrow> ('e, 'p, 'm) hosts option" where
  "worker_fini w =
     do { w1 \<leftarrow> thread_key_free (thread_worker_key w) w;
          let w2 = w1\<lparr>thread_worker_key := None\<rparr>;
          w3 \<leftarrow> thread_id_free (main_thread_id w2) w2;
          Some (w3\<lparr>main_thread_id := None\<rparr>) }"

definition worker_failure :: "('e, 'p, 'm) hosts \<Rightarrow> ('e, 'p, 'm) hosts option" where
  "worker_failure w = thread_signal_send (main_thread_id w) THREAD_SIGTERM w"

subsection \<open>Construction and release\<close>

definition worker_free :: "ptr \<Rightarrow> ('e, 'p, 'm) hosts \<Rightarrow> ('e, 'p, 'm) hosts option" where
  "worker_free p w =
     (case p of None \<Rightarrow> Some w
      | Some a \<Rightarrow> do {
          k \<leftarrow> workers w a;
          w1 \<leftarrow> evdns_base_free (wk_dnsbase k) w;
          w2 \<leftarrow> event_base_free (wk_ebase k) w1;
          w3 \<leftarrow> thread_free (wk_thread k) w2;
          Some (w3\<lparr>workers := (workers w3)(a := None)\<rparr>) })"

text \<open>
  The questions: the struct, the base, can it be notified from other threads, the resolver, the address of the name server, the
  four options of the resolver, the thread. The base is not stored in the worker before the
  third answer is known.
\<close>

definition worker_new :: "ptr \<Rightarrow> string \<Rightarrow> ('e, 'p, 'm) hosts \<Rightarrow> (ptr \<times> ('e, 'p, 'm) hosts) option" where
  "worker_new ctx resolver w =
     (case new_addr w of
        (None, w1) \<Rightarrow> Some (None, w1)
      | (Some a, w1) \<Rightarrow>
          (let w2 = w1\<lparr>workers := (workers w1)(a \<mapsto> zero_worker)\<rparr>;
               error = (\<lambda>w. do { w' \<leftarrow> worker_free (Some a) w; Some (None, w') })
           in (case event_base_new w2 of
                 (None, w3) \<Rightarrow> error w3
               | (Some eb, w3) \<Rightarrow>
                   (let (ok, w4) = ask w3
                    in if \<not> ok then error w4
                    else do {
                      w5 \<leftarrow> upd_worker a (\<lambda>k. k\<lparr>wk_ebase := Some eb\<rparr>) w4;
                      (case evdns_base_new eb w5 of
                         (None, w6) \<Rightarrow> error w6
                       | (Some d, w6) \<Rightarrow> do {
                           w7 \<leftarrow> upd_worker a (\<lambda>k. k\<lparr>wk_dnsbase := Some d\<rparr>) w6;
                           let (ok, w8) = ask_all 5 w7;
                           if \<not> ok then error w8
                           else (case thread_new Worker_Loop w8 of
                               (None, w9) \<Rightarrow> error w9
                             | (Some t, w9) \<Rightarrow> do {
                                 w10 \<leftarrow> upd_worker a (\<lambda>k. k\<lparr>wk_thread := Some t, wk_ctx := ctx\<rparr>) w9;
                                 Some (Some a, w10) }) }) }))))"

definition worker_set_prologue :: "addr \<Rightarrow> worker_hook \<Rightarrow> ('e, 'p, 'm) hosts \<Rightarrow> ('e, 'p, 'm) hosts option" where
  "worker_set_prologue a f w = upd_worker a (\<lambda>k. k\<lparr>wk_prologue := Some f\<rparr>) w"

definition worker_set_epilogue :: "addr \<Rightarrow> worker_hook \<Rightarrow> ('e, 'p, 'm) hosts \<Rightarrow> ('e, 'p, 'm) hosts option" where
  "worker_set_epilogue a f w = upd_worker a (\<lambda>k. k\<lparr>wk_epilogue := Some f\<rparr>) w"

subsection \<open>The worker of the running thread\<close>

definition this_worker :: "('e, 'p, 'm) hosts \<Rightarrow> ptr option" where
  "this_worker w = thread_key_get (thread_worker_key w) w"

definition this_event_base :: "('e, 'p, 'm) hosts \<Rightarrow> ptr option" where
  "this_event_base w =
     do { p \<leftarrow> this_worker w;
          (case p of None \<Rightarrow> Some None | Some a \<Rightarrow> do { k \<leftarrow> workers w a; Some (wk_ebase k) }) }"

definition this_dnsbase :: "('e, 'p, 'm) hosts \<Rightarrow> ptr option" where
  "this_dnsbase w =
     do { p \<leftarrow> this_worker w;
          (case p of None \<Rightarrow> Some None | Some a \<Rightarrow> do { k \<leftarrow> workers w a; Some (wk_dnsbase k) }) }"

definition enter_thread :: "('e, 'p, 'm) hosts \<Rightarrow> ('e, 'p, 'm) hosts option" where
  "enter_thread w = do { eb \<leftarrow> this_event_base w; d \<leftarrow> this_dnsbase w; Some (w\<lparr>this_ebase := eb, this_dns := d\<rparr>) }"

subsection \<open>Running\<close>

text \<open>
  \<open>worker_loop\<close> up to the loop: the result is the base it dispatches, or \<open>None\<close> when the
  prologue has failed. What follows the loop is \<open>worker_loop_end\<close>.
\<close>

definition worker_loop :: "('e, 'p, 'm) hook_table \<Rightarrow> ptr \<Rightarrow> ('e, 'p, 'm) hosts \<Rightarrow> (ptr \<times> ('e, 'p, 'm) hosts) option" where
  "worker_loop hooks arg w =
     do { (r, w1) \<leftarrow> thread_key_set (thread_worker_key w) arg w;
          k \<leftarrow> deref (workers w1) arg;
          (r, w2) \<leftarrow> (case wk_prologue k of None \<Rightarrow> Some (0, w1) | Some f \<Rightarrow> hooks f (wk_ctx k) w1);
          if r < 0 then do { w3 \<leftarrow> worker_failure w2; Some (None, w3) }
          else do {
            k1 \<leftarrow> deref (workers w2) arg;
            eb \<leftarrow> wk_ebase k1;
            live \<leftarrow> ebases w2 eb;
            Some (Some eb, w2) } }"

definition worker_loop_end :: "('e, 'p, 'm) hook_table \<Rightarrow> ptr \<Rightarrow> ('e, 'p, 'm) hosts \<Rightarrow> ('e, 'p, 'm) hosts option" where
  "worker_loop_end hooks arg w =
     do { k \<leftarrow> deref (workers w) arg;
          (case wk_epilogue k of None \<Rightarrow> Some w | Some f \<Rightarrow> do { (r, w1) \<leftarrow> hooks f (wk_ctx k) w; Some w1 }) }"

definition worker_fns :: "('e, 'p, 'm) hook_table \<Rightarrow> thread_fn \<Rightarrow> ptr \<Rightarrow> ('e, 'p, 'm) hosts \<Rightarrow> (ptr \<times> ('e, 'p, 'm) hosts) option" where
  "worker_fns hooks f = (case f of Worker_Loop \<Rightarrow> worker_loop hooks)"

definition worker_ends :: "('e, 'p, 'm) hook_table \<Rightarrow> thread_fn \<Rightarrow> ptr \<Rightarrow> ('e, 'p, 'm) hosts \<Rightarrow> ('e, 'p, 'm) hosts option" where
  "worker_ends hooks f = (case f of Worker_Loop \<Rightarrow> worker_loop_end hooks)"

definition worker_start :: "addr \<Rightarrow> ('e, 'p, 'm) hosts \<Rightarrow> (int \<times> ('e, 'p, 'm) hosts) option" where
  "worker_start a w = do { k \<leftarrow> workers w a; thread_start (wk_thread k) (Some a) w }"

definition worker_join :: "('e, 'p, 'm) hook_table \<Rightarrow> addr \<Rightarrow> ('e, 'p, 'm) hosts \<Rightarrow> (int \<times> ('e, 'p, 'm) hosts) option" where
  "worker_join hooks a w = do { k \<leftarrow> workers w a; thread_join (worker_fns hooks) (worker_ends hooks) (wk_thread k) w }"

definition worker_stop :: "('e, 'p, 'm) hook_table \<Rightarrow> addr \<Rightarrow> ('e, 'p, 'm) hosts \<Rightarrow> (int \<times> ('e, 'p, 'm) hosts) option" where
  "worker_stop hooks a w =
     do { k \<leftarrow> workers w a;
          (r, w1) \<leftarrow> event_base_loopexit (wk_ebase k) w;
          if r = 0 then do { (j, w2) \<leftarrow> thread_join (worker_fns hooks) (worker_ends hooks) (wk_thread k) w1; Some (0, w2) }
          else Some (r, w1) }"

subsection \<open>Making a worker\<close>

fun answers_left :: "nat \<Rightarrow> bool list \<Rightarrow> bool list" where
  "answers_left 0 bs = bs"
| "answers_left (Suc n) bs = (if bs = [] \<or> hd bs then answers_left n (tl bs) else tl bs)"

lemma answer_0_list: "answer 0 w \<longleftrightarrow> answers w = [] \<or> hd (answers w)"
  by (cases "answers w") (simp_all add: answer_def)

lemma ask_all_if: "ask_all n w = ((\<forall>i < n. answer i w), w\<lparr>answers := answers_left n (answers w)\<rparr>)"
proof (induction n arbitrary: w)
  case (Suc n)
  have "(\<forall>i < Suc n. answer i w) \<longleftrightarrow> answer 0 w \<and> (\<forall>i < n. answer (Suc i) w)" by (rule All_less_Suc2)
  then show ?case using Suc.IH [of "w\<lparr>answers := tl (answers w)\<rparr>"] by (simp add: ask_if answer_0_list)
qed simp

lemma answers_left_drop: "(\<forall>i < n. answer i w) \<Longrightarrow> answers_left n (answers w) = drop n (answers w)"
proof (induction n arbitrary: w)
  case (Suc n)
  then have "answer 0 w" "\<forall>i < n. answer i (w\<lparr>answers := tl (answers w)\<rparr>)" by auto
  with Suc.IH [of "w\<lparr>answers := tl (answers w)\<rparr>"] show ?case by (simp add: answer_0_list drop_Suc)
qed simp

lemma answer_drop [simp]: "answer k (v\<lparr>answers := drop m (answers w)\<rparr>) \<longleftrightarrow> answer (m + k) w"
  by (auto simp: answer_def)

lemma all_ten: "(\<forall>i < (10::nat). P i) \<longleftrightarrow> P 0 \<and> P 1 \<and> P 2 \<and> P 3 \<and> (\<forall>i < 5. P (i + 4)) \<and> P 9"
  by (simp add: numeral_eq_Suc All_less_Suc2)

definition host_fresh :: "('e, 'p, 'm) hosts \<Rightarrow> bool" where
  "host_fresh w \<longleftrightarrow> (\<forall>a. fresh w \<le> a \<longrightarrow> workers w a = None \<and> ebases w a = None \<and> dnsbases w a = None \<and> threads w a = None)"

lemma answers_left_5:
  assumes "\<forall>i < 5. answer (Suc (Suc (Suc (Suc i)))) w"
  shows "answers_left 5 (tl (tl (tl (tl (answers w))))) = drop 9 (answers w)"
proof -
  have "answers_left 5 (answers (w\<lparr>answers := drop 4 (answers w)\<rparr>)) = drop 5 (answers (w\<lparr>answers := drop 4 (answers w)\<rparr>))"
    by (rule answers_left_drop) (use assms in \<open>simp add: numeral_eq_Suc\<close>)
  then show ?thesis using assms by (simp add: numeral_eq_Suc drop_Suc)
qed

lemma worker_new_ok:
  fixes w :: "('e, 'p, 'm) hosts"
  assumes ok: "\<forall>i < 10. answer i w"
  shows "worker_new ctx res w = Some (Some (fresh w), w\<lparr>answers := tl (drop 9 (answers w)), fresh := Suc (Suc (Suc (Suc (fresh w)))),
     workers := (workers w)(fresh w \<mapsto> \<lparr>wk_ebase = Some (Suc (fresh w)), wk_dnsbase = Some (Suc (Suc (fresh w))),
       wk_thread = Some (Suc (Suc (Suc (fresh w)))), wk_prologue = None, wk_epilogue = None, wk_ctx = ctx\<rparr>),
     ebases := (ebases w)(Suc (fresh w) \<mapsto> False), dnsbases := (dnsbases w)(Suc (Suc (fresh w)) \<mapsto> Suc (fresh w)),
     threads := (threads w)(Suc (Suc (Suc (fresh w))) \<mapsto> \<lparr>th_id = None, th_fn = Worker_Loop\<rparr>)\<rparr>)"
proof -
  have on: "answer 0 w" "answer (Suc 0) w" "answer (Suc (Suc 0)) w" "answer (Suc (Suc (Suc 0))) w" "answer 9 w"
    "\<forall>i < 5. answer (Suc (Suc (Suc (Suc i)))) w"
    using ok by (simp_all add: numeral_eq_Suc)
  show ?thesis
    by (auto simp: worker_new_def new_addr_if event_base_new_def evdns_base_new_def thread_new_def upd_worker_def ask_if Let_def
        zero_worker_def on ask_all_if answers_left_5 intro!: host.equality)
qed

text \<open>When a step fails, everything is released but an event base that could not be made notifiable.\<close>

lemma worker_new_null:
  fixes w :: "('e, 'p, 'm) hosts"
  assumes fr: "host_fresh w" and bad: "\<not> (\<forall>i < 10. answer i w)"
  shows "\<exists>bs F E. worker_new ctx res w = Some (None, w\<lparr>answers := bs, fresh := F, ebases := E\<rparr>) \<and> fresh w \<le> F \<and>
     E = (if answer 0 w \<and> answer 1 w \<and> \<not> answer 2 w then (ebases w)(Suc (fresh w) \<mapsto> False) else ebases w)"
proof -
  have none: "workers w (fresh w) = None" "ebases w (Suc (fresh w)) = None" "dnsbases w (Suc (Suc (fresh w))) = None"
    "threads w (Suc (Suc (Suc (fresh w)))) = None" using fr by (simp_all add: host_fresh_def)
  note d = worker_new_def new_addr_if event_base_new_def evdns_base_new_def thread_new_def upd_worker_def ask_if Let_def zero_worker_def
    free_at_def worker_free_def evdns_base_free_def event_base_free_def thread_free_def fun_upd_idem none
  have give: ?thesis if "worker_new ctx res w = Some (None, w\<lparr>answers := bs, fresh := F, ebases := E\<rparr>)" "fresh w \<le> F"
      "E = (if answer 0 w \<and> answer 1 w \<and> \<not> answer 2 w then (ebases w)(Suc (fresh w) \<mapsto> False) else ebases w)" for bs F E
    using that by blast
  let ?opts = "\<forall>i < 5. answer (Suc (Suc (Suc (Suc i)))) w"
  have opts: "(\<forall>i < 5. answer (i + 4) w) = ?opts" by (simp add: numeral_eq_Suc)
  have idx: "(\<forall>i < 10. answer i w) \<longleftrightarrow> answer 0 w \<and> answer 1 w \<and> answer 2 w \<and> answer 3 w \<and> ?opts \<and> answer 9 w"
    unfolding all_ten opts by simp
  consider (n0) "\<not> answer 0 w" | (n1) "answer 0 w" "\<not> answer 1 w" | (n2) "answer 0 w" "answer 1 w" "\<not> answer 2 w"
    | (n3) "answer 0 w" "answer 1 w" "answer 2 w" "\<not> answer 3 w" | (no) "answer 0 w" "answer 1 w" "answer 2 w" "answer 3 w" "\<not> ?opts"
    | (nt) "answer 0 w" "answer 1 w" "answer 2 w" "answer 3 w" ?opts "\<not> answer 9 w" using bad idx by blast
  then show ?thesis
  proof cases
    case n0
    then show ?thesis by (intro give [where bs = "tl (answers w)" and F = "fresh w" and E = "ebases w"]) (auto simp: d intro!: host.equality)
  next
    case n1
    then show ?thesis by (intro give [where bs = "tl (tl (answers w))" and F = "Suc (fresh w)" and E = "ebases w"]) (auto simp: d intro!: host.equality)
  next
    case n2
    then show ?thesis
      by (intro give [where bs = "tl (tl (tl (answers w)))" and F = "Suc (Suc (fresh w))" and E = "(ebases w)(Suc (fresh w) \<mapsto> False)"])
         (auto simp: d numeral_2_eq_2 intro!: host.equality)
  next
    case n3
    then show ?thesis
      by (intro give [where bs = "tl (tl (tl (tl (answers w))))" and F = "Suc (Suc (fresh w))" and E = "ebases w"])
         (auto simp: d numeral_2_eq_2 numeral_3_eq_3 intro!: host.equality)
  next
    case no
    then show ?thesis
      by (intro give [where bs = "answers_left 5 (tl (tl (tl (tl (answers w)))))" and F = "Suc (Suc (Suc (fresh w)))" and E = "ebases w"])
         (auto simp: d numeral_2_eq_2 numeral_3_eq_3 ask_all_if intro!: host.equality)
  next
    case nt
    then show ?thesis
      by (intro give [where bs = "tl (drop 9 (answers w))" and F = "Suc (Suc (Suc (fresh w)))" and E = "ebases w"])
         (auto simp: d numeral_2_eq_2 numeral_3_eq_3 ask_all_if answers_left_5 intro!: host.equality)
  qed
qed

text \<open>C37.
  Every outcome of \<open>worker_new\<close>. When all ten library calls succeed, it returns a new worker with an
  event base, a resolver on that base, a thread that has not been started and the given context. When one
  fails, it returns \<open>NULL\<close> and everything it allocated is released again, with one exception: the event
  base is lost when it cannot be made notifiable, because it is stored in the worker too late.
\<close>

theorem worker_new_outcome:
  fixes w :: "('e, 'p, 'm) hosts"
  assumes fr: "host_fresh w"
  shows "\<exists>p w'. worker_new ctx res w = Some (p, w') \<and>
     (if \<forall>i < 10. answer i w
      then \<exists>a eb d t. p = Some a \<and> workers w a = None \<and> ebases w eb = None \<and> dnsbases w d = None \<and> threads w t = None \<and>
        workers w' = (workers w)(a \<mapsto> \<lparr>wk_ebase = Some eb, wk_dnsbase = Some d, wk_thread = Some t, wk_prologue = None,
          wk_epilogue = None, wk_ctx = ctx\<rparr>) \<and>
        ebases w' = (ebases w)(eb \<mapsto> False) \<and> dnsbases w' = (dnsbases w)(d \<mapsto> eb) \<and>
        threads w' = (threads w)(t \<mapsto> \<lparr>th_id = None, th_fn = Worker_Loop\<rparr>)
      else p = None \<and> workers w' = workers w \<and> dnsbases w' = dnsbases w \<and> threads w' = threads w \<and>
        (if answer 0 w \<and> answer 1 w \<and> \<not> answer 2 w
         then \<exists>eb. ebases w eb = None \<and> ebases w' = (ebases w)(eb \<mapsto> False) else ebases w' = ebases w))"
proof (cases "\<forall>i < 10. answer i w")
  case yes: True
  have none: "workers w (fresh w) = None" "ebases w (Suc (fresh w)) = None" "dnsbases w (Suc (Suc (fresh w))) = None"
    "threads w (Suc (Suc (Suc (fresh w)))) = None" using fr by (simp_all add: host_fresh_def)
  show ?thesis unfolding if_P [OF yes]
    by (rule exI [of _ "Some (fresh w)"], rule exI, rule conjI, rule worker_new_ok [OF yes], rule exI [of _ "fresh w"],
        rule exI [of _ "Suc (fresh w)"], rule exI [of _ "Suc (Suc (fresh w))"], rule exI [of _ "Suc (Suc (Suc (fresh w)))"])
       (simp add: none)
next
  case no: False
  have "ebases w (Suc (fresh w)) = None" using fr by (simp add: host_fresh_def)
  with worker_new_null [OF fr no, of ctx res] show ?thesis unfolding if_not_P [OF no] by fastforce
qed

text \<open>A process in which nothing has been made.\<close>

definition blank_host :: "(unit, unit) host" where
  "blank_host = \<lparr>answers = [], fresh = 1, rwlocks = Map.empty, mutexes = Map.empty, refs = Map.empty, strs = Map.empty,
     ext = (), fds = {}, bevs = Map.empty, listeners = Map.empty, channels = Map.empty, this_ebase = None, this_dns = None,
     hsessions = Map.empty, bodies = {}, sessions = Map.empty, dns_requests = Map.empty, resolving = Map.empty,
     lh = List_Store empty_heap, svc_sessions = None, svc_mutex = None, threads = Map.empty, thread_args = Map.empty,
     thread_ids = Map.empty, thread_keys = Map.empty, pthreads = Map.empty, tls = Map.empty, current = 0, signals = [],
     ebases = Map.empty, workers = Map.empty, dnsbases = Map.empty, thread_worker_key = None, main_thread_id = None\<rparr>"

theorem worker_new_outcome_witness:
  "\<exists>p w'. worker_new (Some 7) ''8.8.8.8:53'' (blank_host\<lparr>answers := [True, True, False]\<rparr>) = Some (p, w') \<and> p = None \<and>
     workers w' = Map.empty \<and> (\<exists>eb. ebases w' = [eb \<mapsto> False])"
proof -
  let ?w = "blank_host\<lparr>answers := [True, True, False]\<rparr>"
  have "host_fresh ?w" "answer 0 ?w" "answer 1 ?w" "\<not> answer 2 ?w" "workers ?w = Map.empty" "ebases ?w = Map.empty"
    by (simp_all add: host_fresh_def blank_host_def answer_def)
  moreover from this(4) have "\<not> (\<forall>i < 10. answer i ?w)" by (intro notI) (erule allE [of _ 2], simp)
  ultimately show ?thesis
    using worker_new_outcome [of ?w "Some 7" "''8.8.8.8:53''"] by (simp only: if_False if_True simp_thms) blast
qed

end
