(* ===== verification/Http_Service.thy ===== *)
theory Http_Service
  imports Worker
begin

section \<open>The HTTP service: start and stop (http\_service.h, http\_service.c)\<close>

text \<open>
  The static struct \<open>http_service\<close> as fields of the state (its list of sessions and its mutex are
  \<open>svc_sessions\<close> and \<open>svc_mutex\<close> of a \<open>world\<close>), and the functions that build, start, stop and
  release the service. A session operation works on the \<open>world\<close> part of the state (\<open>in_world\<close>).
\<close>

subsection \<open>Data\<close>

text \<open>\<open>sigevents\<close>: the live signal events, added to their base or not.\<close>

record ('e, 'p) program = "('e, 'p) host" +
  nworkers :: int
  svc_sockaddr :: sockaddr
  svc_ebase :: ptr
  ev_sigterm :: ptr
  ev_sigint :: ptr
  svc_resolver :: string
  svc_workers :: "ptr list option"
  svc_listeners :: "ptr list option"
  sigevents :: "addr \<rightharpoonup> bool"

type_synonym ('e, 'p, 'm) prog = "('e, 'p, 'm) program_scheme"

definition in_world :: "(('e, 'p) world \<Rightarrow> ('e, 'p) world option) \<Rightarrow> ('e, 'p, 'm) world_scheme \<Rightarrow> ('e, 'p, 'm) world_scheme option" where
  "in_world f w = do { v \<leftarrow> f (world.truncate w); Some (world.extend v (world.more w)) }"

text \<open>\<open>calloc(n, size)\<close> with an \<open>int\<close>: a negative count is a huge size, which no allocation satisfies.\<close>

definition calloc_array :: "int \<Rightarrow> 'm mem_scheme \<Rightarrow> ptr list option \<times> 'm mem_scheme" where
  "calloc_array n w =
     (let (ok, w1) = ask w in (if ok \<and> 0 \<le> n then Some (replicate (nat n) None) else None, w1))"

definition evsignal_new :: "('e, 'p, 'm) prog \<Rightarrow> ptr \<times> ('e, 'p, 'm) prog" where
  "evsignal_new w =
     (case new_addr w of
        (None, w1) \<Rightarrow> (None, w1)
      | (Some a, w1) \<Rightarrow> (Some a, w1\<lparr>sigevents := (sigevents w1)(a \<mapsto> False)\<rparr>))"

definition event_add :: "addr \<Rightarrow> ('e, 'p, 'm) prog \<Rightarrow> int \<times> ('e, 'p, 'm) prog" where
  "event_add a w =
     (let (ok, w1) = ask w in if ok then (0, w1\<lparr>sigevents := (sigevents w1)(a \<mapsto> True)\<rparr>) else (-1, w1))"

definition event_del :: "ptr \<Rightarrow> ('e, 'p, 'm) prog \<Rightarrow> ('e, 'p, 'm) prog option" where
  "event_del p w = do { a \<leftarrow> p; e \<leftarrow> sigevents w a; Some (w\<lparr>sigevents := (sigevents w)(a \<mapsto> False)\<rparr>) }"

definition event_free :: "ptr \<Rightarrow> ('e, 'p, 'm) prog \<Rightarrow> ('e, 'p, 'm) prog option" where
  "event_free p w = do { S \<leftarrow> free_at (sigevents w) p; Some (w\<lparr>sigevents := S\<rparr>) }"

subsection \<open>Release\<close>

text \<open>The loop \<open>list_foreach_safe\<close> over the sessions.\<close>

partial_function (option) free_sessions :: "ptr \<Rightarrow> ('e, 'p, 'm) prog \<Rightarrow> ('e, 'p, 'm) prog option" where
  "free_sessions node w =
     (case node of None \<Rightarrow> Some w
      | Some n \<Rightarrow> do {
          nd \<leftarrow> nodes (store_heap (lh w)) n;
          w1 \<leftarrow> in_world (session_free (n_data nd)) w;
          free_sessions (n_next nd) w1 })"

fun free_listeners :: "nat list \<Rightarrow> ('e, 'p, 'm) prog \<Rightarrow> ('e, 'p, 'm) prog option" where
  "free_listeners [] w = Some w"
| "free_listeners (i # is) w =
     do { ls \<leftarrow> svc_listeners w;
          if i < length ls
          then (case ls ! i of
                  None \<Rightarrow> free_listeners is w
                | Some c \<Rightarrow> do {
                    w1 \<leftarrow> channel_free (Some c) w;
                    free_listeners is (w1\<lparr>svc_listeners := Some (ls[i := None])\<rparr>) })
          else None }"

fun free_workers :: "nat list \<Rightarrow> ('e, 'p, 'm) prog \<Rightarrow> ('e, 'p, 'm) prog option" where
  "free_workers [] w = Some w"
| "free_workers (i # is) w =
     do { ks \<leftarrow> svc_workers w;
          if i < length ks
          then (case ks ! i of
                  None \<Rightarrow> free_workers is w
                | Some k \<Rightarrow> do {
                    w1 \<leftarrow> worker_free (Some k) w;
                    free_workers is (w1\<lparr>svc_workers := Some (ks[i := None])\<rparr>) })
          else None }"

text \<open>\<open>list_foreach_safe\<close> reads \<open>http_service.sessions->head\<close> whether there is a list or not.\<close>

definition http_service_fini :: "('e, 'p, 'm) prog \<Rightarrow> ('e, 'p, 'm) prog option" where
  "http_service_fini w =
     do { l \<leftarrow> svc_sessions w;
          head \<leftarrow> list_head l (store_heap (lh w));
          w1 \<leftarrow> free_sessions head w;
          h \<leftarrow> list_free (svc_sessions w1) (store_heap (lh w1));
          let w2 = w1\<lparr>lh := List_Store h, svc_sessions := None\<rparr>;
          w3 \<leftarrow> (case svc_listeners w2 of None \<Rightarrow> Some w2
                 | Some ls \<Rightarrow> do { w3 \<leftarrow> free_listeners [0..<nat (nworkers w2)] w2; Some (w3\<lparr>svc_listeners := None\<rparr>) });
          w4 \<leftarrow> (case svc_workers w3 of None \<Rightarrow> Some w3
                 | Some ks \<Rightarrow> do { w4 \<leftarrow> free_workers [0..<nat (nworkers w3)] w3; Some (w4\<lparr>svc_workers := None\<rparr>) });
          w5 \<leftarrow> event_free (ev_sigterm w4) w4;
          w6 \<leftarrow> event_free (ev_sigint w5) (w5\<lparr>ev_sigterm := None\<rparr>);
          w7 \<leftarrow> event_base_free (svc_ebase w6) (w6\<lparr>ev_sigint := None\<rparr>);
          worker_fini (w7\<lparr>svc_ebase := None\<rparr>) }"

subsection \<open>Listening\<close>

definition http_service_listener_start :: "ptr \<Rightarrow> ('e, 'p, 'm) prog \<Rightarrow> (int \<times> ('e, 'p, 'm) prog) option" where
  "http_service_listener_start ctx w =
     do { w1 \<leftarrow> enter_thread w;
          (r, w2) \<leftarrow> channel_listen ctx (svc_sockaddr w1) w1;
          Some (if r \<noteq> IO_CHANNEL_E_SUCCESS then -1 else 0, w2) }"

definition http_service_hooks :: "worker_hook \<Rightarrow> ptr \<Rightarrow> ('e, 'p, 'm) prog \<Rightarrow> (int \<times> ('e, 'p, 'm) prog) option" where
  "http_service_hooks f = (case f of Http_service_listener_start \<Rightarrow> http_service_listener_start)"

subsection \<open>Construction\<close>

text \<open>The two loops: they end with \<open>False\<close> at the first allocation that fails.\<close>

fun make_listeners :: "nat list \<Rightarrow> ('e, 'p, 'm) prog \<Rightarrow> (bool \<times> ('e, 'p, 'm) prog) option" where
  "make_listeners [] w = Some (True, w)"
| "make_listeners (i # is) w =
     do { ls \<leftarrow> svc_listeners w;
          if i < length ls
          then (case tcp_socket_new w of
                  (None, w1) \<Rightarrow> Some (False, w1)
                | (Some c, w1) \<Rightarrow> do {
                    C \<leftarrow> channels w1 c;
                    make_listeners is (set_channel c (C\<lparr>ch_service := Some Http_io_service\<rparr>) w1\<lparr>svc_listeners := Some (ls[i := Some c])\<rparr>) })
          else None }"

fun make_workers :: "nat list \<Rightarrow> string \<Rightarrow> ('e, 'p, 'm) prog \<Rightarrow> (bool \<times> ('e, 'p, 'm) prog) option" where
  "make_workers [] resolver w = Some (True, w)"
| "make_workers (i # is) resolver w =
     do { ks \<leftarrow> svc_workers w;
          ls \<leftarrow> svc_listeners w;
          if i < length ks \<and> i < length ls
          then do {
            (k, w1) \<leftarrow> worker_new (ls ! i) resolver w;
            (case k of
               None \<Rightarrow> Some (False, w1)
             | Some a \<Rightarrow> do {
                 w2 \<leftarrow> worker_set_prologue a Http_service_listener_start (w1\<lparr>svc_workers := Some (ks[i := Some a])\<rparr>);
                 make_workers is resolver w2 }) }
          else None }"

definition init_error :: "('e, 'p, 'm) prog \<Rightarrow> (int \<times> ('e, 'p, 'm) prog) option" where
  "init_error w = do { w1 \<leftarrow> http_service_fini w; Some (-1, w1) }"

text \<open>A signal event of the main loop, stored by \<open>store\<close>.\<close>

definition add_signal :: "(ptr \<Rightarrow> ('e, 'p, 'm) prog \<Rightarrow> ('e, 'p, 'm) prog) \<Rightarrow> ('e, 'p, 'm) prog \<Rightarrow> bool \<times> ('e, 'p, 'm) prog" where
  "add_signal store w =
     (case evsignal_new w of
        (None, w1) \<Rightarrow> (False, store None w1)
      | (Some e, w1) \<Rightarrow> (let (r, w2) = event_add e (store (Some e) w1) in (0 \<le> r, w2)))"

definition init_listeners :: "int \<Rightarrow> ('e, 'p, 'm) prog \<Rightarrow> (bool \<times> ('e, 'p, 'm) prog) option" where
  "init_listeners n w =
     (case calloc_array n w of
        (None, w1) \<Rightarrow> Some (False, w1)
      | (Some ls, w1) \<Rightarrow> make_listeners [0..<nat n] (w1\<lparr>svc_listeners := Some ls\<rparr>))"

text \<open>The last part of \<open>http_service_init\<close>, from the array of workers on.\<close>

definition init_workers :: "int \<Rightarrow> sockaddr \<Rightarrow> string \<Rightarrow> ('e, 'p, 'm) prog \<Rightarrow> (int \<times> ('e, 'p, 'm) prog) option" where
  "init_workers n sa resolver w =
     (case calloc_array n w of
        (None, w1) \<Rightarrow> Some (-1, w1)
      | (Some ks, w1) \<Rightarrow> do {
          (ok, w2) \<leftarrow> make_workers [0..<nat n] resolver (w1\<lparr>nworkers := n, svc_workers := Some ks\<rparr>);
          if ok then Some (0, w2\<lparr>svc_sockaddr := sa\<rparr>) else init_error w2 })"

definition http_service_init :: "int \<Rightarrow> sockaddr \<Rightarrow> string \<Rightarrow> ('e, 'p, 'm) prog \<Rightarrow> (int \<times> ('e, 'p, 'm) prog) option" where
  "http_service_init n sa resolver w =
     (let (r, w1) = worker_init w;
          (l, h) = list_new (store_heap (lh w1));
          w2 = w1\<lparr>svc_resolver := resolver, lh := List_Store h, svc_sessions := l\<rparr>
      in if l = None then init_error w2
      else let (m, w3) = mutex_new w2; w4 = w3\<lparr>svc_mutex := m\<rparr>
      in if m = None then init_error w4
      else let (eb, w5) = event_base_new w4; w6 = w5\<lparr>svc_ebase := eb\<rparr>
      in if eb = None then init_error w6
      else let (ok, w7) = add_signal (\<lambda>e w. w\<lparr>ev_sigterm := e\<rparr>) w6
      in if \<not> ok then init_error w7
      else let (ok, w8) = add_signal (\<lambda>e w. w\<lparr>ev_sigint := e\<rparr>) w7
      in if \<not> ok then init_error w8
      else do {
        (ok, w9) \<leftarrow> init_listeners n w8;
        if ok then init_workers n sa resolver w9 else init_error w9 })"

subsection \<open>Running\<close>

fun start_workers :: "nat list \<Rightarrow> ('e, 'p, 'm) prog \<Rightarrow> (int \<times> ('e, 'p, 'm) prog) option" where
  "start_workers [] w = Some (0, w)"
| "start_workers (i # is) w =
     do { ks \<leftarrow> svc_workers w;
          if i < length ks
          then do {
            a \<leftarrow> ks ! i;
            (r, w1) \<leftarrow> worker_start a w;
            if r < 0 then Some (-1, w1) else start_workers is w1 }
          else None }"

fun stop_workers :: "nat list \<Rightarrow> ('e, 'p, 'm) prog \<Rightarrow> ('e, 'p, 'm) prog option" where
  "stop_workers [] w = Some w"
| "stop_workers (i # is) w =
     do { ks \<leftarrow> svc_workers w;
          if i < length ks
          then do { a \<leftarrow> ks ! i; (r, w1) \<leftarrow> worker_stop http_service_hooks a w; stop_workers is w1 }
          else None }"

definition http_service_stop :: "('e, 'p, 'm) prog \<Rightarrow> ('e, 'p, 'm) prog option" where
  "http_service_stop w =
     do { w1 \<leftarrow> stop_workers [0..<nat (nworkers w)] w;
          w2 \<leftarrow> event_del (ev_sigterm w1) w1;
          event_del (ev_sigint w2) w2 }"

text \<open>
  \<open>busy\<close> is what the threads do, and what happens to them, while the main thread waits in
  \<open>event_base_dispatch\<close> for \<open>SIGTERM\<close> or \<open>SIGINT\<close>. The handler of either is \<open>http_service_stop\<close>
  (\<open>http_service_stop_request\<close>), after which the base has no event left and the loop ends.
\<close>

definition http_service_start ::
  "(('e, 'p, 'm) prog \<Rightarrow> ('e, 'p, 'm) prog option) \<Rightarrow> ('e, 'p, 'm) prog \<Rightarrow> (int \<times> ('e, 'p, 'm) prog) option" where
  "http_service_start busy w =
     do { (r, w1) \<leftarrow> start_workers [0..<nat (nworkers w)] w;
          if r < 0 then Some (-1, w1)
          else do {
            live \<leftarrow> deref (ebases w1) (svc_ebase w1);
            w2 \<leftarrow> busy w1;
            w3 \<leftarrow> http_service_stop w2;
            Some (0, w3) } }"

end
