(* ===== verification/Service_Start.thy ===== *)
theory Service_Start
  imports Http_Service Safety
begin

section \<open>Starting the service\<close>

text \<open>
  When no library call fails, \<open>http_service_init\<close> and the start of the workers end, every
  worker's thread listens on its own listener and waits in its own event loop, and the state is
  the one the safety of the event loop starts from (\<open>idle_service\<close>).
\<close>

subsection \<open>The listeners and the workers\<close>

definition idle_channel :: channel where
  "idle_channel = \<lparr>ch_service = Some Http_io_service, ch_eof = False, ch_ctx = None, ch_io = None, ch_listen = False\<rparr>"

lemma make_listeners_ok:
  fixes w :: "('e, 'p, 'm) prog"
  shows "answers w = [] \<Longrightarrow> svc_listeners w = Some (map Some cs @ replicate m None) \<Longrightarrow>
   make_listeners [length cs..<length cs + m] w =
     Some (True, w\<lparr>fresh := fresh w + m, svc_listeners := Some (map Some (cs @ [fresh w..<fresh w + m])),
       channels := (\<lambda>c. if fresh w \<le> c \<and> c < fresh w + m then Some idle_channel else channels w c)\<rparr>)"
proof (induction m arbitrary: w cs)
  case 0
  then show ?case by (auto simp: fun_eq_iff intro!: program.equality)
next
  case (Suc m)
  let ?w = "w\<lparr>fresh := Suc (fresh w), svc_listeners := Some (map Some (cs @ [fresh w]) @ replicate m None),
    channels := (channels w)(fresh w \<mapsto> idle_channel)\<rparr>"
  have up: "[length cs..<length cs + Suc m] = length cs # [length (cs @ [fresh w])..<length (cs @ [fresh w]) + m]"
    by (simp add: upt_rec [of "length cs"])
  have "make_listeners [length cs..<length cs + Suc m] w = make_listeners [length (cs @ [fresh w])..<length (cs @ [fresh w]) + m] ?w"
    unfolding up using Suc.prems
    by (auto simp: tcp_socket_new_def new_addr_if set_channel_def idle_channel_def list_update_append
        intro!: arg_cong [where f = "make_listeners _"] program.equality)
  also have "\<dots> = Some (True, ?w\<lparr>fresh := fresh ?w + m, svc_listeners := Some (map Some ((cs @ [fresh w]) @ [fresh ?w..<fresh ?w + m])),
       channels := (\<lambda>c. if fresh ?w \<le> c \<and> c < fresh ?w + m then Some idle_channel else channels ?w c)\<rparr>)"
    by (rule Suc.IH) (use Suc.prems in simp_all)
  also have "\<dots> = Some (True, w\<lparr>fresh := fresh w + Suc m, svc_listeners := Some (map Some (cs @ [fresh w..<fresh w + Suc m])),
       channels := (\<lambda>c. if fresh w \<le> c \<and> c < fresh w + Suc m then Some idle_channel else channels w c)\<rparr>)"
    by (auto simp: upt_rec [of "fresh w"] fun_eq_iff intro!: program.equality)
  finally show ?case .
qed

definition worker_at :: "addr \<Rightarrow> addr \<Rightarrow> worker" where
  "worker_at f c = \<lparr>wk_ebase = Some (f + 1), wk_dnsbase = Some (f + 2), wk_thread = Some (f + 3),
     wk_prologue = Some Http_service_listener_start, wk_epilogue = None, wk_ctx = Some c\<rparr>"

text \<open>\<open>m\<close> workers, four addresses each from \<open>f\<close> on.\<close>

definition made ::
  "addr \<Rightarrow> nat \<Rightarrow> addr list \<Rightarrow> (addr \<rightharpoonup> worker) \<Rightarrow> (addr \<rightharpoonup> bool) \<Rightarrow> (addr \<rightharpoonup> addr) \<Rightarrow> (addr \<rightharpoonup> thread) \<Rightarrow> bool" where
  "made f m cs K E D T \<longleftrightarrow> (\<forall>j < m. K (f + 4 * j) = Some (worker_at (f + 4 * j) (cs ! j)) \<and> E (f + 4 * j + 1) = Some False \<and>
     D (f + 4 * j + 2) = Some (f + 4 * j + 1) \<and> T (f + 4 * j + 3) = Some \<lparr>th_id = None, th_fn = Worker_Loop\<rparr>)"

lemma made_Suc:
  assumes "made (f + 4) m cs K E D T" "K f = Some (worker_at f c)" "E (f + 1) = Some False" "D (f + 2) = Some (f + 1)"
    "T (f + 3) = Some \<lparr>th_id = None, th_fn = Worker_Loop\<rparr>"
  shows "made f (Suc m) (c # cs) K E D T"
  unfolding made_def
proof (intro allI impI)
  fix j assume j: "j < Suc m"
  show "K (f + 4 * j) = Some (worker_at (f + 4 * j) ((c # cs) ! j)) \<and> E (f + 4 * j + 1) = Some False \<and>
     D (f + 4 * j + 2) = Some (f + 4 * j + 1) \<and> T (f + 4 * j + 3) = Some \<lparr>th_id = None, th_fn = Worker_Loop\<rparr>"
  proof (cases j)
    case 0
    then show ?thesis using assms by simp
  next
    case (Suc i)
    then have "i < m" using j by simp
    with assms(1) have "K (f + 4 + 4 * i) = Some (worker_at (f + 4 + 4 * i) (cs ! i)) \<and> E (f + 4 + 4 * i + 1) = Some False \<and>
       D (f + 4 + 4 * i + 2) = Some (f + 4 + 4 * i + 1) \<and> T (f + 4 + 4 * i + 3) = Some \<lparr>th_id = None, th_fn = Worker_Loop\<rparr>"
      unfolding made_def by blast
    moreover have "f + 4 + 4 * i = f + 4 * j" using Suc by simp
    ultimately show ?thesis using Suc by simp
  qed
qed

text \<open>What is allocated: only what was before, and the new ones.\<close>

definition only_made ::
  "addr \<Rightarrow> nat \<Rightarrow> ('e, 'p, 'm) hosts \<Rightarrow> (addr \<rightharpoonup> worker) \<Rightarrow> (addr \<rightharpoonup> bool) \<Rightarrow> (addr \<rightharpoonup> addr) \<Rightarrow> (addr \<rightharpoonup> thread) \<Rightarrow> bool" where
  "only_made f m w K E D T \<longleftrightarrow> dom K \<subseteq> dom (workers w) \<union> (\<lambda>j. f + 4 * j) ` {..<m} \<and>
     dom E \<subseteq> dom (ebases w) \<union> (\<lambda>j. f + 4 * j + 1) ` {..<m} \<and> dom D \<subseteq> dom (dnsbases w) \<union> (\<lambda>j. f + 4 * j + 2) ` {..<m} \<and>
     dom T \<subseteq> dom (threads w) \<union> (\<lambda>j. f + 4 * j + 3) ` {..<m}"

lemma image_step: "(\<lambda>j. f + 4 * j + k) ` {..<Suc m} = insert (f + k) ((\<lambda>j. f + 4 + 4 * j + k) ` {..<m})" for f k m :: nat
  unfolding lessThan_Suc_eq_insert_0 by (auto simp: image_image algebra_simps)

definition below :: "addr \<Rightarrow> (addr \<Rightarrow> 'a) \<Rightarrow> (addr \<Rightarrow> 'a) \<Rightarrow> bool" where
  "below f m m' \<longleftrightarrow> (\<forall>a < f. m' a = m a)"

lemma belowD: "below f m m' \<Longrightarrow> a < f \<Longrightarrow> m' a = m a"
  by (simp add: below_def)

definition workers_made ::
  "addr \<Rightarrow> nat \<Rightarrow> addr list \<Rightarrow> ('e, 'p, 'm) hosts \<Rightarrow> (addr \<rightharpoonup> worker) \<Rightarrow> (addr \<rightharpoonup> bool) \<Rightarrow> (addr \<rightharpoonup> addr) \<Rightarrow> (addr \<rightharpoonup> thread) \<Rightarrow> bool" where
  "workers_made f m cs w K E D T \<longleftrightarrow> made f m cs K E D T \<and> only_made f m w K E D T \<and>
     below f (workers w) K \<and> below f (ebases w) E \<and> below f (dnsbases w) D \<and> below f (threads w) T"

lemma make_workers_ok:
  fixes w :: "('e, 'p, 'm) prog"
  shows "answers w = [] \<Longrightarrow> svc_listeners w = Some (map Some cs) \<Longrightarrow> svc_workers w = Some (map Some ks @ replicate m None) \<Longrightarrow>
   length cs = length ks + m \<Longrightarrow>
   \<exists>K E D T. make_workers [length ks..<length ks + m] res w =
     Some (True, w\<lparr>fresh := fresh w + 4 * m, svc_workers := Some (map Some (ks @ map (\<lambda>j. fresh w + 4 * j) [0..<m])),
       workers := K, ebases := E, dnsbases := D, threads := T\<rparr>) \<and>
     workers_made (fresh w) m (drop (length ks) cs) w K E D T"
proof (induction m arbitrary: w ks)
  case 0
  have "w = w\<lparr>fresh := fresh w, svc_workers := Some (map Some ks), workers := workers w, ebases := ebases w, dnsbases := dnsbases w, threads := threads w\<rparr>"
    using 0 by simp
  then show ?case using 0
    by (intro exI [of _ "workers w"] exI [of _ "ebases w"] exI [of _ "dnsbases w"] exI [of _ "threads w"])
       (simp add: workers_made_def made_def below_def only_made_def)
next
  case (Suc m)
  let ?f = "fresh w"
  let ?c = "cs ! length ks"
  let ?w = "w\<lparr>fresh := ?f + 4, svc_workers := Some (map Some (ks @ [?f]) @ replicate m None),
    workers := (workers w)(?f \<mapsto> worker_at ?f ?c), ebases := (ebases w)(?f + 1 \<mapsto> False),
    dnsbases := (dnsbases w)(?f + 2 \<mapsto> ?f + 1), threads := (threads w)(?f + 3 \<mapsto> \<lparr>th_id = None, th_fn = Worker_Loop\<rparr>)\<rparr>"
  have up: "[length ks..<length ks + Suc m] = length ks # [length (ks @ [?f])..<length (ks @ [?f]) + m]"
    by (simp add: upt_rec [of "length ks"])
  have new: "worker_new (Some ?c) res w = Some (Some ?f, w\<lparr>answers := [], fresh := Suc (Suc (Suc (Suc ?f))),
     workers := (workers w)(?f \<mapsto> \<lparr>wk_ebase = Some (Suc ?f), wk_dnsbase = Some (Suc (Suc ?f)),
       wk_thread = Some (Suc (Suc (Suc ?f))), wk_prologue = None, wk_epilogue = None, wk_ctx = Some ?c\<rparr>),
     ebases := (ebases w)(Suc ?f \<mapsto> False), dnsbases := (dnsbases w)(Suc (Suc ?f) \<mapsto> Suc ?f),
     threads := (threads w)(Suc (Suc (Suc ?f)) \<mapsto> \<lparr>th_id = None, th_fn = Worker_Loop\<rparr>)\<rparr>)"
    using worker_new_ok [of w "Some ?c" res] Suc.prems(1) by simp
  have step: "make_workers [length ks..<length ks + Suc m] res w = make_workers [length (ks @ [?f])..<length (ks @ [?f]) + m] res ?w"
    unfolding up using Suc.prems
    by (auto simp: new worker_set_prologue_def upd_worker_def list_update_append worker_at_def numeral_eq_Suc simp del: upt_Suc
        intro!: arg_cong [where f = "make_workers _ _"] program.equality)
  have "\<exists>K E D T. make_workers [length (ks @ [?f])..<length (ks @ [?f]) + m] res ?w =
     Some (True, ?w\<lparr>fresh := fresh ?w + 4 * m, svc_workers := Some (map Some ((ks @ [?f]) @ map (\<lambda>j. fresh ?w + 4 * j) [0..<m])),
       workers := K, ebases := E, dnsbases := D, threads := T\<rparr>) \<and>
     workers_made (fresh ?w) m (drop (length (ks @ [?f])) cs) ?w K E D T"
    by (rule Suc.IH) (use Suc.prems in simp_all)
  then obtain K E D T where run: "make_workers [length (ks @ [?f])..<length (ks @ [?f]) + m] res ?w =
     Some (True, ?w\<lparr>fresh := fresh ?w + 4 * m, svc_workers := Some (map Some ((ks @ [?f]) @ map (\<lambda>j. fresh ?w + 4 * j) [0..<m])),
       workers := K, ebases := E, dnsbases := D, threads := T\<rparr>)"
     and wm: "workers_made (fresh ?w) m (drop (length (ks @ [?f])) cs) ?w K E D T"
    by blast
  have list: "map (\<lambda>j. ?f + 4 * j) [0..<Suc m] = ?f # map (\<lambda>j. ?f + 4 + 4 * j) [0..<m]"
    by (simp add: upt_rec [of 0] map_Suc_upt [symmetric] del: upt_Suc)
  have low: "below (fresh ?w) (workers ?w) K" "below (fresh ?w) (ebases ?w) E" "below (fresh ?w) (dnsbases ?w) D" "below (fresh ?w) (threads ?w) T"
    using wm by (simp_all add: workers_made_def)
  have v: "K ?f = workers ?w ?f" "E (?f + 1) = ebases ?w (?f + 1)" "D (?f + 2) = dnsbases ?w (?f + 2)" "T (?f + 3) = threads ?w (?f + 3)"
    using belowD [OF low(1), of ?f] belowD [OF low(2), of "?f + 1"] belowD [OF low(3), of "?f + 2"] belowD [OF low(4), of "?f + 3"] by simp_all
  have "made ?f (Suc m) (?c # drop (Suc (length ks)) cs) K E D T"
    using wm v by (intro made_Suc) (simp_all add: workers_made_def)
  then have "made ?f (Suc m) (drop (length ks) cs) K E D T"
    using Suc.prems(4) by (simp add: Cons_nth_drop_Suc)
  moreover have "below ?f (workers w) K" "below ?f (ebases w) E" "below ?f (dnsbases w) D" "below ?f (threads w) T"
    using wm by (auto simp: workers_made_def below_def)
  moreover have "only_made ?f (Suc m) w K E D T"
    using wm image_step [of ?f 0 m] image_step [of ?f 1 m] image_step [of ?f 2 m] image_step [of ?f 3 m]
    by (simp add: workers_made_def only_made_def)
  ultimately have "workers_made ?f (Suc m) (drop (length ks) cs) w K E D T" by (simp add: workers_made_def)
  moreover have "make_workers [length ks..<length ks + Suc m] res w =
     Some (True, w\<lparr>fresh := ?f + 4 * Suc m, svc_workers := Some (map Some (ks @ map (\<lambda>j. ?f + 4 * j) [0..<Suc m])),
       workers := K, ebases := E, dnsbases := D, threads := T\<rparr>)"
    unfolding step run by (simp add: list del: upt_Suc)
  ultimately show ?case by blast
qed

subsection \<open>Initialisation\<close>

text \<open>The state of a program that has just been started: nothing allocated, nothing will fail.\<close>

definition nothing_yet :: "('e, 'p, 'm) prog \<Rightarrow> bool" where
  "nothing_yet w \<longleftrightarrow> answers w = [] \<and> heap_rep (store_heap (lh w)) Map.empty \<and> answers (store_heap (lh w)) = [] \<and>
     bevs w = Map.empty \<and> listeners w = Map.empty \<and> channels w = Map.empty \<and> hsessions w = Map.empty \<and> bodies w = {} \<and>
     sessions w = Map.empty \<and> dns_requests w = Map.empty \<and> resolving w = Map.empty \<and> strs w = Map.empty \<and> refs w = Map.empty \<and>
     threads w = Map.empty \<and> thread_args w = Map.empty \<and> thread_ids w = Map.empty \<and> thread_keys w = Map.empty \<and>
     pthreads w = Map.empty \<and> tls w = Map.empty \<and> ebases w = Map.empty \<and> workers w = Map.empty \<and> dnsbases w = Map.empty \<and>
     sigevents w = Map.empty"

text \<open>No session and nothing of one.\<close>

definition no_session :: "('e, 'p, 'm) prog \<Rightarrow> bool" where
  "no_session w \<longleftrightarrow> bevs w = Map.empty \<and> hsessions w = Map.empty \<and> bodies w = {} \<and> sessions w = Map.empty \<and>
     dns_requests w = Map.empty \<and> resolving w = Map.empty \<and> strs w = Map.empty \<and> refs w = Map.empty \<and>
     (\<exists>l m. svc_sessions w = Some l \<and> svc_mutex w = Some m \<and> mutexes w m = Some False \<and>
        list_queue.holds (store_heap (lh w)) l [])"

text \<open>The static variables: the listeners are at \<open>c0\<close>, what was allocated before below.\<close>

definition statics :: "nat \<Rightarrow> addr \<Rightarrow> ('e, 'p, 'm) prog \<Rightarrow> bool" where
  "statics n c0 w \<longleftrightarrow> nworkers w = int n \<and> svc_listeners w = Some (map Some [c0..<c0 + n]) \<and>
     (\<exists>b s1 s2. svc_ebase w = Some b \<and> b < c0 \<and> ebases w b = Some False \<and> ev_sigterm w = Some s1 \<and> ev_sigint w = Some s2 \<and>
        s1 \<noteq> s2 \<and> dom (sigevents w) = {s1, s2}) \<and>
     (\<exists>p k f i. thread_worker_key w = Some p \<and> thread_keys w = [p \<mapsto> k] \<and> tls w = [k \<mapsto> f] \<and>
        main_thread_id w = Some i \<and> dom (thread_ids w) = {i})"

text \<open>The workers at \<open>g\<close>, and nothing else of their kinds than the base of the main thread.\<close>

definition owned :: "nat \<Rightarrow> addr \<Rightarrow> ('e, 'p, 'm) prog \<Rightarrow> bool" where
  "owned n g w \<longleftrightarrow> svc_workers w = Some (map Some (map (\<lambda>j. g + 4 * j) [0..<n])) \<and>
     dom (workers w) = (\<lambda>j. g + 4 * j) ` {..<n} \<and> dom (ebases w) = insert (the (svc_ebase w)) ((\<lambda>j. g + 4 * j + 1) ` {..<n}) \<and>
     dom (dnsbases w) = (\<lambda>j. g + 4 * j + 2) ` {..<n} \<and> dom (threads w) = (\<lambda>j. g + 4 * j + 3) ` {..<n}"

lemma made_dom:
  assumes "workers_made g n cs w K E D T" "workers w = Map.empty" "dom (ebases w) = {b}" "dnsbases w = Map.empty" "threads w = Map.empty"
    and "b < g"
  shows "dom K = (\<lambda>j. g + 4 * j) ` {..<n}" "dom E = insert b ((\<lambda>j. g + 4 * j + 1) ` {..<n})"
    "dom D = (\<lambda>j. g + 4 * j + 2) ` {..<n}" "dom T = (\<lambda>j. g + 4 * j + 3) ` {..<n}"
proof -
  have low: "E b \<noteq> None" using assms(1,3,6) belowD [of g "ebases w" E b] by (auto simp: workers_made_def dom_def)
  have sub: "dom K \<subseteq> (\<lambda>j. g + 4 * j) ` {..<n}" "dom E \<subseteq> insert b ((\<lambda>j. g + 4 * j + 1) ` {..<n})"
    "dom D \<subseteq> (\<lambda>j. g + 4 * j + 2) ` {..<n}" "dom T \<subseteq> (\<lambda>j. g + 4 * j + 3) ` {..<n}"
    using assms(1-5) by (simp_all add: workers_made_def only_made_def)
  have m: "made g n cs K E D T" using assms(1) by (simp add: workers_made_def)
  show "dom K = (\<lambda>j. g + 4 * j) ` {..<n}" using sub(1) m by (auto simp: made_def)
  show "dom E = insert b ((\<lambda>j. g + 4 * j + 1) ` {..<n})" using sub(2) m low by (auto simp: made_def)
  show "dom D = (\<lambda>j. g + 4 * j + 2) ` {..<n}" using sub(3) m by (auto simp: made_def)
  show "dom T = (\<lambda>j. g + 4 * j + 3) ` {..<n}" using sub(4) m by (auto simp: made_def)
qed

text \<open>After \<open>http_service_init\<close>: the listeners are at \<open>c0\<close>, the workers at \<open>g\<close>.\<close>

definition ready :: "nat \<Rightarrow> addr \<Rightarrow> addr \<Rightarrow> sockaddr \<Rightarrow> ('e, 'p, 'm) prog \<Rightarrow> bool" where
  "ready n c0 g sa w \<longleftrightarrow> answers w = [] \<and> c0 + n \<le> g \<and> g + 4 * n \<le> fresh w \<and> svc_sockaddr w = sa \<and>
     no_session w \<and> listeners w = Map.empty \<and> pthreads w = Map.empty \<and> thread_args w = Map.empty \<and>
     channels w = (\<lambda>c. if c0 \<le> c \<and> c < c0 + n then Some idle_channel else None) \<and>
     made g n [c0..<c0 + n] (workers w) (ebases w) (dnsbases w) (threads w) \<and> statics n c0 w \<and> owned n g w"

lemma ask_nil: "answers w = [] \<Longrightarrow> ask w = (True, w)"
  by (simp add: ask_def)

lemma worker_init_ok:
  fixes w :: "('e, 'p, 'm) hosts"
  assumes "answers w = []"
  shows "worker_init w = (0, w\<lparr>fresh := fresh w + 3, thread_ids := (thread_ids w)(fresh w \<mapsto> current w), main_thread_id := Some (fresh w),
     thread_keys := (thread_keys w)(fresh w + 1 \<mapsto> fresh w + 2), tls := (tls w)(fresh w + 2 \<mapsto> (\<lambda>t. None)),
     thread_worker_key := Some (fresh w + 1)\<rparr>)"
  using assms by (auto simp: worker_init_def thread_self_def thread_key_new_def new_addr_if ask_if Let_def numeral_eq_Suc intro!: host.equality)

lemma http_service_init_ready:
  assumes "nothing_yet w"
  shows "\<exists>c0 g w'. http_service_init (int n) sa res w = Some (0, w') \<and> ready n c0 g sa w'"
proof -
  obtain l h where l: "list_new (store_heap (lh w)) = (Some l, h)" "list_queue.holds h l []"
  proof -
    obtain h where "list_new (store_heap (lh w)) = (Some (fresh (store_heap (lh w))), h)"
      "heap_rep h (Map.empty(fresh (store_heap (lh w)) \<mapsto> []))"
      by (rule list_new_heap [of "store_heap (lh w)" Map.empty]) (use assms in \<open>simp_all add: nothing_yet_def\<close>)
    then show thesis by (intro that [of "fresh (store_heap (lh w))" h]) (auto simp: list_queue.holds_def queue_rep_def)
  qed
  let ?f = "fresh w"
  let ?c0 = "?f + 7"
  let ?g = "?c0 + n"
  define w8 where "w8 = w\<lparr>answers := [], fresh := ?c0, thread_ids := (thread_ids w)(?f \<mapsto> current w), main_thread_id := Some ?f,
     thread_keys := (thread_keys w)(?f + 1 \<mapsto> ?f + 2), tls := (tls w)(?f + 2 \<mapsto> (\<lambda>t. None)), thread_worker_key := Some (?f + 1),
     svc_resolver := res, lh := List_Store h, svc_sessions := Some l, mutexes := (mutexes w)(?f + 3 \<mapsto> False), svc_mutex := Some (?f + 3),
     ebases := (ebases w)(?f + 4 \<mapsto> False), svc_ebase := Some (?f + 4), ev_sigterm := Some (?f + 5), ev_sigint := Some (?f + 6),
     sigevents := (sigevents w)(?f + 5 \<mapsto> True, ?f + 6 \<mapsto> True)\<rparr>"
  define w9 where "w9 = w8\<lparr>fresh := ?g, svc_listeners := Some (map Some [?c0..<?c0 + n]),
     channels := (\<lambda>c. if ?c0 \<le> c \<and> c < ?c0 + n then Some idle_channel else None)\<rparr>"
  have start: "http_service_init (int n) sa res w = do {
        (ok, w9) \<leftarrow> init_listeners (int n) w8;
        if ok then init_workers (int n) sa res w9 else init_error w9 }"
    using assms l(1)
    by (auto simp: http_service_init_def worker_init_ok mutex_new_def event_base_new_def add_signal_def evsignal_new_def event_add_def
        new_addr_if ask_if Let_def nothing_yet_def w8_def numeral_eq_Suc
        intro!: arg_cong2 [where f = Option.bind] arg_cong [where f = "init_listeners (int n)"] program.equality)
  have a8: "answers w8 = []" "channels w8 = Map.empty" "fresh w8 = ?c0"
    using assms by (simp_all add: w8_def nothing_yet_def)
  let ?w8 = "w8\<lparr>svc_listeners := Some (replicate n None)\<rparr>"
  have "make_listeners [length ([] :: addr list)..<length ([] :: addr list) + n] ?w8 = Some (True, ?w8\<lparr>fresh := fresh ?w8 + n,
     svc_listeners := Some (map Some ([] @ [fresh ?w8..<fresh ?w8 + n])),
     channels := (\<lambda>c. if fresh ?w8 \<le> c \<and> c < fresh ?w8 + n then Some idle_channel else channels ?w8 c)\<rparr>)"
    by (rule make_listeners_ok) (simp_all add: a8)
  then have "make_listeners [0..<n] ?w8 = Some (True, w9)" by (simp add: w9_def a8 cong: if_cong)
  moreover have "init_listeners (int n) w8 = make_listeners [0..<n] ?w8"
    using a8(1) by (simp add: init_listeners_def calloc_array_def ask_nil)
  ultimately have lst: "init_listeners (int n) w8 = Some (True, w9)" by simp
  have a9: "answers w9 = []" "svc_listeners w9 = Some (map Some [?c0..<?c0 + n])" "fresh w9 = ?g"
    using a8 by (simp_all add: w9_def)
  let ?w9 = "w9\<lparr>nworkers := int n, svc_workers := Some (replicate n None)\<rparr>"
  obtain K E D T where mk: "make_workers [0..<n] res ?w9 = Some (True, ?w9\<lparr>fresh := ?g + 4 * n,
      svc_workers := Some (map Some (map (\<lambda>j. ?g + 4 * j) [0..<n])), workers := K, ebases := E, dnsbases := D, threads := T\<rparr>)"
    "workers_made ?g n [?c0..<?c0 + n] ?w9 K E D T"
    using make_workers_ok [of ?w9 "[?c0..<?c0 + n]" "[]" n res] by (auto simp: a9)
  let ?w10 = "?w9\<lparr>fresh := ?g + 4 * n, svc_workers := Some (map Some (map (\<lambda>j. ?g + 4 * j) [0..<n])), workers := K, ebases := E,
    dnsbases := D, threads := T, svc_sockaddr := sa\<rparr>"
  have "init_workers (int n) sa res w9 = Some (0, ?w10)"
    using mk(1) a9(1) by (simp add: init_workers_def calloc_array_def ask_nil)
  then have run: "http_service_init (int n) sa res w = Some (0, ?w10)" by (simp add: start lst)
  have E: "E (?f + 4) = Some False"
    using mk(2) belowD [of ?g "ebases ?w9" E "?f + 4"] by (simp add: workers_made_def w9_def w8_def)
  have "dom (ebases ?w9) = {?f + 4}" using assms by (simp add: w9_def w8_def nothing_yet_def)
  note doms = made_dom [OF mk(2) _ this]
  have "statics n ?c0 ?w10" using assms E by (simp add: statics_def w9_def w8_def nothing_yet_def) auto
  moreover have "owned n ?g ?w10" using assms doms by (simp add: owned_def w9_def w8_def nothing_yet_def)
  ultimately have "ready n ?c0 ?g sa ?w10"
    using assms mk(2) l(2) by (simp add: ready_def no_session_def nothing_yet_def workers_made_def w9_def w8_def)
  with run show ?thesis by blast
qed

subsection \<open>The threads\<close>

text \<open>
  \<open>pool n c0 g h m S w\<close>: of the \<open>n\<close> workers the first \<open>m\<close> have a thread (its argument at \<open>h + 2 * j\<close>, its
  identity after it), and the threads of those in \<open>S\<close> have run and wait in their loops.
\<close>

definition thread_at :: "addr \<Rightarrow> addr \<Rightarrow> nat set \<Rightarrow> nat \<Rightarrow> (addr \<rightharpoonup> thread_state) \<Rightarrow> (addr \<rightharpoonup> thread_arg) \<Rightarrow> bool" where
  "thread_at g h S j P A \<longleftrightarrow> (if j \<in> S then P (h + 2 * j + 1) = Some (In_loop (g + 4 * j + 1) Worker_Loop (Some (g + 4 * j)))
     else P (h + 2 * j + 1) = Some (Created (h + 2 * j)) \<and>
          A (h + 2 * j) = Some \<lparr>ta_thread = Some (g + 4 * j + 3), ta_user_arg = Some (g + 4 * j)\<rparr>)"

definition listening :: "addr \<Rightarrow> channel" where
  "listening l = idle_channel\<lparr>ch_io := Some l, ch_listen := True\<rparr>"

definition channel_at :: "addr \<Rightarrow> nat set \<Rightarrow> nat \<Rightarrow> (addr \<rightharpoonup> channel) \<Rightarrow> (addr \<rightharpoonup> listener) \<Rightarrow> bool" where
  "channel_at c0 S j C Q \<longleftrightarrow>
     (if j \<in> S then \<exists>l X. C (c0 + j) = Some (listening l) \<and> Q l = Some X \<and> lst_arg X = Some (c0 + j) else C (c0 + j) = Some idle_channel)"

lemma channel_at_step:
  assumes "channel_at c0 S i C Q" "Q l = None" "lst_arg X = Some (c0 + j)"
  shows "channel_at c0 (insert j S) i (C(c0 + j \<mapsto> listening l)) (Q(l \<mapsto> X))"
proof (cases "i = j")
  case True
  then show ?thesis using assms(3) by (auto simp: channel_at_def intro!: exI [of _ l])
next
  case False
  show ?thesis
  proof (cases "i \<in> S")
    case True
    then obtain l' X' where A: "C (c0 + i) = Some (listening l')" "Q l' = Some X'" "lst_arg X' = Some (c0 + i)"
      using assms(1) by (auto simp: channel_at_def)
    then have "l' \<noteq> l" using assms(2) by auto
    with A True False show ?thesis by (auto simp: channel_at_def)
  next
    case not_in: False
    with False assms(1) show ?thesis by (simp add: channel_at_def)
  qed
qed

definition workers_at :: "nat \<Rightarrow> addr \<Rightarrow> addr \<Rightarrow> (addr \<rightharpoonup> worker) \<Rightarrow> (addr \<rightharpoonup> bool) \<Rightarrow> (addr \<rightharpoonup> addr) \<Rightarrow> bool" where
  "workers_at n c0 g K E D \<longleftrightarrow> (\<forall>j < n. K (g + 4 * j) = Some (worker_at (g + 4 * j) (c0 + j)) \<and> E (g + 4 * j + 1) = Some False \<and>
     D (g + 4 * j + 2) = Some (g + 4 * j + 1))"

definition pool :: "nat \<Rightarrow> addr \<Rightarrow> addr \<Rightarrow> addr \<Rightarrow> nat \<Rightarrow> nat set \<Rightarrow> ('e, 'p, 'm) prog \<Rightarrow> bool" where
  "pool n c0 g h m S w \<longleftrightarrow> answers w = [] \<and> c0 + n \<le> g \<and> g + 4 * n \<le> h \<and> h + 2 * m \<le> fresh w \<and> no_session w \<and>
     statics n c0 w \<and> owned n g w \<and> workers_at n c0 g (workers w) (ebases w) (dnsbases w) \<and>
     (\<forall>j < n. threads w (g + 4 * j + 3) = Some \<lparr>th_id = (if j < m then Some (h + 2 * j + 1) else None), th_fn = Worker_Loop\<rparr>) \<and>
     (\<forall>j < m. thread_at g h S j (pthreads w) (thread_args w)) \<and>
     (\<forall>j < n. channel_at c0 S j (channels w) (listeners w)) \<and> dom (channels w) \<subseteq> {c0..<c0 + n} \<and>
     (\<forall>l X. listeners w l = Some X \<longrightarrow> l < fresh w \<and> (\<exists>j \<in> S. j < n \<and> lst_arg X = Some (c0 + j) \<and> channels w (c0 + j) = Some (listening l))) \<and>
     dom (pthreads w) = (\<lambda>j. h + 2 * j + 1) ` {..<m} \<and> dom (thread_args w) = (\<lambda>j. h + 2 * j) ` ({..<m} - S)"

lemma ready_pool:
  assumes "ready n c0 g sa w"
  shows "pool n c0 g (fresh w) 0 {} w"
  using assms by (simp add: ready_def pool_def made_def workers_at_def channel_at_def subset_iff) (auto split: if_splits)

lemma poolD:
  assumes "pool n c0 g h m S w"
  shows "answers w = []" "c0 + n \<le> g" "g + 4 * n \<le> h" "h + 2 * m \<le> fresh w" "no_session w" "statics n c0 w" "owned n g w"
    "workers_at n c0 g (workers w) (ebases w) (dnsbases w)"
    "j < n \<Longrightarrow> threads w (g + 4 * j + 3) = Some \<lparr>th_id = (if j < m then Some (h + 2 * j + 1) else None), th_fn = Worker_Loop\<rparr>"
    "j < m \<Longrightarrow> thread_at g h S j (pthreads w) (thread_args w)"
    "j < n \<Longrightarrow> channel_at c0 S j (channels w) (listeners w)" "dom (channels w) \<subseteq> {c0..<c0 + n}"
    "listeners w l = Some X \<Longrightarrow> l < fresh w \<and> (\<exists>j \<in> S. j < n \<and> lst_arg X = Some (c0 + j) \<and> channels w (c0 + j) = Some (listening l))"
    "dom (pthreads w) = (\<lambda>j. h + 2 * j + 1) ` {..<m}" "dom (thread_args w) = (\<lambda>j. h + 2 * j) ` ({..<m} - S)"
  using assms by (simp_all add: pool_def)

lemma thread_start_ok:
  fixes w :: "('e, 'p, 'm) proc"
  assumes "answers w = []" "threads w t = Some T"
  shows "thread_start (Some t) x w = Some (0, w\<lparr>fresh := Suc (Suc (fresh w)),
     thread_args := (thread_args w)(fresh w \<mapsto> \<lparr>ta_thread = Some t, ta_user_arg = x\<rparr>),
     pthreads := (pthreads w)(Suc (fresh w) \<mapsto> Created (fresh w)), threads := (threads w)(t \<mapsto> T\<lparr>th_id := Some (Suc (fresh w))\<rparr>)\<rparr>)"
  using assms
  by (auto simp: thread_start_def thread_arg_new_def pthread_create_def new_addr_if intro!: process.equality)

lemma worker_start_pool:
  assumes pool: "pool n c0 g h m {} w" and m: "m < n" and fr: "fresh w = h + 2 * m"
  shows "\<exists>w'. worker_start (g + 4 * m) w = Some (0, w') \<and> pool n c0 g h (Suc m) {} w' \<and> fresh w' = h + 2 * Suc m \<and>
    svc_sockaddr w' = svc_sockaddr w"
proof -
  note P = poolD [OF pool]
  let ?t = "g + 4 * m + 3"
  let ?w = "w\<lparr>fresh := Suc (Suc (fresh w)),
     thread_args := (thread_args w)(fresh w \<mapsto> \<lparr>ta_thread = Some ?t, ta_user_arg = Some (g + 4 * m)\<rparr>),
     pthreads := (pthreads w)(Suc (fresh w) \<mapsto> Created (fresh w)),
     threads := (threads w)(?t \<mapsto> \<lparr>th_id = Some (Suc (fresh w)), th_fn = Worker_Loop\<rparr>)\<rparr>"
  have K: "workers w (g + 4 * m) = Some (worker_at (g + 4 * m) (c0 + m))" using P(8) m by (simp add: workers_at_def)
  have T: "threads w ?t = Some \<lparr>th_id = None, th_fn = Worker_Loop\<rparr>" using P(9) [OF m] by simp
  have run: "worker_start (g + 4 * m) w = Some (0, ?w)"
    using thread_start_ok [OF P(1) T] K by (simp add: worker_start_def worker_at_def)
  have "thread_at g h {} j (pthreads ?w) (thread_args ?w)" if j: "j < Suc m" for j
    using P(10) [of j] j fr by (cases "j = m") (auto simp: thread_at_def)
  moreover have "dom (pthreads ?w) = (\<lambda>j. h + 2 * j + 1) ` {..<Suc m}" "dom (thread_args ?w) = (\<lambda>j. h + 2 * j) ` {..<Suc m}"
    using P(14,15) fr by (auto simp: lessThan_Suc)
  moreover have "statics n c0 ?w" using P(6) by (simp add: statics_def)
  moreover have "owned n g ?w" using P(7) m by (auto simp: owned_def)
  ultimately have "pool n c0 g h (Suc m) {} ?w"
    using P fr m by (simp add: pool_def no_session_def less_Suc_eq) (fastforce simp: less_Suc_eq)
  with run fr show ?thesis by auto
qed

lemma start_workers_pool:
  "pool n c0 g h m {} w \<Longrightarrow> m + k = n \<Longrightarrow> fresh w = h + 2 * m \<Longrightarrow>
   \<exists>w'. start_workers [m..<n] w = Some (0, w') \<and> pool n c0 g h n {} w' \<and> svc_sockaddr w' = svc_sockaddr w"
proof (induction k arbitrary: m w)
  case (Suc k)
  then have m: "m < n" by simp
  obtain w1 where w1: "worker_start (g + 4 * m) w = Some (0, w1)" "pool n c0 g h (Suc m) {} w1" "fresh w1 = h + 2 * Suc m"
      "svc_sockaddr w1 = svc_sockaddr w"
    using worker_start_pool [OF Suc.prems(1) m Suc.prems(3)] by blast
  have "start_workers [m..<n] w = start_workers [Suc m..<n] w1"
    using poolD(7) [OF Suc.prems(1)] m w1(1) by (simp add: owned_def upt_rec [of m])
  with Suc.IH [OF w1(2) _ w1(3)] Suc.prems(2) w1(4) show ?case by simp
qed simp

lemma thread_key_set_ok:
  "answers w = [] \<Longrightarrow> thread_keys w p = Some k \<Longrightarrow> tls w k = Some f \<Longrightarrow>
   thread_key_set (Some p) x w = Some (0, w\<lparr>tls := (tls w)(k \<mapsto> f(current w := x))\<rparr>)"
  by (simp add: thread_key_set_def ask_nil)

lemma tcp_socket_listen_ok:
  fixes w :: "('e, 'm) net_scheme"
  assumes "answers w = []" "channels w c = Some idle_channel" "sa_family sa = AF_INET"
  shows "tcp_socket_listen c sa w = Some (IO_CHANNEL_E_SUCCESS, w\<lparr>fresh := Suc (Suc (fresh w)), fds := insert (fresh w) (fds w),
     listeners := (listeners w)(Suc (fresh w) \<mapsto> \<lparr>lst_fd = fresh w, lst_arg = Some c\<rparr>),
     channels := (channels w)(c \<mapsto> listening (Suc (fresh w)))\<rparr>)"
  using assms
  by (auto simp: tcp_socket_listen_def new_socket_def evconnlistener_new_def new_addr_if ask_nil Let_def set_channel_def listening_def
      intro!: net.equality)

text \<open>A thread that gets its turn listens, on its own listener, and ends up in its own event loop.\<close>

lemma run_thread_pool:
  assumes pool: "pool n c0 g h n S w" and j: "j < n" "j \<notin> S" and sa: "sa_family (svc_sockaddr w) = AF_INET"
  shows "\<exists>w'. run_thread (worker_fns http_service_hooks) (h + 2 * j + 1) w = Some w' \<and> pool n c0 g h n (insert j S) w' \<and>
     this_ebase w' = Some (g + 4 * j + 1) \<and> this_dns w' = Some (g + 4 * j + 2) \<and> svc_sockaddr w' = svc_sockaddr w"
proof -
  note P = poolD [OF pool]
  let ?k = "g + 4 * j"
  let ?p = "h + 2 * j + 1"
  let ?c = "c0 + j"
  obtain p k f i where key: "thread_worker_key w = Some p" "thread_keys w = [p \<mapsto> k]" "tls w = [k \<mapsto> f]"
    "main_thread_id w = Some i" "dom (thread_ids w) = {i}"
    using P(6) unfolding statics_def by blast
  have T: "threads w (?k + 3) = Some \<lparr>th_id = Some ?p, th_fn = Worker_Loop\<rparr>" using P(9) [OF j(1)] j by simp
  have st: "pthreads w ?p = Some (Created (h + 2 * j))" "thread_args w (h + 2 * j) = Some \<lparr>ta_thread = Some (?k + 3), ta_user_arg = Some ?k\<rparr>"
    using P(10) [OF j(1)] j(2) by (simp_all add: thread_at_def)
  have K: "workers w ?k = Some (worker_at ?k ?c)" "ebases w (?k + 1) = Some False" using P(8) j by (simp_all add: workers_at_def)
  have C: "channels w ?c = Some idle_channel" using P(11) [OF j(1)] j by (simp add: channel_at_def)
  let ?w = "w\<lparr>fresh := Suc (Suc (fresh w)), fds := insert (fresh w) (fds w),
     listeners := (listeners w)(Suc (fresh w) \<mapsto> \<lparr>lst_fd = fresh w, lst_arg = Some ?c\<rparr>),
     channels := (channels w)(?c \<mapsto> listening (Suc (fresh w))), this_ebase := Some (?k + 1), this_dns := Some (?k + 2),
     thread_args := (thread_args w)(h + 2 * j := None), tls := (tls w)(k \<mapsto> f(?p := Some ?k)),
     pthreads := (pthreads w)(?p \<mapsto> In_loop (?k + 1) Worker_Loop (Some ?k))\<rparr>"
  have run: "run_thread (worker_fns http_service_hooks) ?p w = Some ?w"
    using st T K C key P(1) sa
    by (auto simp: run_thread_def thread_routine_def thread_arg_free_def free_at_def worker_fns_def worker_loop_def
        thread_key_set_ok worker_at_def http_service_hooks_def http_service_listener_start_def enter_thread_def
        this_event_base_def this_dnsbase_def this_worker_def thread_key_get_def channel_listen_def tcp_socket_listen_ok
        intro!: program.equality)
  have new: "listeners w (Suc (fresh w)) = None" using P(13) [of "Suc (fresh w)"] by (cases "listeners w (Suc (fresh w))") auto
  have "thread_at g h (insert j S) i (pthreads ?w) (thread_args ?w)" if "i < n" for i
    using P(10) [OF that] j(2) by (cases "i = j") (auto simp: thread_at_def)
  moreover have "channel_at c0 (insert j S) i (channels ?w) (listeners ?w)" if "i < n" for i
    using channel_at_step [OF P(11) [OF that] new] by simp
  moreover have "l < fresh ?w \<and> (\<exists>i \<in> insert j S. i < n \<and> lst_arg X = Some (c0 + i) \<and> channels ?w (c0 + i) = Some (listening l))"
    if "listeners ?w l = Some X" for l X
    using that P(13) [of l X] j by (fastforce split: if_splits)
  moreover have "dom (channels ?w) \<subseteq> {c0..<c0 + n}" using P(12) j(1) by auto
  moreover have "threads ?w (g + 4 * i + 3) = Some \<lparr>th_id = (if i < n then Some (h + 2 * i + 1) else None), th_fn = Worker_Loop\<rparr>" if "i < n" for i
    using P(9) [OF that] by simp
  moreover have "dom (pthreads ?w) = (\<lambda>j. h + 2 * j + 1) ` {..<n}" "dom (thread_args ?w) = (\<lambda>j. h + 2 * j) ` ({..<n} - insert j S)"
    using P(14,15) j(1) by auto
  moreover have "statics n c0 ?w" unfolding statics_def
  proof (intro conjI)
    show "\<exists>p k f i. thread_worker_key ?w = Some p \<and> thread_keys ?w = [p \<mapsto> k] \<and> tls ?w = [k \<mapsto> f] \<and>
        main_thread_id ?w = Some i \<and> dom (thread_ids ?w) = {i}"
      by (rule exI [of _ p], rule exI [of _ k], rule exI [of _ "f(?p := Some ?k)"], rule exI [of _ i]) (simp add: key)
  qed (use P(6) in \<open>simp_all add: statics_def\<close>)
  moreover have "owned n g ?w" using P(7) by (simp add: owned_def)
  ultimately have "pool n c0 g h n (insert j S) ?w"
    using P(1-8) unfolding pool_def by (simp add: no_session_def)
  with run show ?thesis by auto
qed

text \<open>The threads run in any order.\<close>

fun run_threads :: "addr list \<Rightarrow> ('e, 'p, 'm) prog \<Rightarrow> ('e, 'p, 'm) prog option" where
  "run_threads [] w = Some w"
| "run_threads (t # ts) w = do { w1 \<leftarrow> run_thread (worker_fns http_service_hooks) t w; run_threads ts w1 }"

lemma run_threads_pool:
  "pool n c0 g h n S w \<Longrightarrow> distinct js \<Longrightarrow> set js \<subseteq> {..<n} - S \<Longrightarrow> sa_family (svc_sockaddr w) = AF_INET \<Longrightarrow>
   \<exists>w'. run_threads (map (\<lambda>j. h + 2 * j + 1) js) w = Some w' \<and> pool n c0 g h n (S \<union> set js) w' \<and> (js \<noteq> [] \<longrightarrow> this_dns w' \<noteq> None)"
proof (induction js arbitrary: S w)
  case (Cons j js)
  have j: "j < n" "j \<notin> S" using Cons.prems(3) by auto
  obtain w1 where w1: "run_thread (worker_fns http_service_hooks) (h + 2 * j + 1) w = Some w1" "pool n c0 g h n (insert j S) w1"
    "this_dns w1 = Some (g + 4 * j + 2)" "sa_family (svc_sockaddr w1) = AF_INET"
    using run_thread_pool [OF Cons.prems(1) j Cons.prems(4)] Cons.prems(4) by auto
  obtain w' where w': "run_threads (map (\<lambda>j. h + 2 * j + 1) js) w1 = Some w'" "pool n c0 g h n (insert j S \<union> set js) w'"
    "js \<noteq> [] \<longrightarrow> this_dns w' \<noteq> None"
    using Cons.IH [OF w1(2) _ _ w1(4)] Cons.prems(2,3) by auto
  have "insert j S \<union> set js = S \<union> set (j # js)" by auto
  with w1 w' show ?case by (cases js) auto
qed simp

text \<open>Every list of the threads is a list of the indices of the workers.\<close>

lemma threads_of:
  assumes "pool n c0 g h n S w" "distinct ts" "set ts = dom (pthreads w)"
  obtains js where "ts = map (\<lambda>j. h + 2 * j + 1) js" "distinct js" "set js = {..<n}"
proof -
  let ?t = "\<lambda>j. h + 2 * j + 1"
  have inj: "inj ?t" by (rule injI) simp
  have "\<exists>js. ts = map ?t js" using poolD(14) [OF assms(1)] assms(3) by (auto simp: ex_map_conv)
  then obtain js where js: "ts = map ?t js" by blast
  have "?t ` set js = ?t ` {..<n}" using js assms(3) poolD(14) [OF assms(1)] by simp
  then have "set js = {..<n}" by (simp only: inj_image_eq_iff [OF inj])
  with js assms(2) show thesis by (intro that [of js]) (simp_all add: distinct_map)
qed

subsection \<open>The started service\<close>

lemma truncate_select [simp]:
  "fresh (world.truncate w) = fresh w" "bevs (world.truncate w) = bevs w" "listeners (world.truncate w) = listeners w"
  "channels (world.truncate w) = channels w" "hsessions (world.truncate w) = hsessions w" "bodies (world.truncate w) = bodies w"
  "sessions (world.truncate w) = sessions w" "dns_requests (world.truncate w) = dns_requests w"
  "resolving (world.truncate w) = resolving w" "strs (world.truncate w) = strs w" "refs (world.truncate w) = refs w"
  "svc_sessions (world.truncate w) = svc_sessions w" "svc_mutex (world.truncate w) = svc_mutex w"
  "mutexes (world.truncate w) = mutexes w" "lh (world.truncate w) = lh w" "this_dns (world.truncate w) = this_dns w"
  "answers (world.truncate w) = answers w" "this_ebase (world.truncate w) = this_ebase w"
  by (simp_all add: world.truncate_def)

lemma pool_idle:
  assumes pool: "pool n c0 g h n S w" and dns: "this_dns w \<noteq> None"
  shows "idle_service (world.truncate w)"
proof -
  note P = poolD [OF pool]
  have "fresh_ok (world.truncate w)"
    using P(2-5,12,13) by (fastforce simp: fresh_ok_def unused_def unused_set_def no_session_def not_le [symmetric])
  moreover have "lst_ok (listeners w) (channels w)" unfolding lst_ok_def
  proof (intro allI impI)
    fix l X assume "listeners w l = Some X"
    then obtain j where j: "j \<in> S" "j < n" "lst_arg X = Some (c0 + j)" "channels w (c0 + j) = Some (listening l)" using P(13) by blast
    with j show "\<exists>c Y. lst_arg X = Some c \<and> channels w c = Some Y \<and> ch_service Y = Some Http_io_service \<and> ch_listen Y \<and> ch_io Y = Some l"
      by (simp add: listening_def idle_channel_def)
  qed
  moreover have "svc_ok (world.truncate w)" using P(5) by (auto simp: svc_ok_def no_session_def intro!: exI [of _ "[]"])
  ultimately show ?thesis using P(5) dns by (simp add: idle_service_def no_session_def)
qed

text \<open>C4.
  The service starts. From a fresh process whose library calls succeed, with any positive number of workers,
  \<open>http_service_init\<close> returns 0, \<open>http_service_start\<close> creates a thread for every worker, and in whatever order
  these threads get their turn, each ends up in the loop of its own event base after it has started to listen. The state is then the
  idle service from which handling events is safe (the previous property).
\<close>

theorem service_starts:
  assumes "nothing_yet w" "0 < n" "sa_family sa = AF_INET"
  shows "\<exists>w1 w2. http_service_init (int n) sa res w = Some (0, w1) \<and> start_workers [0..<n] w1 = Some (0, w2) \<and>
     card (dom (pthreads w2)) = n \<and>
     (\<forall>ts. distinct ts \<and> set ts = dom (pthreads w2) \<longrightarrow>
        (\<exists>w3. run_threads ts w2 = Some w3 \<and> idle_service (world.truncate w3) \<and>
           (\<forall>t \<in> set ts. \<exists>eb a. pthreads w3 t = Some (In_loop eb Worker_Loop (Some a)) \<and> ebases w3 eb = Some False) \<and>
           (\<forall>c. Some c \<in> set (the (svc_listeners w1)) \<longrightarrow> (\<exists>l. channels w3 c = Some (listening l)))))"
proof -
  obtain c0 g w1 where w1: "http_service_init (int n) sa res w = Some (0, w1)" "ready n c0 g sa w1"
    using http_service_init_ready [OF assms(1)] by blast
  let ?h = "fresh w1"
  obtain w2 where w2: "start_workers [0..<n] w1 = Some (0, w2)" "pool n c0 g ?h n {} w2" "svc_sockaddr w2 = svc_sockaddr w1"
    using start_workers_pool [OF ready_pool [OF w1(2)], of n] by auto
  have sa: "sa_family (svc_sockaddr w2) = AF_INET" using w1(2) w2(3) assms(3) by (simp add: ready_def)
  have "card (dom (pthreads w2)) = n" using poolD(14) [OF w2(2)] by (simp add: card_image inj_on_def)
  moreover have "\<exists>w3. run_threads ts w2 = Some w3 \<and> idle_service (world.truncate w3) \<and>
       (\<forall>t \<in> set ts. \<exists>eb a. pthreads w3 t = Some (In_loop eb Worker_Loop (Some a)) \<and> ebases w3 eb = Some False) \<and>
       (\<forall>c. Some c \<in> set (the (svc_listeners w1)) \<longrightarrow> (\<exists>l. channels w3 c = Some (listening l)))"
    if ts: "distinct ts" "set ts = dom (pthreads w2)" for ts
  proof -
    obtain js where js: "ts = map (\<lambda>j. ?h + 2 * j + 1) js" "distinct js" "set js = {..<n}" by (rule threads_of [OF w2(2) ts])
    have "0 \<in> set js" using js(3) assms(2) by simp
    then have "js \<noteq> []" by auto
    then obtain w3 where w3: "run_threads ts w2 = Some w3" "pool n c0 g ?h n (set js) w3" "this_dns w3 \<noteq> None"
      using run_threads_pool [OF w2(2) js(2) _ sa] js(1,3) by fastforce
    note P = poolD [OF w3(2)]
    have "\<exists>eb a. pthreads w3 t = Some (In_loop eb Worker_Loop (Some a)) \<and> ebases w3 eb = Some False" if t: "t \<in> set ts" for t
    proof -
      obtain j where "j < n" "t = ?h + 2 * j + 1" using t js by auto
      then show ?thesis using P(8) P(10) [of j] js(3) by (simp add: workers_at_def thread_at_def)
    qed
    moreover have "\<exists>l. channels w3 c = Some (listening l)" if c: "Some c \<in> set (the (svc_listeners w1))" for c
    proof -
      obtain j where "j < n" "c = c0 + j" using c w1(2) that [of "c - c0"] by (auto simp: ready_def statics_def)
      then show ?thesis using P(11) [of j] js(3) by (auto simp: channel_at_def)
    qed
    ultimately show ?thesis using w3 pool_idle [OF w3(2,3)] by blast
  qed
  ultimately show ?thesis using w1(1) w2(1) by blast
qed

text \<open>A process that has just been started.\<close>

definition blank_program :: "(buffers, nat) program" where
  "blank_program = \<lparr>answers = [], fresh = 1, rwlocks = Map.empty, mutexes = Map.empty, refs = Map.empty, strs = Map.empty,
     ext = (\<lambda>b. ''''), fds = {}, bevs = Map.empty, listeners = Map.empty, channels = Map.empty, this_ebase = None, this_dns = None,
     hsessions = Map.empty, bodies = {}, sessions = Map.empty, dns_requests = Map.empty, resolving = Map.empty,
     lh = List_Store empty_heap, svc_sessions = None, svc_mutex = None, threads = Map.empty, thread_args = Map.empty,
     thread_ids = Map.empty, thread_keys = Map.empty, pthreads = Map.empty, tls = Map.empty, current = 0, signals = [],
     ebases = Map.empty, workers = Map.empty, dnsbases = Map.empty, thread_worker_key = None, main_thread_id = None,
     nworkers = 0, svc_sockaddr = demo_sockaddr, svc_ebase = None, ev_sigterm = None, ev_sigint = None, svc_resolver = '''',
     svc_workers = None, svc_listeners = None, sigevents = Map.empty\<rparr>"

lemma blank_nothing: "nothing_yet blank_program"
  by (simp add: nothing_yet_def blank_program_def heap_rep_empty) (simp add: empty_heap_def)

theorem service_starts_witness:
  "\<exists>w1 w2. http_service_init 4 demo_sockaddr ''8.8.8.8:53'' blank_program = Some (0, w1) \<and>
     start_workers [0..<4] w1 = Some (0, w2) \<and> card (dom (pthreads w2)) = 4"
  using service_starts [OF blank_nothing, of 4 demo_sockaddr "''8.8.8.8:53''"] by (auto simp: demo_sockaddr_def)

end
