(* ===== verification/Webserver.thy ===== *)
theory Webserver
  imports Http_Service
begin

section \<open>The program: command line and main (tigera\_webserver.c)\<close>

text \<open>
  \<open>getopt\<close>, \<open>sscanf\<close> and \<open>inet_pton\<close> are the C library's, written out as far as \<open>process_args\<close>
  uses them (\<open>getopt\<close> as in glibc, which skips arguments that are no options). The static
  variables of the file are a record, \<open>config\<close>; \<open>addr4\<close> is its first two fields. Diagnostic
  output is left out. \<open>None\<close> is undefined behaviour, here a number that \<open>sscanf\<close> cannot represent.
\<close>

subsection \<open>The C library\<close>

text \<open>\<open>-x value\<close>, or what \<open>getopt\<close> answers with a question mark.\<close>

datatype opt = Opt char string | Bad_Opt

definition OPTIONS_WITH_ARG :: "char set" where
  "OPTIONS_WITH_ARG = set ''apndrh''"

text \<open>The first bad option ends the program, so the sequence is given up to it.\<close>

fun getopts :: "string list \<Rightarrow> opt list" where
  "getopts [] = []"
| "getopts (a # as) =
     (if a = ''--'' then []
      else (case a of
              m # c # rest \<Rightarrow>
                (if m \<noteq> CHR ''-'' then getopts as
                 else if c \<notin> OPTIONS_WITH_ARG then [Bad_Opt]
                 else if rest \<noteq> [] then Opt c rest # getopts as
                 else (case as of [] \<Rightarrow> [Bad_Opt] | v # vs \<Rightarrow> Opt c v # getopts vs))
            | _ \<Rightarrow> getopts as))"

definition is_digit :: "char \<Rightarrow> bool" where
  "is_digit c \<longleftrightarrow> 48 \<le> (of_char c :: nat) \<and> (of_char c :: nat) \<le> 57"

definition is_space :: "char \<Rightarrow> bool" where
  "is_space c \<longleftrightarrow> (of_char c :: nat) = 32 \<or> 9 \<le> (of_char c :: nat) \<and> (of_char c :: nat) \<le> 13"

definition digits_value :: "string \<Rightarrow> int" where
  "digits_value = foldl (\<lambda>n c. 10 * n + (int (of_char c) - 48)) 0"

text \<open>A decimal number as \<open>%d\<close> and \<open>%hu\<close> read it: white space, a sign, digits; what follows is ignored.\<close>

definition scan_decimal :: "string \<Rightarrow> int option" where
  "scan_decimal s =
     (let t = dropWhile is_space s;
          neg = (t \<noteq> [] \<and> hd t = CHR ''-'');
          u = (if t \<noteq> [] \<and> (hd t = CHR ''-'' \<or> hd t = CHR ''+'') then tl t else t);
          ds = takeWhile is_digit u
      in if ds = [] then None else Some (if neg then - digits_value ds else digits_value ds))"

text \<open>The value of \<open>inet_pton(AF_INET, s)\<close>: four numbers up to 255 without leading zeros.\<close>

fun split_dots :: "string \<Rightarrow> string list" where
  "split_dots [] = [[]]"
| "split_dots (c # s) =
     (if c = CHR ''.'' then [] # split_dots s
      else (case split_dots s of [] \<Rightarrow> [[c]] | f # fs \<Rightarrow> (c # f) # fs))"

definition octet :: "string \<Rightarrow> nat option" where
  "octet s = (if s \<noteq> [] \<and> (\<forall>c \<in> set s. is_digit c) \<and> (hd s = CHR ''0'' \<longrightarrow> s = ''0'') \<and> digits_value s \<le> 255
              then Some (nat (digits_value s)) else None)"

definition inet_pton4 :: "string \<Rightarrow> nat list option" where
  "inet_pton4 s = (let os = map octet (split_dots s) in if length os = 4 \<and> None \<notin> set os then Some (map the os) else None)"

definition htons :: "16 word \<Rightarrow> 16 word" where
  "htons p = or (push_bit 8 p) (drop_bit 8 p)"

subsection \<open>The static variables\<close>

record config =
  sin_addr :: "nat list"
  sin_port :: "16 word"
  cf_nworkers :: int
  background :: bool
  resolver :: "string option"

definition strdup_opt :: "string \<Rightarrow> 'm mem_scheme \<Rightarrow> string option \<times> 'm mem_scheme" where
  "strdup_opt s w = (let (ok, w1) = ask w in (if ok then Some s else None, w1))"

subsection \<open>Command line\<close>

definition process_option ::
  "char \<Rightarrow> string \<Rightarrow> config \<Rightarrow> 'm mem_scheme \<Rightarrow> ((int \<times> config) \<times> 'm mem_scheme) option" where
  "process_option c v cf w =
     (if c = CHR ''a'' then
        (case inet_pton4 v of None \<Rightarrow> Some ((-1, cf), w) | Some a \<Rightarrow> Some ((0, cf\<lparr>sin_addr := a\<rparr>), w))
      else if c = CHR ''p'' then
        (case scan_decimal v of
           None \<Rightarrow> Some ((-1, cf), w)
         | Some n \<Rightarrow> (if 0 \<le> n \<and> n < 65536 then Some ((0, cf\<lparr>sin_port := htons (word_of_int n)\<rparr>), w) else None))
      else if c = CHR ''n'' then
        (case scan_decimal v of
           None \<Rightarrow> Some ((-1, cf), w)
         | Some n \<Rightarrow> (if - (2 ^ 31) \<le> n \<and> n < 2 ^ 31 then Some ((0, cf\<lparr>cf_nworkers := n\<rparr>), w) else None))
      else if c = CHR ''d'' then Some ((0, cf\<lparr>background := True\<rparr>), w)
      else if c = CHR ''r'' then
        (let (r, w1) = strdup_opt v w in Some ((0, cf\<lparr>resolver := r\<rparr>), w1))
      else Some ((-1, cf), w))"

fun process_opts :: "opt list \<Rightarrow> config \<Rightarrow> 'm mem_scheme \<Rightarrow> ((int \<times> config) \<times> 'm mem_scheme) option" where
  "process_opts [] cf w = Some ((0, cf), w)"
| "process_opts (Bad_Opt # os) cf w = Some ((-1, cf), w)"
| "process_opts (Opt c v # os) cf w =
     do { ((r, cf1), w1) \<leftarrow> process_option c v cf w;
          if r < 0 then Some ((r, cf1), w1) else process_opts os cf1 w1 }"

definition process_args :: "string list \<Rightarrow> config \<Rightarrow> 'm mem_scheme \<Rightarrow> ((int \<times> config) \<times> 'm mem_scheme) option" where
  "process_args args cf w = process_opts (getopts args) cf w"

subsection \<open>main\<close>

text \<open>
  \<open>daemonize\<close>: the code the process exits with, or it goes on as the child. The questions: does
  \<open>fork\<close> succeed, is this the child, do \<open>setsid\<close> and \<open>chdir\<close> succeed.
\<close>

definition daemonize :: "'m mem_scheme \<Rightarrow> int option \<times> 'm mem_scheme" where
  "daemonize w =
     (let (forked, w1) = ask w
      in if \<not> forked then (Some 1, w1)
      else let (child, w2) = ask w1
      in if \<not> child then (Some 0, w2)
      else let (sid, w3) = ask w2
      in if \<not> sid then (Some 1, w3)
      else let (dir, w4) = ask w3
      in if \<not> dir then (Some 1, w4) else (None, w4))"

definition sockaddr_of :: "config \<Rightarrow> sockaddr" where
  "sockaddr_of cf = \<lparr>sa_family = AF_INET, sa_address = map char_of (sin_addr cf), sa_port = unat (sin_port cf)\<rparr>"

definition default_config :: "string option \<Rightarrow> config" where
  "default_config r = \<lparr>sin_addr = [127, 0, 0, 1], sin_port = htons 5000, cf_nworkers = 4, background = False, resolver = r\<rparr>"

text \<open>The result is the exit code of the process; \<open>main\<close> ignores what \<open>http_service_init\<close> returns.\<close>

definition run_service ::
  "(('e, 'p, 'm) prog \<Rightarrow> ('e, 'p, 'm) prog option) \<Rightarrow> config \<Rightarrow> string \<Rightarrow> ('e, 'p, 'm) prog \<Rightarrow> (int \<times> ('e, 'p, 'm) prog) option" where
  "run_service busy cf res w =
     do { (r, w1) \<leftarrow> http_service_init (cf_nworkers cf) (sockaddr_of cf) res w;
          (r, w2) \<leftarrow> http_service_start busy w1;
          w3 \<leftarrow> http_service_fini w2;
          Some (0, w3) }"

definition main ::
  "(('e, 'p, 'm) prog \<Rightarrow> ('e, 'p, 'm) prog option) \<Rightarrow> string list \<Rightarrow> ('e, 'p, 'm) prog \<Rightarrow> (int \<times> ('e, 'p, 'm) prog) option" where
  "main busy args w =
     do { let (r, w1) = strdup_opt ''8.8.8.8:53'' w;
          ((ret, cf), w2) \<leftarrow> process_args args (default_config r) w1;
          if ret < 0 then Some (1, w2)
          else (case resolver cf of
            None \<Rightarrow> Some (1, w2)
          | Some res \<Rightarrow>
              (if background cf
               then (let (code, w3) = daemonize w2
                     in (case code of Some c \<Rightarrow> Some (c, w3) | None \<Rightarrow> run_service busy cf res w3))
               else run_service busy cf res w2)) }"

subsection \<open>Reading numbers\<close>

lemma digit_char: "n < 10 \<Longrightarrow> is_digit (digit n) \<and> \<not> is_space (digit n) \<and> (of_char (digit n) :: nat) = 48 + n"
  by (simp add: is_digit_def is_space_def digit_code)

lemma digits_value_snoc: "digits_value (s @ [c]) = 10 * digits_value s + (int (of_char c) - 48)"
  by (simp add: digits_value_def)

lemma decimal_value: "digits_value (decimal n) = int n \<and> (\<forall>c \<in> set (decimal n). is_digit c \<and> \<not> is_space c) \<and> decimal n \<noteq> []"
proof (induction n rule: less_induct)
  case (less n)
  show ?case
  proof (cases "n < 10")
    case True
    then show ?thesis using digit_char [OF True] by (simp add: decimal_small digits_value_def)
  next
    case False
    then have "digits_value (decimal (n div 10)) = int (n div 10) \<and> (\<forall>c \<in> set (decimal (n div 10)). is_digit c \<and> \<not> is_space c)"
      using less.IH [of "n div 10"] by simp
    with False digit_char [of "n mod 10"] show ?thesis by (auto simp: decimal_step digits_value_snoc of_nat_div of_nat_mod)
  qed
qed

lemma scan_decimal_decimal:
  assumes "rest = [] \<or> \<not> is_digit (hd rest)"
  shows "scan_decimal (decimal n @ rest) = Some (int n)"
proof -
  obtain c s where c: "decimal n = c # s" using decimal_value [of n] by (cases "decimal n") auto
  have d: "is_digit c" "\<not> is_space c" using decimal_value [of n] c by auto
  have "c \<noteq> CHR ''-''" "c \<noteq> CHR ''+''" using d(1) by (auto simp: is_digit_def)
  moreover have "dropWhile is_space (decimal n @ rest) = decimal n @ rest" using c d by simp
  moreover have "takeWhile is_digit (decimal n @ rest) = decimal n"
    using decimal_value [of n] assms by (cases rest) (auto simp: takeWhile_append2)
  ultimately show ?thesis using c decimal_value [of n] by (simp add: scan_decimal_def)
qed

subsection \<open>What the command line means\<close>

text \<open>The options whose value is accepted, and the last value given for a letter.\<close>

fun good_option :: "opt \<Rightarrow> bool" where
  "good_option Bad_Opt = False"
| "good_option (Opt c v) =
     (if c = CHR ''a'' then inet_pton4 v \<noteq> None
      else if c = CHR ''p'' then (case scan_decimal v of None \<Rightarrow> False | Some n \<Rightarrow> 0 \<le> n \<and> n < 65536)
      else if c = CHR ''n'' then (case scan_decimal v of None \<Rightarrow> False | Some n \<Rightarrow> - (2 ^ 31) \<le> n \<and> n < 2 ^ 31)
      else c = CHR ''d'' \<or> c = CHR ''r'')"

text \<open>A number \<open>sscanf\<close> reads but the variable cannot hold.\<close>

fun overflow_option :: "opt \<Rightarrow> bool" where
  "overflow_option Bad_Opt = False"
| "overflow_option (Opt c v) =
     (if c = CHR ''p'' then (case scan_decimal v of None \<Rightarrow> False | Some n \<Rightarrow> n < 0 \<or> 65536 \<le> n)
      else if c = CHR ''n'' then (case scan_decimal v of None \<Rightarrow> False | Some n \<Rightarrow> n < - (2 ^ 31) \<or> 2 ^ 31 \<le> n) else False)"

fun last_value :: "char \<Rightarrow> opt list \<Rightarrow> string option" where
  "last_value c [] = None"
| "last_value c (Bad_Opt # os) = last_value c os"
| "last_value c (Opt d v # os) =
     (case last_value c os of Some u \<Rightarrow> Some u | None \<Rightarrow> if d = c then Some v else None)"

definition chosen :: "'a \<Rightarrow> (string \<Rightarrow> 'a) \<Rightarrow> string option \<Rightarrow> 'a" where
  "chosen x f v = (case v of None \<Rightarrow> x | Some s \<Rightarrow> f s)"

definition configured :: "opt list \<Rightarrow> config \<Rightarrow> config \<Rightarrow> bool" where
  "configured os cf cf' \<longleftrightarrow>
     sin_addr cf' = chosen (sin_addr cf) (\<lambda>v. the (inet_pton4 v)) (last_value CHR ''a'' os) \<and>
     sin_port cf' = chosen (sin_port cf) (\<lambda>v. htons (word_of_int (the (scan_decimal v)))) (last_value CHR ''p'' os) \<and>
     cf_nworkers cf' = chosen (cf_nworkers cf) (\<lambda>v. the (scan_decimal v)) (last_value CHR ''n'' os) \<and>
     background cf' = chosen (background cf) (\<lambda>v. True) (last_value CHR ''d'' os) \<and>
     (resolver cf' = chosen (resolver cf) Some (last_value CHR ''r'' os) \<or> resolver cf' = None \<and> last_value CHR ''r'' os \<noteq> None)"

lemma good_option_runs:
  "good_option (Opt c v) \<Longrightarrow> \<exists>cf1 w1. process_option c v cf w = Some ((0, cf1), w1) \<and> configured [Opt c v] cf cf1"
  by (auto simp: process_option_def configured_def chosen_def strdup_opt_def ask_def Let_def split: if_splits option.splits)

lemma configured_Cons:
  assumes "configured [Opt c v] cf cf1" "configured os cf1 cf2"
  shows "configured (Opt c v # os) cf cf2"
proof -
  have step: "chosen x f (last_value d (Opt c v # os)) = chosen (chosen x f (last_value d [Opt c v])) f (last_value d os)"
    for d and x :: 'a and f by (simp add: chosen_def split: option.split)
  have "last_value CHR ''r'' (Opt c v # os) = None \<longleftrightarrow> last_value CHR ''r'' [Opt c v] = None \<and> last_value CHR ''r'' os = None"
    by (simp split: option.split)
  then show ?thesis using assms unfolding configured_def step by (auto simp: chosen_def split: option.split)
qed

lemma bad_option_fails:
  "\<not> good_option (Opt c v) \<Longrightarrow> \<not> overflow_option (Opt c v) \<Longrightarrow> process_option c v cf w = Some ((-1, cf), w)"
  by (auto simp: process_option_def split: option.splits if_splits)

text \<open>C38.
  What the command line does. When every option is well formed, \<open>process_args\<close> returns 0 and every setting has the
  value of the last option for it, or its default when there is none (a copy of the resolver's address
  that cannot be allocated leaves it unset). When an option is bad and the numbers before it
  fit their variables, it returns -1, so that \<open>main\<close> stops.
\<close>

theorem process_args_correct:
  fixes w :: "'m mem_scheme"
  shows "((\<forall>x \<in> set (getopts args). good_option x) \<longrightarrow>
       (\<exists>cf' w'. process_args args cf w = Some ((0, cf'), w') \<and> configured (getopts args) cf cf')) \<and>
     ((\<exists>x \<in> set (getopts args). \<not> good_option x) \<longrightarrow> (\<forall>y \<in> set (getopts args). \<not> overflow_option y) \<longrightarrow>
       (\<exists>cf' w'. process_args args cf w = Some ((-1, cf'), w')))"
proof -
  have good: "\<forall>x \<in> set os. good_option x \<Longrightarrow> \<exists>cf' w'. process_opts os cf w = Some ((0, cf'), w') \<and> configured os cf cf'" for os
  proof (induction os arbitrary: cf w)
    case (Cons x os)
    obtain c v where x: "x = Opt c v" using Cons.prems by (cases x) auto
    obtain cf1 w1 where 1: "process_option c v cf w = Some ((0, cf1), w1)" "configured [Opt c v] cf cf1"
      using good_option_runs [of c v cf w] Cons.prems x by auto
    obtain cf2 w2 where 2: "process_opts os cf1 w1 = Some ((0, cf2), w2)" "configured os cf1 cf2"
      using Cons.IH [of cf1 w1] Cons.prems by auto
    from configured_Cons [OF 1(2) 2(2)] 1(1) 2(1) x show ?case by simp
  qed (simp add: configured_def chosen_def)
  have bad: "x \<in> set os \<Longrightarrow> \<not> good_option x \<Longrightarrow> \<forall>y \<in> set os. \<not> overflow_option y \<Longrightarrow>
      \<exists>cf' w'. process_opts os cf w = Some ((-1, cf'), w')" for os x
  proof (induction os arbitrary: cf w)
    case (Cons y os)
    show ?case
    proof (cases y)
      case (Opt c v)
      show ?thesis
      proof (cases "good_option y")
        case True
        then have "x \<in> set os" using Cons.prems by auto
        with Cons.IH Cons.prems(2,3) have "\<exists>cf' w'. process_opts os cf1 w1 = Some ((-1, cf'), w')" for cf1 and w1 :: "'m mem_scheme" by auto
        moreover obtain cf1 w1 where "process_option c v cf w = Some ((0, cf1), w1)"
          using good_option_runs [of c v cf w] True Opt by auto
        ultimately show ?thesis using Opt by auto
      next
        case False
        then show ?thesis using bad_option_fails [of c v cf w] Cons.prems(3) Opt by auto
      qed
    qed simp
  qed simp
  show ?thesis unfolding process_args_def by (intro conjI impI, erule good, erule bexE, erule (1) bad, assumption)
qed

theorem process_args_correct_witness:
  "\<exists>cf' w'. process_args [''-p'', ''8080'', ''-n2'', ''-a'', ''10.0.0.1''] (default_config None) empty_heap = Some ((0, cf'), w') \<and>
     sin_port cf' = htons 8080 \<and> cf_nworkers cf' = 2 \<and> sin_addr cf' = [10, 0, 0, 1] \<and> \<not> background cf'"
proof -
  have os: "getopts [''-p'', ''8080'', ''-n2'', ''-a'', ''10.0.0.1''] =
      [Opt CHR ''p'' ''8080'', Opt CHR ''n'' ''2'', Opt CHR ''a'' ''10.0.0.1'']"
    by (simp add: OPTIONS_WITH_ARG_def)
  have v: "scan_decimal ''8080'' = Some 8080" "scan_decimal ''2'' = Some 2" "inet_pton4 ''10.0.0.1'' = Some [10, 0, 0, 1]"
    by code_simp+
  have "\<forall>x \<in> set (getopts [''-p'', ''8080'', ''-n2'', ''-a'', ''10.0.0.1'']). good_option x"
    unfolding os by (simp add: v)
  with process_args_correct [of "[''-p'', ''8080'', ''-n2'', ''-a'', ''10.0.0.1'']" "default_config None" empty_heap]
  obtain cf' w' where "process_args [''-p'', ''8080'', ''-n2'', ''-a'', ''10.0.0.1''] (default_config None) empty_heap = Some ((0, cf'), w')"
    "configured (getopts [''-p'', ''8080'', ''-n2'', ''-a'', ''10.0.0.1'']) (default_config None) cf'"
    by blast
  then show ?thesis unfolding os by (auto simp: configured_def chosen_def v default_config_def)
qed

text \<open>
  The option \<open>-d\<close>, which the usage text and the README give without an argument, takes one: alone it is rejected and the
  program ends with code 1; followed by another option it swallows it, so the port asked for is ignored.
\<close>

theorem daemon_option_takes_argument:
  "process_args [''-d''] cf w = Some ((-1, cf), w) \<and>
   process_args [''-d'', ''-p'', ''80''] cf w = Some ((0, cf\<lparr>background := True\<rparr>), w) \<and>
   (\<exists>w'. main busy [''-d''] p = Some (1, w'))"
  by (simp_all add: process_args_def OPTIONS_WITH_ARG_def process_option_def main_def strdup_opt_def ask_def Let_def)

text \<open>C39.
  Numbers on the command line read back as they are written: a decimal, whatever follows it up to a digit, is read as
  its value, so every port from 0 to 65535 can be given, and the port is stored in network order,
  which the conversion undoes.
\<close>

theorem port_roundtrip:
  "htons (htons p) = p \<and> (\<exists>cf'. process_args [''-p'', decimal (unat p)] cf w = Some ((0, cf'), w) \<and> htons (sin_port cf') = p)"
proof -
  have h: "htons (htons p) = p" for p
    by (rule bit_word_eqI) (auto simp: htons_def bit_simps)
  have "scan_decimal (decimal (unat p)) = Some (int (unat p))" using scan_decimal_decimal [of "[]" "unat p"] by simp
  moreover have "int (unat p) < 65536" using unsigned_less [of p, where 'a = int] by simp
  ultimately show ?thesis
    by (simp add: process_args_def OPTIONS_WITH_ARG_def process_option_def h)
qed

end
