(* ===== verification/Service_Stop.thy ===== *)
theory Service_Stop
  imports Service_Start Webserver
begin

section \<open>Stopping the service\<close>

text \<open>
  What happens at \<open>SIGTERM\<close>: \<open>http_service_stop\<close> ends the loop of every worker and joins its
  thread, and \<open>http_service_fini\<close> releases the sessions that are left, the listeners, the workers
  and the static objects. Together with \<open>Service_Start\<close> and the safety of the event loop this gives
  the whole run of \<open>main\<close>.
\<close>

subsection \<open>A world in its program\<close>

definition with_world :: "('e, 'p) world \<Rightarrow> ('e, 'p, 'm) prog \<Rightarrow> ('e, 'p, 'm) prog" where
  "with_world v w = world.extend v (world.more w)"

lemma with_world_select [simp]:
  "answers (with_world v w) = answers v" "fresh (with_world v w) = fresh v" "bevs (with_world v w) = bevs v"
  "listeners (with_world v w) = listeners v" "channels (with_world v w) = channels v" "hsessions (with_world v w) = hsessions v"
  "sessions (with_world v w) = sessions v" "fds (with_world v w) = fds v"
  "svc_sessions (with_world v w) = svc_sessions v" "lh (with_world v w) = lh v"
  "threads (with_world v w) = threads w" "thread_args (with_world v w) = thread_args w" "thread_ids (with_world v w) = thread_ids w"
  "thread_keys (with_world v w) = thread_keys w" "pthreads (with_world v w) = pthreads w" "tls (with_world v w) = tls w"
  "ebases (with_world v w) = ebases w" "workers (with_world v w) = workers w" "dnsbases (with_world v w) = dnsbases w"
  "thread_worker_key (with_world v w) = thread_worker_key w" "main_thread_id (with_world v w) = main_thread_id w"
  "nworkers (with_world v w) = nworkers w" "svc_ebase (with_world v w) = svc_ebase w" "ev_sigterm (with_world v w) = ev_sigterm w"
  "ev_sigint (with_world v w) = ev_sigint w" "svc_workers (with_world v w) = svc_workers w"
  "svc_listeners (with_world v w) = svc_listeners w" "sigevents (with_world v w) = sigevents w"
  by (cases w, simp add: with_world_def world.extend_def)+

lemma truncate_with_world [simp]: "world.truncate (with_world v w) = v"
  by (simp add: with_world_def world.truncate_def world.extend_def)

lemma with_world_twice [simp]: "with_world v' (with_world v w) = with_world v' w"
  by (simp add: with_world_def world.extend_def)

lemma with_world_same [simp]: "with_world (world.truncate w) w = w"
  by (cases w) (simp add: with_world_def world.extend_def world.truncate_def)

lemma in_world_runs: "f (world.truncate w) = Some v \<Longrightarrow> in_world f w = Some (with_world v w)"
  by (simp add: in_world_def with_world_def)

subsection \<open>The sessions\<close>

lemma free_sessions_runs:
  "seg (nodes (store_heap (lh w))) c p ns None \<Longrightarrow> map snd ns = map Some ds \<Longrightarrow> distinct ds \<Longrightarrow> set ds = dom (sessions w) \<Longrightarrow>
   core (world.truncate w) \<Longrightarrow>
   \<exists>v. free_sessions p w = Some (with_world v w) \<and> core v \<and> sessions v = Map.empty \<and> same_env (world.truncate w) v"
proof (induction ns arbitrary: c p w ds)
  case Nil
  have "free_sessions p w = Some w" "sessions w = Map.empty"
    using Nil(1,2,4) by (simp_all add: free_sessions.simps [of None] dom_def set_eq_iff fun_eq_iff)
  then show ?case using Nil.prems(5) by (intro exI [of _ "world.truncate w"]) simp
next
  case (Cons x ns)
  obtain n d where x: "x = (n, d)" by fastforce
  obtain a ds' where ds: "ds = a # ds'" "d = Some a" "map snd ns = map Some ds'"
    using Cons.prems(2) x by (cases ds) auto
  obtain nd where nd: "p = Some n" "nodes (store_heap (lh w)) n = Some nd" "n_data nd = Some a"
    "seg (nodes (store_heap (lh w))) (Next n) (n_next nd) ns None"
    using Cons.prems(1) x ds(2) by (auto split: option.splits)
  have "a \<in> dom (sessions w)" using Cons.prems(4) ds(1) by auto
  then obtain s where "sessions (world.truncate w) a = Some s" by auto
  from session_free_runs [OF Cons.prems(5) this] obtain v1 where v1: "session_free (Some a) (world.truncate w) = Some v1"
    "core v1" "keeps a (world.truncate w) v1" "sessions v1 a = None" by (auto simp: runs_def)
  let ?w1 = "with_world v1 w"
  have step: "free_sessions p w = free_sessions (n_next nd) ?w1"
    using nd in_world_runs [of "session_free (Some a)", OF v1(1)] by (simp add: free_sessions.simps [of "Some n"])
  have "sessions v1 y = (if y = a then None else sessions w y)" for y
    using v1(3,4) by (simp add: keeps_def others_def)
  then have "dom (sessions v1) = dom (sessions w) - {a}" by (simp add: dom_def set_eq_iff)
  moreover have "set ds' = set ds - {a}" using Cons.prems(3) ds(1) by simp
  ultimately have "set ds' = dom (sessions ?w1)" using Cons.prems(4) by simp
  moreover have "seg (nodes (store_heap (lh ?w1))) (Next n) (n_next nd) ns None"
    using nd(4) v1(3) by (simp add: keeps_def same_env_def)
  ultimately obtain v where "free_sessions (n_next nd) ?w1 = Some (with_world v ?w1)" "core v" "sessions v = Map.empty"
    "same_env (world.truncate ?w1) v"
    using Cons.IH [of ?w1 "Next n" "n_next nd" ds'] ds(1,3) Cons.prems(3) v1(2) by auto
  with step v1(3) show ?case by (auto simp: keeps_def intro: same_env_trans)
qed

text \<open>The sessions that are left at the end, and their list.\<close>

lemma release_sessions:
  assumes svc: "svc_ok (world.truncate w)" and core: "core (world.truncate w)"
  obtains l head v h where "svc_sessions w = Some l" "list_head l (store_heap (lh w)) = Some head"
    "free_sessions head w = Some (with_world v w)" "core v" "sessions v = Map.empty" "same_env (world.truncate w) v"
    "list_free (svc_sessions v) (store_heap (lh v)) = Some h"
proof -
  obtain l ds where l: "svc_sessions w = Some l" "list_queue.holds (store_heap (lh w)) l (map Some ds)" "distinct ds"
    "set ds = dom (sessions w)"
    using svc by (auto simp: svc_ok_def)
  then obtain M ns where M: "heap_rep (store_heap (lh w)) M" "M l = Some ns" "map snd ns = map Some ds"
    by (auto simp: list_queue.holds_def queue_rep_def)
  obtain L where L: "hlists (store_heap (lh w)) l = Some L" "seg (nodes (store_heap (lh w))) (Head l) (l_head L) ns None"
    using list_repE [OF heap_rep_list [OF M(1,2)]] by metis
  obtain v where v: "free_sessions (l_head L) w = Some (with_world v w)" "core v" "sessions v = Map.empty" "same_env (world.truncate w) v"
    using free_sessions_runs [OF L(2) M(3) l(3,4) core] by blast
  obtain h1 where h1: "list_drain l (store_heap (lh w)) = Some h1" "heap_rep h1 (M(l \<mapsto> after_null ns))"
    using list_drain_heap [OF M(1,2)] by blast
  have "l \<in> dom (hlists h1)" using heap_rep_lists [OF h1(2)] by simp
  then obtain L1 where "hlists h1 l = Some L1" by auto
  then have "list_free (svc_sessions v) (store_heap (lh v)) = Some (h1\<lparr>hlists := (hlists h1)(l := None)\<rparr>)"
    using v(4) l(1) h1(1) by (simp add: list_free_def same_env_def)
  with l(1) L(1) v show thesis by (intro that [of l "l_head L" v]) (simp_all add: list_head_def)
qed

subsection \<open>The listeners and the workers\<close>

text \<open>A channel that listens and its listener.\<close>

definition listens :: "('e, 'p, 'm) prog \<Rightarrow> addr \<Rightarrow> bool" where
  "listens w c \<longleftrightarrow> (\<exists>C l X. channels w c = Some C \<and> ch_listen C \<and> ch_io C = Some l \<and> listeners w l = Some X \<and> lst_arg X = Some c)"

lemma restrict_step: "m(a := None) |` (- B) = m |` (- insert a B)"
  by (auto simp: restrict_map_def fun_eq_iff)

lemma upt_image: "m < n \<Longrightarrow> f ` {m..<n} = insert (f m) (f ` {Suc m..<n})" for m n :: nat
proof -
  assume "m < n"
  then have "{m..<n} = insert m {Suc m..<n}" by auto
  then show ?thesis by simp
qed

lemma free_listeners_runs:
  fixes w :: "('e, 'p, 'm) prog"
  shows "svc_listeners w = Some ls \<Longrightarrow> length ls = m + k \<Longrightarrow> \<forall>j \<in> {m..<m + k}. ls ! j = Some (c0 + j) \<and> listens w (c0 + j) \<Longrightarrow>
    \<forall>l X. listeners w l = Some X \<longrightarrow> (\<exists>j \<in> {m..<m + k}. \<exists>C. channels w (c0 + j) = Some C \<and> ch_io C = Some l) \<Longrightarrow>
    \<exists>C F LS. free_listeners [m..<m + k] w = Some (w\<lparr>channels := C, listeners := Map.empty, fds := F, svc_listeners := LS\<rparr>)"
proof (induction k arbitrary: m w ls)
  case 0
  then have "listeners w l = None" for l by (cases "listeners w l") auto
  then have "w = w\<lparr>channels := channels w, listeners := Map.empty, fds := fds w, svc_listeners := svc_listeners w\<rparr>"
    by (auto intro!: program.equality)
  then show ?case by (intro exI [of _ "channels w"] exI [of _ "fds w"] exI [of _ "svc_listeners w"]) simp
next
  case (Suc k)
  have m: "ls ! m = Some (c0 + m)" "listens w (c0 + m)" "m < length ls" using Suc.prems(2,3) by auto
  then obtain C l X where C: "channels w (c0 + m) = Some C" "ch_listen C" "ch_io C = Some l" "listeners w l = Some X" "lst_arg X = Some (c0 + m)"
    by (auto simp: listens_def)
  let ?w1 = "w\<lparr>channels := (channels w)(c0 + m := None), listeners := (listeners w)(l := None), fds := fds w - {lst_fd X},
    svc_listeners := Some (ls[m := None])\<rparr>"
  have step: "free_listeners [m..<m + Suc k] w = free_listeners [Suc m..<Suc m + k] ?w1"
    using m Suc.prems(1) C
    by (auto simp: upt_rec [of m] channel_free_def tcp_socket_free_def evconnlistener_free_def evutil_closesocket_def set_channel_def
        simp del: upt_Suc intro!: arg_cong [where f = "free_listeners _"] program.equality)
  have keep: "listens ?w1 (c0 + j)" if j: "listens w (c0 + j)" "j \<noteq> m" for j
  proof -
    obtain C' l' X' where "channels w (c0 + j) = Some C'" "ch_listen C'" "ch_io C' = Some l'" "listeners w l' = Some X'" "lst_arg X' = Some (c0 + j)"
      using j(1) by (auto simp: listens_def)
    moreover from this have "l' \<noteq> l" using C j(2) by auto
    ultimately show ?thesis using j(2) by (auto simp: listens_def)
  qed
  have "\<exists>C F LS. free_listeners [Suc m..<Suc m + k] ?w1 = Some (?w1\<lparr>channels := C, listeners := Map.empty, fds := F, svc_listeners := LS\<rparr>)"
  proof (rule Suc.IH)
    show "\<forall>j \<in> {Suc m..<Suc m + k}. (ls[m := None]) ! j = Some (c0 + j) \<and> listens ?w1 (c0 + j)"
      using Suc.prems(3) keep by auto
    show "\<forall>l X. listeners ?w1 l = Some X \<longrightarrow> (\<exists>j \<in> {Suc m..<Suc m + k}. \<exists>C. channels ?w1 (c0 + j) = Some C \<and> ch_io C = Some l)"
    proof (intro allI impI)
      fix l' X' assume l': "listeners ?w1 l' = Some X'"
      then obtain j C' where j: "j \<in> {m..<m + Suc k}" "channels w (c0 + j) = Some C'" "ch_io C' = Some l'"
        using Suc.prems(4) by (auto split: if_splits)
      moreover from this have "j \<noteq> m" using C l' by auto
      ultimately show "\<exists>j \<in> {Suc m..<Suc m + k}. \<exists>C. channels ?w1 (c0 + j) = Some C \<and> ch_io C = Some l'"
        by (intro bexI [of _ j]) auto
    qed
  qed (use Suc.prems(2) in simp_all)
  with step show ?case by fastforce
qed

text \<open>The parts of worker \<open>j\<close>.\<close>

definition whole :: "addr \<Rightarrow> addr \<Rightarrow> ('e, 'p, 'm) prog \<Rightarrow> nat \<Rightarrow> bool" where
  "whole c0 g w j \<longleftrightarrow> workers w (g + 4 * j) = Some (worker_at (g + 4 * j) (c0 + j)) \<and> ebases w (g + 4 * j + 1) \<noteq> None \<and>
     dnsbases w (g + 4 * j + 2) \<noteq> None \<and> threads w (g + 4 * j + 3) \<noteq> None"

lemma free_workers_runs:
  fixes w :: "('e, 'p, 'm) prog"
  shows "svc_workers w = Some ks \<Longrightarrow> m + k \<le> length ks \<Longrightarrow> \<forall>j \<in> {m..<m + k}. ks ! j = Some (g + 4 * j) \<and> whole c0 g w j \<Longrightarrow>
    \<exists>LS. free_workers [m..<m + k] w = Some (w\<lparr>workers := workers w |` (- (\<lambda>j. g + 4 * j) ` {m..<m + k}),
        ebases := ebases w |` (- (\<lambda>j. g + 4 * j + 1) ` {m..<m + k}), dnsbases := dnsbases w |` (- (\<lambda>j. g + 4 * j + 2) ` {m..<m + k}),
        threads := threads w |` (- (\<lambda>j. g + 4 * j + 3) ` {m..<m + k}), svc_workers := LS\<rparr>)"
proof (induction k arbitrary: m w ks)
  case 0
  then show ?case by (intro exI [of _ "svc_workers w"]) (simp add: restrict_map_def)
next
  case (Suc k)
  have m: "ks ! m = Some (g + 4 * m)" "whole c0 g w m" "m < length ks" using Suc.prems(2,3) by auto
  let ?w1 = "w\<lparr>workers := (workers w)(g + 4 * m := None), ebases := (ebases w)(g + 4 * m + 1 := None),
    dnsbases := (dnsbases w)(g + 4 * m + 2 := None), threads := (threads w)(g + 4 * m + 3 := None), svc_workers := Some (ks[m := None])\<rparr>"
  have step: "free_workers [m..<m + Suc k] w = free_workers [Suc m..<Suc m + k] ?w1"
    using m Suc.prems(1)
    by (auto simp: upt_rec [of m] whole_def worker_at_def worker_free_def evdns_base_free_def event_base_free_def thread_free_def free_at_def
        simp del: upt_Suc intro!: arg_cong [where f = "free_workers _"] program.equality)
  have "\<exists>LS. free_workers [Suc m..<Suc m + k] ?w1 = Some (?w1\<lparr>workers := workers ?w1 |` (- (\<lambda>j. g + 4 * j) ` {Suc m..<Suc m + k}),
        ebases := ebases ?w1 |` (- (\<lambda>j. g + 4 * j + 1) ` {Suc m..<Suc m + k}), dnsbases := dnsbases ?w1 |` (- (\<lambda>j. g + 4 * j + 2) ` {Suc m..<Suc m + k}),
        threads := threads ?w1 |` (- (\<lambda>j. g + 4 * j + 3) ` {Suc m..<Suc m + k}), svc_workers := LS\<rparr>)"
  proof (rule Suc.IH)
    show "\<forall>j \<in> {Suc m..<Suc m + k}. (ks[m := None]) ! j = Some (g + 4 * j) \<and> whole c0 g ?w1 j"
      using Suc.prems(3) by (auto simp: whole_def)
  qed (use Suc.prems(2) in simp_all)
  then obtain LS where "free_workers [Suc m..<Suc m + k] ?w1 = Some (?w1\<lparr>workers := workers ?w1 |` (- (\<lambda>j. g + 4 * j) ` {Suc m..<Suc m + k}),
        ebases := ebases ?w1 |` (- (\<lambda>j. g + 4 * j + 1) ` {Suc m..<Suc m + k}), dnsbases := dnsbases ?w1 |` (- (\<lambda>j. g + 4 * j + 2) ` {Suc m..<Suc m + k}),
        threads := threads ?w1 |` (- (\<lambda>j. g + 4 * j + 3) ` {Suc m..<Suc m + k}), svc_workers := LS\<rparr>)" by blast
  moreover have "f ` {m..<m + Suc k} = insert (f m) (f ` {Suc m..<Suc m + k})" for f :: "nat \<Rightarrow> nat"
    using upt_image [of m "m + Suc k" f] by simp
  ultimately show ?case
    unfolding step by (intro exI [of _ LS]) (simp add: restrict_step del: upt_Suc restrict_fun_upd fun_upd_restrict_conv)
qed

text \<open>The thread of worker \<open>j\<close> waits in the loop.\<close>

definition waiting :: "addr \<Rightarrow> addr \<Rightarrow> addr \<Rightarrow> ('e, 'p, 'm) prog \<Rightarrow> nat \<Rightarrow> bool" where
  "waiting c0 g h w j \<longleftrightarrow> whole c0 g w j \<and>
     threads w (g + 4 * j + 3) = Some \<lparr>th_id = Some (h + 2 * j + 1), th_fn = Worker_Loop\<rparr> \<and>
     pthreads w (h + 2 * j + 1) = Some (In_loop (g + 4 * j + 1) Worker_Loop (Some (g + 4 * j)))"

lemma worker_stop_waiting:
  fixes w :: "('e, 'p, 'm) prog"
  assumes "answers w = []" "waiting c0 g h w j"
  shows "worker_stop http_service_hooks (g + 4 * j) w = Some (0, w\<lparr>ebases := (ebases w)(g + 4 * j + 1 \<mapsto> True),
     pthreads := (pthreads w)(h + 2 * j + 1 := None)\<rparr>)"
  using assms
  by (auto simp: waiting_def whole_def worker_stop_def worker_at_def event_base_loopexit_def ask_nil thread_join_def pthread_join_def
      run_thread_def worker_ends_def worker_loop_end_def Let_def intro!: program.equality)

lemma stop_workers_runs:
  fixes w :: "('e, 'p, 'm) prog"
  shows "answers w = [] \<Longrightarrow> svc_workers w = Some ks \<Longrightarrow> length ks = m + k \<Longrightarrow>
    \<forall>j \<in> {m..<m + k}. ks ! j = Some (g + 4 * j) \<and> waiting c0 g h w j \<Longrightarrow>
    \<exists>E. stop_workers [m..<m + k] w = Some (w\<lparr>ebases := E, pthreads := pthreads w |` (- (\<lambda>j. h + 2 * j + 1) ` {m..<m + k})\<rparr>) \<and>
      dom E = dom (ebases w)"
proof (induction k arbitrary: m w)
  case 0
  then show ?case by (intro exI [of _ "ebases w"]) (simp add: restrict_map_def)
next
  case (Suc k)
  have m: "ks ! m = Some (g + 4 * m)" "waiting c0 g h w m" "m < length ks" using Suc.prems(3,4) by auto
  let ?w1 = "w\<lparr>ebases := (ebases w)(g + 4 * m + 1 \<mapsto> True), pthreads := (pthreads w)(h + 2 * m + 1 := None)\<rparr>"
  have step: "stop_workers [m..<m + Suc k] w = stop_workers [Suc m..<Suc m + k] ?w1"
    using m Suc.prems(2) worker_stop_waiting [OF Suc.prems(1) m(2)] by (simp add: upt_rec [of m] del: upt_Suc)
  have "\<exists>E. stop_workers [Suc m..<Suc m + k] ?w1 =
      Some (?w1\<lparr>ebases := E, pthreads := pthreads ?w1 |` (- (\<lambda>j. h + 2 * j + 1) ` {Suc m..<Suc m + k})\<rparr>) \<and> dom E = dom (ebases ?w1)"
  proof (rule Suc.IH)
    show "\<forall>j \<in> {Suc m..<Suc m + k}. ks ! j = Some (g + 4 * j) \<and> waiting c0 g h ?w1 j"
      using Suc.prems(4) by (auto simp: waiting_def whole_def)
  qed (use Suc.prems in simp_all)
  then obtain E where "stop_workers [Suc m..<Suc m + k] ?w1 =
      Some (?w1\<lparr>ebases := E, pthreads := pthreads ?w1 |` (- (\<lambda>j. h + 2 * j + 1) ` {Suc m..<Suc m + k})\<rparr>)" "dom E = dom (ebases ?w1)" by blast
  moreover have "dom (ebases ?w1) = dom (ebases w)" using m(2) by (auto simp: waiting_def whole_def)
  moreover have "f ` {m..<m + Suc k} = insert (f m) (f ` {Suc m..<Suc m + k})" for f :: "nat \<Rightarrow> nat"
    using upt_image [of m "m + Suc k" f] by simp
  ultimately show ?case
    unfolding step by (intro exI [of _ E]) (simp add: restrict_step del: upt_Suc restrict_fun_upd fun_upd_restrict_conv)
qed

subsection \<open>Stop and release\<close>

text \<open>
  The service at work: the workers at \<open>g\<close> wait in their loops, with threads from \<open>h\<close> on, the listeners are at
  \<open>c0\<close>, and the sessions are in order.
\<close>

definition at_work :: "nat \<Rightarrow> addr \<Rightarrow> addr \<Rightarrow> addr \<Rightarrow> ('e, 'p, 'm) prog \<Rightarrow> bool" where
  "at_work n c0 g h w \<longleftrightarrow> c0 + n \<le> g \<and> statics n c0 w \<and> owned n g w \<and> (\<forall>j < n. waiting c0 g h w j) \<and>
     dom (pthreads w) = (\<lambda>j. h + 2 * j + 1) ` {..<n} \<and> thread_args w = Map.empty \<and>
     (\<forall>j < n. \<exists>l X. listeners w l = Some X \<and> lst_arg X = Some (c0 + j)) \<and>
     (\<forall>l X. listeners w l = Some X \<longrightarrow> (\<exists>j < n. lst_arg X = Some (c0 + j))) \<and>
     core (world.truncate w) \<and> svc_ok (world.truncate w)"

text \<open>All that the program has allocated is released again.\<close>

definition released :: "('e, 'p, 'm) prog \<Rightarrow> bool" where
  "released w \<longleftrightarrow> sessions w = Map.empty \<and> listeners w = Map.empty \<and> workers w = Map.empty \<and> ebases w = Map.empty \<and>
     dnsbases w = Map.empty \<and> threads w = Map.empty \<and> thread_args w = Map.empty \<and> pthreads w = Map.empty \<and>
     thread_ids w = Map.empty \<and> thread_keys w = Map.empty \<and> tls w = Map.empty \<and> sigevents w = Map.empty \<and>
     svc_sessions w = None \<and> svc_listeners w = None \<and> svc_workers w = None \<and> svc_ebase w = None \<and>
     ev_sigterm w = None \<and> ev_sigint w = None \<and> thread_worker_key w = None \<and> main_thread_id w = None"

lemma restrict_dom: "dom m \<subseteq> A \<Longrightarrow> m |` (- A) = Map.empty"
  by (auto simp: restrict_map_def fun_eq_iff)

lemma restrict_dom_insert: "dom m = insert b A \<Longrightarrow> b \<notin> A \<Longrightarrow> (m |` (- A))(b := None) = Map.empty"
  by (auto simp: restrict_map_def fun_eq_iff)

lemma dom_one: "dom m = {a} \<Longrightarrow> \<exists>x. m a = Some x \<and> m(a := None) = Map.empty"
  by (auto simp: dom_def fun_eq_iff)

lemma dom_two:
  assumes "dom m = {a, b}"
  shows "\<exists>x y. m a = Some x \<and> m b = Some y \<and> m(a := None, b := None) = Map.empty"
proof -
  have "a \<in> dom m" "b \<in> dom m" using assms by simp_all
  moreover have "m c = None" if "c \<noteq> a" "c \<noteq> b" for c using that assms by (auto simp: dom_def)
  ultimately show ?thesis by (auto simp: fun_eq_iff)
qed

lemma lst_ok_listens:
  fixes w :: "('e, 'p, 'm) prog"
  assumes "lst_ok (listeners w) (channels w)" "listeners w l = Some X" "lst_arg X = Some c"
  shows "listens w c" "\<exists>C. channels w c = Some C \<and> ch_io C = Some l"
  using assms unfolding lst_ok_def listens_def by fastforce+

lemma at_workD:
  assumes "at_work n c0 g h w"
  shows "c0 + n \<le> g" "statics n c0 w" "owned n g w" "j < n \<Longrightarrow> waiting c0 g h w j"
    "dom (pthreads w) = (\<lambda>j. h + 2 * j + 1) ` {..<n}" "thread_args w = Map.empty"
    "j < n \<Longrightarrow> \<exists>l X. listeners w l = Some X \<and> lst_arg X = Some (c0 + j)"
    "listeners w l = Some X \<Longrightarrow> \<exists>j < n. lst_arg X = Some (c0 + j)"
    "core (world.truncate w)" "svc_ok (world.truncate w)"
  using assms by (simp_all add: at_work_def)

lemma http_service_stop_runs:
  assumes work: "at_work n c0 g h w" and ans: "answers w = []"
  obtains E S where "http_service_stop w = Some (w\<lparr>ebases := E, pthreads := Map.empty, sigevents := S\<rparr>)"
    "dom E = dom (ebases w)" "dom S = dom (sigevents w)"
proof -
  note A = at_workD [OF work]
  have n: "nworkers w = int n" using A(2) by (simp add: statics_def)
  have ks: "svc_workers w = Some (map Some (map (\<lambda>j. g + 4 * j) [0..<n]))" using A(3) by (simp add: owned_def)
  obtain E where E: "stop_workers [0..<0 + n] w = Some (w\<lparr>ebases := E, pthreads := pthreads w |` (- (\<lambda>j. h + 2 * j + 1) ` {0..<0 + n})\<rparr>)"
    "dom E = dom (ebases w)"
    using stop_workers_runs [OF ans ks, of 0 n g c0 h] A(4) by auto
  have gone: "pthreads w |` (- (\<lambda>j. h + 2 * j + 1) ` {0..<0 + n}) = Map.empty"
    by (rule restrict_dom) (use A(5) in auto)
  obtain s1 s2 where s: "ev_sigterm w = Some s1" "ev_sigint w = Some s2" "dom (sigevents w) = {s1, s2}"
    using A(2) unfolding statics_def by blast
  then obtain e1 e2 where e: "sigevents w s1 = Some e1" "sigevents w s2 = Some e2" by blast
  let ?S = "(sigevents w)(s1 \<mapsto> False, s2 \<mapsto> False)"
  have "http_service_stop w = Some (w\<lparr>ebases := E, pthreads := Map.empty, sigevents := ?S\<rparr>)"
    using E(1) gone s e n by (auto simp: http_service_stop_def event_del_def intro!: program.equality)
  moreover have "dom ?S = dom (sigevents w)" using s(3) by auto
  ultimately show thesis by (rule that [OF _ E(2)])
qed

lemma http_service_fini_runs:
  assumes work: "at_work n c0 g h w" and w2: "w2 = w\<lparr>ebases := E, pthreads := Map.empty, sigevents := S\<rparr>"
    and dom: "dom E = dom (ebases w)" "dom S = dom (sigevents w)"
  shows "\<exists>w3. http_service_fini w2 = Some w3 \<and> released w3"
proof -
  note A = at_workD [OF work]
  have tr: "world.truncate w2 = world.truncate w" unfolding w2 by (simp add: world.truncate_def)
  obtain l head v hp where v: "svc_sessions w2 = Some l" "list_head l (store_heap (lh w2)) = Some head"
    "free_sessions head w2 = Some (with_world v w2)" "core v" "sessions v = Map.empty" "same_env (world.truncate w2) v"
    "list_free (svc_sessions v) (store_heap (lh v)) = Some hp"
    using release_sessions [of w2] A(9,10) tr by metis
  let ?w3 = "(with_world v w2)\<lparr>lh := List_Store hp, svc_sessions := None\<rparr>"
  have Q: "listeners ?w3 = listeners w" using v(6) tr by (simp add: same_env_def)
  have ok: "lst_ok (listeners ?w3) (channels ?w3)" using coreD(7) [OF v(4)] by simp
  obtain b s1 s2 where b: "svc_ebase w = Some b" "b < c0" "ebases w b = Some False" "ev_sigterm w = Some s1" "ev_sigint w = Some s2"
    "s1 \<noteq> s2" "dom (sigevents w) = {s1, s2}" using A(2) unfolding statics_def by blast
  obtain p k f i where key: "thread_worker_key w = Some p" "thread_keys w = [p \<mapsto> k]" "tls w = [k \<mapsto> f]"
    "main_thread_id w = Some i" "dom (thread_ids w) = {i}" using A(2) unfolding statics_def by blast
  have n: "nworkers w = int n" "svc_listeners w = Some (map Some [c0..<c0 + n])" using A(2) by (simp_all add: statics_def)
  have "\<exists>C F LS. free_listeners [0..<0 + n] ?w3 = Some (?w3\<lparr>channels := C, listeners := Map.empty, fds := F, svc_listeners := LS\<rparr>)"
  proof (rule free_listeners_runs)
    show "\<forall>j \<in> {0..<0 + n}. (map Some [c0..<c0 + n]) ! j = Some (c0 + j) \<and> listens ?w3 (c0 + j)"
      using A(7) lst_ok_listens(1) [OF ok] Q by fastforce
    show "\<forall>l X. listeners ?w3 l = Some X \<longrightarrow> (\<exists>j \<in> {0..<0 + n}. \<exists>C. channels ?w3 (c0 + j) = Some C \<and> ch_io C = Some l)"
      using A(8) lst_ok_listens(2) [OF ok] Q by fastforce
  qed (use n w2 in simp_all)
  then obtain C F LS where fl: "free_listeners [0..<n] ?w3 = Some (?w3\<lparr>channels := C, listeners := Map.empty, fds := F, svc_listeners := LS\<rparr>)"
    by auto
  let ?w4 = "?w3\<lparr>channels := C, listeners := Map.empty, fds := F, svc_listeners := None\<rparr>"
  have ks: "svc_workers ?w4 = Some (map Some (map (\<lambda>j. g + 4 * j) [0..<n]))" using A(3) w2 by (simp add: owned_def)
  have ebs: "g + 4 * j + 1 \<in> dom E" if "j < n" for j using A(4) [OF that] dom(1) by (auto simp: waiting_def whole_def)
  have "\<exists>LS. free_workers [0..<0 + n] ?w4 = Some (?w4\<lparr>workers := workers ?w4 |` (- (\<lambda>j. g + 4 * j) ` {0..<0 + n}),
        ebases := ebases ?w4 |` (- (\<lambda>j. g + 4 * j + 1) ` {0..<0 + n}), dnsbases := dnsbases ?w4 |` (- (\<lambda>j. g + 4 * j + 2) ` {0..<0 + n}),
        threads := threads ?w4 |` (- (\<lambda>j. g + 4 * j + 3) ` {0..<0 + n}), svc_workers := LS\<rparr>)"
  proof (rule free_workers_runs [OF ks])
    show "\<forall>j \<in> {0..<0 + n}. (map Some (map (\<lambda>j. g + 4 * j) [0..<n])) ! j = Some (g + 4 * j) \<and> whole c0 g ?w4 j"
    proof
      fix j assume "j \<in> {0..<0 + n}"
      then have j: "j < n" by simp
      from A(4) [OF j] ebs [OF j] show "(map Some (map (\<lambda>j. g + 4 * j) [0..<n])) ! j = Some (g + 4 * j) \<and> whole c0 g ?w4 j"
        using j w2 by (auto simp: waiting_def whole_def)
    qed
  qed simp
  then obtain LS2 where fw: "free_workers [0..<n] ?w4 = Some (?w4\<lparr>workers := workers ?w4 |` (- (\<lambda>j. g + 4 * j) ` {..<n}),
        ebases := ebases ?w4 |` (- (\<lambda>j. g + 4 * j + 1) ` {..<n}), dnsbases := dnsbases ?w4 |` (- (\<lambda>j. g + 4 * j + 2) ` {..<n}),
        threads := threads ?w4 |` (- (\<lambda>j. g + 4 * j + 3) ` {..<n}), svc_workers := LS2\<rparr>)"
    by (auto simp: atLeast0LessThan)
  have D: "workers w |` (- (\<lambda>j. g + 4 * j) ` {..<n}) = Map.empty" "dnsbases w |` (- (\<lambda>j. g + 4 * j + 2) ` {..<n}) = Map.empty"
    "threads w |` (- (\<lambda>j. g + 4 * j + 3) ` {..<n}) = Map.empty"
    by (rule restrict_dom, use A(3) in \<open>simp add: owned_def\<close>)+
  have domE: "dom E = insert b ((\<lambda>j. g + 4 * j + 1) ` {..<n})" using A(3) dom(1) b(1) by (simp add: owned_def)
  have bn: "b \<notin> (\<lambda>j. g + 4 * j + 1) ` {..<n}" using A(1) b(2) by auto
  have E: "(E |` (- (\<lambda>j. g + 4 * j + 1) ` {..<n}))(b := None) = Map.empty" by (rule restrict_dom_insert [OF domE bn])
  have "b \<in> dom E" using domE by simp
  then obtain x where x: "E b = Some x" by blast
  have domS: "dom S = {s1, s2}" using dom(2) b(7) by simp
  obtain e1 e2 where S: "S s1 = Some e1" "S s2 = Some e2" "S(s1 := None, s2 := None) = Map.empty"
    using dom_two [OF domS] by blast
  obtain t where t: "thread_ids w i = Some t" "(thread_ids w)(i := None) = Map.empty"
    using dom_one [OF key(5)] by blast
  let ?w5 = "?w4\<lparr>workers := Map.empty, ebases := E |` (- (\<lambda>j. g + 4 * j + 1) ` {..<n}), dnsbases := Map.empty,
     threads := Map.empty, svc_workers := None\<rparr>"
  let ?w6 = "?w5\<lparr>sigevents := Map.empty, ev_sigterm := None, ev_sigint := None, ebases := Map.empty, svc_ebase := None,
     tls := Map.empty, thread_keys := Map.empty, thread_worker_key := None, thread_ids := Map.empty, main_thread_id := None\<rparr>"
  have r: "(E |` (- (\<lambda>j. g + 4 * j + 1) ` {..<n})) b = Some x" using bn x by simp
  have f6: "event_free (Some s1) ?w5 = Some (?w5\<lparr>sigevents := S(s1 := None)\<rparr>)"
    "event_free (Some s2) (?w5\<lparr>sigevents := S(s1 := None), ev_sigterm := None\<rparr>) =
       Some (?w5\<lparr>sigevents := Map.empty, ev_sigterm := None\<rparr>)"
    using S b(6) w2 by (simp_all add: event_free_def free_at_def)
  have f7: "event_base_free (Some b) (?w5\<lparr>sigevents := Map.empty, ev_sigterm := None, ev_sigint := None\<rparr>) =
      Some (?w5\<lparr>sigevents := Map.empty, ev_sigterm := None, ev_sigint := None, ebases := Map.empty\<rparr>)"
    using r E by (simp add: event_base_free_def)
  have f8: "worker_fini (?w5\<lparr>sigevents := Map.empty, ev_sigterm := None, ev_sigint := None, ebases := Map.empty, svc_ebase := None\<rparr>) = Some ?w6"
    using key t w2 by (simp add: worker_fini_def thread_key_free_def thread_id_free_def)
  have "http_service_fini w2 = Some ?w6"
    using v fl fw D f6 f7 f8 n b w2 ks
    by (simp add: http_service_fini_def)
  moreover have "released ?w6" using v(5) A(6) w2 by (simp add: released_def)
  ultimately show ?thesis by blast
qed

subsection \<open>The whole run\<close>

text \<open>
  What happens while the main thread waits for a signal: the threads of the workers get their turn in
  some order, then events are handled, as many as come.
\<close>

definition served :: "('e, 'p) lib \<Rightarrow> ('e, 'p, 'm) prog \<Rightarrow> ('e, 'p, 'm) prog \<Rightarrow> bool" where
  "served L w w' \<longleftrightarrow> (\<exists>ts w1 k v. distinct ts \<and> set ts = dom (pthreads w) \<and> run_threads ts w = Some w1 \<and>
     event_loop L (world.truncate w1) k v \<and> k < 2 ^ 30 - 1 \<and> answers v = [] \<and> w' = with_world v w1)"

lemma pool_at_work:
  assumes pool: "pool n c0 g h n {..<n} w" and inv: "inv (listeners w) ph k v"
  shows "at_work n c0 g h (with_world v w)"
proof -
  note P = poolD [OF pool]
  note I = invD [OF inv]
  have "waiting c0 g h (with_world v w) j" if j: "j < n" for j
    using P(8) P(9) [OF j] P(10) [OF j] j by (simp add: waiting_def whole_def workers_at_def thread_at_def)
  moreover have "\<exists>l X. listeners w l = Some X \<and> lst_arg X = Some (c0 + j)" if j: "j < n" for j
    using P(11) [OF j] j by (auto simp: channel_at_def)
  moreover have "\<exists>j < n. lst_arg X = Some (c0 + j)" if "listeners w l = Some X" for l X
    using P(13) [OF that] by blast
  moreover have "statics n c0 (with_world v w)" "owned n g (with_world v w)"
    using P(6,7) by (simp_all add: statics_def owned_def)
  ultimately show ?thesis using P(2,14,15) I(1,2) I(5) by (simp add: at_work_def)
qed

lemma served_released:
  assumes env: "env_ok L" and laws: "parser_laws L ph" and pool: "pool n c0 g h n {} w" and sa: "sa_family (svc_sockaddr w) = AF_INET"
    and n: "0 < n" and day: "served L w w4"
  shows "\<exists>w5 w6. http_service_stop w4 = Some w5 \<and> http_service_fini w5 = Some w6 \<and> released w6"
proof -
  obtain ts w1 k v where day: "distinct ts" "set ts = dom (pthreads w)" "run_threads ts w = Some w1"
     "event_loop L (world.truncate w1) k v" "k < 2 ^ 30 - 1" "answers v = []" "w4 = with_world v w1"
    using day unfolding served_def by blast
  obtain js where js: "ts = map (\<lambda>j. h + 2 * j + 1) js" "distinct js" "set js = {..<n}" by (rule threads_of [OF pool day(1,2)])
  have "0 \<in> set js" using js(3) n by simp
  then have "js \<noteq> []" by auto
  have "set js \<subseteq> {..<n} - {}" by (simp add: js(3))
  from run_threads_pool [OF pool js(2) this sa] obtain w' where w':
    "run_threads (map (\<lambda>j. h + 2 * j + 1) js) w = Some w'" "pool n c0 g h n ({} \<union> set js) w'" "js \<noteq> [] \<longrightarrow> this_dns w' \<noteq> None"
    by blast
  have "Some w' = Some w1" using w'(1) day(3) unfolding js(1) by (rule trans [OF sym])
  then have "w' = w1" by (rule option.inject [THEN iffD1])
  moreover have "pool n c0 g h n {..<n} w'" using w'(2) unfolding js(3) Un_empty_left .
  ultimately have w1: "pool n c0 g h n {..<n} w1" "this_dns w1 \<noteq> None" using w'(3) \<open>js \<noteq> []\<close> by blast+
  have "inv (listeners w1) ph (2 * int k) v"
    using event_loop_inv [OF env laws idle_inv [OF pool_idle [OF w1]] day(4,5)] by simp
  from pool_at_work [OF w1(1) this] have work: "at_work n c0 g h w4" by (simp add: day(7))
  obtain E S where stop: "http_service_stop w4 = Some (w4\<lparr>ebases := E, pthreads := Map.empty, sigevents := S\<rparr>)"
    "dom E = dom (ebases w4)" "dom S = dom (sigevents w4)"
    by (rule http_service_stop_runs [OF work]) (use day(6,7) in simp_all)
  with http_service_fini_runs [OF work refl stop(2,3)] show ?thesis by blast
qed

lemma some_day:
  assumes "pool n c0 g h n {} w" "sa_family (svc_sockaddr w) = AF_INET"
  shows "\<exists>w4. served L w w4"
proof -
  have "finite (dom (pthreads w))" unfolding poolD(14) [OF assms(1)] by (intro finite_imageI finite_lessThan)
  from finite_distinct_list [OF this] obtain ts where ts: "set ts = dom (pthreads w)" "distinct ts" by (elim exE conjE)
  obtain js where js: "ts = map (\<lambda>j. h + 2 * j + 1) js" "distinct js" "set js = {..<n}" by (rule threads_of [OF assms(1) ts(2,1)])
  have "set js \<subseteq> {..<n} - {}" by (simp add: js(3))
  from run_threads_pool [OF assms(1) js(2) this assms(2)] obtain w1 where w1:
    "run_threads ts w = Some w1" "pool n c0 g h n ({} \<union> set js) w1"
    unfolding js(1) by blast
  have "served L w (with_world (world.truncate w1) w1)" unfolding served_def
    by (rule exI [of _ ts], rule exI [of _ w1], rule exI [of _ 0], rule exI [of _ "world.truncate w1"], intro conjI)
       (use poolD(1) [OF w1(2)] in \<open>simp_all add: ts w1(1) event_loop.start\<close>)
  then show ?thesis by blast
qed



end
