(* ===== verification/Init_Errors.thy ===== *)
theory Init_Errors
  imports Service_Stop
begin

section \<open>Initialisation when allocations fail\<close>

text \<open>
  \<open>http_service_init\<close> with an allocator that may fail at any of its calls. The lemmas follow the stages of
  the function; \<open>begun\<close> says what each of them has left for \<open>http_service_fini\<close>, which the error
  exit calls on whatever has been built so far.
\<close>

subsection \<open>Stages\<close>

text \<open>The identity of the main thread and the key, which \<open>worker_init\<close> makes or not.\<close>

definition ids_ok :: "('e, 'p, 'm) prog \<Rightarrow> bool" where
  "ids_ok w \<longleftrightarrow> (case thread_worker_key w of None \<Rightarrow> thread_keys w = Map.empty | Some p \<Rightarrow> \<exists>k. thread_keys w = [p \<mapsto> k]) \<and>
     (case main_thread_id w of None \<Rightarrow> thread_ids w = Map.empty | Some i \<Rightarrow> \<exists>t. thread_ids w = [i \<mapsto> t])"

definition sigs_ok :: "('e, 'p, 'm) prog \<Rightarrow> bool" where
  "sigs_ok w \<longleftrightarrow> dom (sigevents w) = {s. ev_sigterm w = Some s \<or> ev_sigint w = Some s} \<and>
     (\<forall>s. ev_sigterm w = Some s \<longrightarrow> ev_sigint w \<noteq> Some s)"

lemma ids_ok_frame [simp]:
  "ids_ok (w\<lparr>lh := x1\<rparr>) = ids_ok w" "ids_ok (w\<lparr>svc_sessions := x2\<rparr>) = ids_ok w"
  "ids_ok (w\<lparr>svc_listeners := x3\<rparr>) = ids_ok w" "ids_ok (w\<lparr>svc_workers := x4\<rparr>) = ids_ok w"
  "ids_ok (w\<lparr>workers := x5\<rparr>) = ids_ok w" "ids_ok (w\<lparr>ebases := x6\<rparr>) = ids_ok w"
  "ids_ok (w\<lparr>dnsbases := x7\<rparr>) = ids_ok w" "ids_ok (w\<lparr>threads := x8\<rparr>) = ids_ok w"
  "ids_ok (w\<lparr>channels := x9\<rparr>) = ids_ok w" "ids_ok (w\<lparr>svc_ebase := x10\<rparr>) = ids_ok w"
  "ids_ok (w\<lparr>answers := x11\<rparr>) = ids_ok w" "ids_ok (w\<lparr>fresh := x12\<rparr>) = ids_ok w"
  "ids_ok (w\<lparr>nworkers := x13\<rparr>) = ids_ok w" "ids_ok (w\<lparr>svc_mutex := x14\<rparr>) = ids_ok w"
  "ids_ok (w\<lparr>mutexes := x15\<rparr>) = ids_ok w" "ids_ok (w\<lparr>svc_resolver := x16\<rparr>) = ids_ok w"
  "ids_ok (w\<lparr>svc_sockaddr := x17\<rparr>) = ids_ok w" "ids_ok (w\<lparr>sigevents := x18\<rparr>) = ids_ok w"
  "ids_ok (w\<lparr>ev_sigterm := x19\<rparr>) = ids_ok w" "ids_ok (w\<lparr>ev_sigint := x20\<rparr>) = ids_ok w"
  by (simp_all add: ids_ok_def cong: option.case_cong)

lemma sigs_ok_frame [simp]:
  "sigs_ok (w\<lparr>lh := x21\<rparr>) = sigs_ok w" "sigs_ok (w\<lparr>svc_sessions := x22\<rparr>) = sigs_ok w"
  "sigs_ok (w\<lparr>svc_listeners := x23\<rparr>) = sigs_ok w" "sigs_ok (w\<lparr>svc_workers := x24\<rparr>) = sigs_ok w"
  "sigs_ok (w\<lparr>workers := x25\<rparr>) = sigs_ok w" "sigs_ok (w\<lparr>ebases := x26\<rparr>) = sigs_ok w"
  "sigs_ok (w\<lparr>dnsbases := x27\<rparr>) = sigs_ok w" "sigs_ok (w\<lparr>threads := x28\<rparr>) = sigs_ok w"
  "sigs_ok (w\<lparr>channels := x29\<rparr>) = sigs_ok w" "sigs_ok (w\<lparr>svc_ebase := x30\<rparr>) = sigs_ok w"
  "sigs_ok (w\<lparr>answers := x31\<rparr>) = sigs_ok w" "sigs_ok (w\<lparr>fresh := x32\<rparr>) = sigs_ok w"
  "sigs_ok (w\<lparr>nworkers := x33\<rparr>) = sigs_ok w" "sigs_ok (w\<lparr>svc_mutex := x34\<rparr>) = sigs_ok w"
  "sigs_ok (w\<lparr>mutexes := x35\<rparr>) = sigs_ok w" "sigs_ok (w\<lparr>svc_resolver := x36\<rparr>) = sigs_ok w"
  "sigs_ok (w\<lparr>svc_sockaddr := x37\<rparr>) = sigs_ok w"
  by (simp_all add: sigs_ok_def)

text \<open>A program that has just been started: the static variables are zero, and nothing is allocated.\<close>

definition unstarted :: "('e, 'p, 'm) prog \<Rightarrow> bool" where
  "unstarted w \<longleftrightarrow> heap_rep (store_heap (lh w)) Map.empty \<and> channels w = Map.empty \<and> ebases w = Map.empty \<and> workers w = Map.empty \<and>
     dnsbases w = Map.empty \<and> threads w = Map.empty \<and> sigevents w = Map.empty \<and> thread_ids w = Map.empty \<and> thread_keys w = Map.empty \<and>
     nworkers w = 0 \<and> svc_workers w = None \<and> svc_listeners w = None \<and> svc_ebase w = None \<and> ev_sigterm w = None \<and> ev_sigint w = None \<and>
     thread_worker_key w = None \<and> main_thread_id w = None"

definition begun :: "addr \<Rightarrow> ('e, 'p, 'm) prog \<Rightarrow> bool" where
  "begun l w \<longleftrightarrow> svc_sessions w = Some l \<and> list_queue.holds (store_heap (lh w)) l [] \<and> ids_ok w \<and> sigs_ok w \<and>
     dom (ebases w) = {b. svc_ebase w = Some b} \<and> (\<forall>a. fresh w \<le> a \<longrightarrow> ebases w a = None \<and> sigevents w a = None) \<and>
     nworkers w = 0 \<and> svc_workers w = None \<and> workers w = Map.empty \<and> dnsbases w = Map.empty \<and> threads w = Map.empty"

text \<open>Everything but the event bases is released, and the static pointers are cleared.\<close>

definition cleared :: "('e, 'p, 'm) prog \<Rightarrow> bool" where
  "cleared w \<longleftrightarrow> svc_sessions w = None \<and> svc_listeners w = None \<and> svc_workers w = None \<and> svc_ebase w = None \<and> ev_sigterm w = None \<and>
     ev_sigint w = None \<and> thread_worker_key w = None \<and> main_thread_id w = None \<and> sigevents w = Map.empty \<and> thread_keys w = Map.empty \<and>
     thread_ids w = Map.empty \<and> workers w = Map.empty \<and> dnsbases w = Map.empty \<and> threads w = Map.empty"

text \<open>What the stages of \<open>http_service_init\<close> that are not about them leave alone.\<close>

definition same_service :: "('e, 'p, 'm) prog \<Rightarrow> ('e, 'p, 'm) prog \<Rightarrow> bool" where
  "same_service w w' \<longleftrightarrow> lh w' = lh w \<and> svc_sessions w' = svc_sessions w \<and> channels w' = channels w \<and> workers w' = workers w \<and>
     dnsbases w' = dnsbases w \<and> threads w' = threads w \<and> nworkers w' = nworkers w \<and> svc_workers w' = svc_workers w \<and>
     svc_listeners w' = svc_listeners w \<and> fresh w \<le> fresh w'"

definition same_statics :: "('e, 'p, 'm) prog \<Rightarrow> ('e, 'p, 'm) prog \<Rightarrow> bool" where
  "same_statics w w' \<longleftrightarrow> ebases w' = ebases w \<and> svc_ebase w' = svc_ebase w \<and> sigevents w' = sigevents w \<and>
     ev_sigterm w' = ev_sigterm w \<and> ev_sigint w' = ev_sigint w"

lemma worker_init_any:
  fixes w :: "('e, 'p, 'm) prog"
  assumes "thread_ids w = Map.empty" "thread_keys w = Map.empty" "thread_worker_key w = None" "worker_init w = (r, w1)"
  shows "ids_ok w1 \<and> same_service w w1 \<and> same_statics w w1"
proof -
  note d = worker_init_def thread_self_def thread_key_new_def new_addr_if ask_if Let_def
  consider "\<not> answer 0 w" | "answer 0 w" "\<not> answer 1 w" | "answer 0 w" "answer 1 w" "\<not> answer 2 w"
    | "answer 0 w" "answer 1 w" "answer 2 w" "\<not> answer 3 w" | "answer 0 w" "answer 1 w" "answer 2 w" "answer 3 w" by blast
  then show ?thesis
    by cases (use assms in \<open>auto simp: d numeral_2_eq_2 numeral_3_eq_3 ids_ok_def same_service_def same_statics_def\<close>)
qed

lemma free_at_exact:
  assumes "\<And>x. p = Some x \<Longrightarrow> m x \<noteq> None"
  shows "free_at m p = Some (m |` (- {x. p = Some x}))"
  using assms by (cases p) (auto simp: free_at_def restrict_map_def fun_eq_iff)

lemma fini_tail:
  fixes w :: "('e, 'p, 'm) prog"
  assumes ids: "ids_ok w" and sigs: "sigs_ok w" and base: "\<And>b. svc_ebase w = Some b \<Longrightarrow> ebases w b \<noteq> None"
  shows "\<exists>S T. event_free (ev_sigterm w) w = Some (w\<lparr>sigevents := S\<rparr>) \<and>
     event_free (ev_sigint w) (w\<lparr>sigevents := S, ev_sigterm := None\<rparr>) = Some (w\<lparr>sigevents := Map.empty, ev_sigterm := None\<rparr>) \<and>
     event_base_free (svc_ebase w) (w\<lparr>sigevents := Map.empty, ev_sigterm := None, ev_sigint := None\<rparr>) =
       Some (w\<lparr>sigevents := Map.empty, ev_sigterm := None, ev_sigint := None, ebases := ebases w |` (- {b. svc_ebase w = Some b})\<rparr>) \<and>
     worker_fini (w\<lparr>sigevents := Map.empty, ev_sigterm := None, ev_sigint := None, ebases := ebases w |` (- {b. svc_ebase w = Some b}), svc_ebase := None\<rparr>) =
       Some (w\<lparr>sigevents := Map.empty, ev_sigterm := None, ev_sigint := None, ebases := ebases w |` (- {b. svc_ebase w = Some b}), svc_ebase := None,
         tls := T, thread_keys := Map.empty, thread_worker_key := None, thread_ids := Map.empty, main_thread_id := None\<rparr>)"
proof -
  let ?S = "sigevents w |` (- {x. ev_sigterm w = Some x})"
  have D: "dom (sigevents w) = {s. ev_sigterm w = Some s \<or> ev_sigint w = Some s}" using sigs by (simp add: sigs_ok_def)
  have in_dom: "sigevents w x \<noteq> None \<longleftrightarrow> ev_sigterm w = Some x \<or> ev_sigint w = Some x" for x
    using D by (simp add: dom_def set_eq_iff)
  have "free_at (sigevents w) (ev_sigterm w) = Some ?S" by (rule free_at_exact) (use in_dom in blast)
  then have S1: "event_free (ev_sigterm w) w = Some (w\<lparr>sigevents := ?S\<rparr>)" by (simp add: event_free_def)
  have "free_at ?S (ev_sigint w) = Some (?S |` (- {x. ev_sigint w = Some x}))"
    by (rule free_at_exact) (use in_dom sigs in \<open>auto simp: sigs_ok_def restrict_map_def\<close>)
  moreover have "?S |` (- {x. ev_sigint w = Some x}) = Map.empty"
    unfolding restrict_restrict Compl_Un [symmetric] by (rule restrict_dom) (simp add: D Collect_disj_eq)
  ultimately have S2: "event_free (ev_sigint w) (w\<lparr>sigevents := ?S, ev_sigterm := None\<rparr>) = Some (w\<lparr>sigevents := Map.empty, ev_sigterm := None\<rparr>)"
    by (simp add: event_free_def)
  have "free_at (ebases w) (svc_ebase w) = Some (ebases w |` (- {b. svc_ebase w = Some b}))"
    by (rule free_at_exact) (use base in blast)
  then have E: "event_base_free (svc_ebase w) (w\<lparr>sigevents := Map.empty, ev_sigterm := None, ev_sigint := None\<rparr>) =
       Some (w\<lparr>sigevents := Map.empty, ev_sigterm := None, ev_sigint := None, ebases := ebases w |` (- {b. svc_ebase w = Some b})\<rparr>)"
    by (simp add: event_base_free_def)
  let ?v = "w\<lparr>sigevents := Map.empty, ev_sigterm := None, ev_sigint := None, ebases := ebases w |` (- {b. svc_ebase w = Some b}), svc_ebase := None\<rparr>"
  have I: "free_at (thread_ids w) (main_thread_id w) = Some Map.empty"
    using ids by (cases "main_thread_id w") (auto simp: ids_ok_def free_at_def)
  have "\<exists>T. worker_fini ?v = Some (?v\<lparr>tls := T, thread_keys := Map.empty, thread_worker_key := None, thread_ids := Map.empty, main_thread_id := None\<rparr>)"
  proof (cases "thread_worker_key w")
    case None
    then have "thread_keys w = Map.empty" using ids by (simp add: ids_ok_def)
    with None I show ?thesis
      by (intro exI [of _ "tls w"]) (auto simp: worker_fini_def thread_key_free_def thread_id_free_def intro!: program.equality)
  next
    case (Some p)
    then obtain k where "thread_keys w = [p \<mapsto> k]" using ids by (auto simp: ids_ok_def)
    with Some I show ?thesis
      by (intro exI [of _ "(tls w)(k := None)"]) (auto simp: worker_fini_def thread_key_free_def thread_id_free_def intro!: program.equality)
  qed
  with S1 S2 E show ?thesis by (simp add: exI [of _ ?S])
qed

lemma empty_list_fini:
  assumes "list_queue.holds h l []"
  shows "list_head l h = Some None \<and> (\<exists>h'. list_free (Some l) h = Some h')"
proof -
  obtain M ns where M: "heap_rep h M" "M l = Some ns" "ns = []"
    using assms by (auto simp: list_queue.holds_def queue_rep_def)
  obtain L where L: "hlists h l = Some L" "seg (nodes h) (Head l) (l_head L) [] None"
    using list_repE [OF heap_rep_list [OF M(1,2)]] M(3) by metis
  obtain h1 where h1: "list_drain l h = Some h1" "heap_rep h1 (M(l \<mapsto> after_null ns))"
    using list_drain_heap [OF M(1,2)] by blast
  have "l \<in> dom (hlists h1)" using heap_rep_lists [OF h1(2)] by simp
  then obtain L1 where "hlists h1 l = Some L1" by auto
  then have "list_free (Some l) h = Some (h1\<lparr>hlists := (hlists h1)(l := None)\<rparr>)" using h1(1) by (simp add: list_free_def)
  then show ?thesis using L by (simp add: list_head_def)
qed

text \<open>\<open>http_service_fini\<close> on a service without sessions, when the arrays can be released.\<close>

lemma fini_steps:
  fixes w :: "('e, 'p, 'm) prog"
  assumes l: "svc_sessions w = Some l" "list_queue.holds (store_heap (lh w)) l []"
    and lst: "\<And>h. \<exists>w3. (case svc_listeners w of None \<Rightarrow> Some (w\<lparr>lh := List_Store h, svc_sessions := None\<rparr>)
        | Some ls \<Rightarrow> do { w3 \<leftarrow> free_listeners [0..<nat (nworkers w)] (w\<lparr>lh := List_Store h, svc_sessions := None\<rparr>); Some (w3\<lparr>svc_listeners := None\<rparr>) }) = Some w3 \<and>
      (\<exists>w4. (case svc_workers w3 of None \<Rightarrow> Some w3
        | Some ks \<Rightarrow> do { w4 \<leftarrow> free_workers [0..<nat (nworkers w3)] w3; Some (w4\<lparr>svc_workers := None\<rparr>) }) = Some w4 \<and>
        ids_ok w4 \<and> sigs_ok w4 \<and> (\<forall>b. svc_ebase w4 = Some b \<longrightarrow> ebases w4 b \<noteq> None) \<and> P w4)"
  shows "\<exists>w4 T. P w4 \<and> init_error w = Some (-1, w4\<lparr>sigevents := Map.empty, ev_sigterm := None, ev_sigint := None,
     ebases := ebases w4 |` (- {b. svc_ebase w4 = Some b}), svc_ebase := None, tls := T, thread_keys := Map.empty, thread_worker_key := None,
     thread_ids := Map.empty, main_thread_id := None\<rparr>)"
proof -
  obtain h where h: "list_head l (store_heap (lh w)) = Some None" "list_free (Some l) (store_heap (lh w)) = Some h"
    using empty_list_fini [OF l(2)] by blast
  obtain w3 w4 where w3: "(case svc_listeners w of None \<Rightarrow> Some (w\<lparr>lh := List_Store h, svc_sessions := None\<rparr>)
        | Some ls \<Rightarrow> do { w3 \<leftarrow> free_listeners [0..<nat (nworkers w)] (w\<lparr>lh := List_Store h, svc_sessions := None\<rparr>); Some (w3\<lparr>svc_listeners := None\<rparr>) }) = Some w3"
    and w4: "(case svc_workers w3 of None \<Rightarrow> Some w3
        | Some ks \<Rightarrow> do { w4 \<leftarrow> free_workers [0..<nat (nworkers w3)] w3; Some (w4\<lparr>svc_workers := None\<rparr>) }) = Some w4"
      "ids_ok w4" "sigs_ok w4" "\<And>b. svc_ebase w4 = Some b \<Longrightarrow> ebases w4 b \<noteq> None" "P w4" using lst [of h] by blast
  obtain S T where T: "event_free (ev_sigterm w4) w4 = Some (w4\<lparr>sigevents := S\<rparr>)"
     "event_free (ev_sigint w4) (w4\<lparr>sigevents := S, ev_sigterm := None\<rparr>) = Some (w4\<lparr>sigevents := Map.empty, ev_sigterm := None\<rparr>)"
     "event_base_free (svc_ebase w4) (w4\<lparr>sigevents := Map.empty, ev_sigterm := None, ev_sigint := None\<rparr>) =
       Some (w4\<lparr>sigevents := Map.empty, ev_sigterm := None, ev_sigint := None, ebases := ebases w4 |` (- {b. svc_ebase w4 = Some b})\<rparr>)"
     "worker_fini (w4\<lparr>sigevents := Map.empty, ev_sigterm := None, ev_sigint := None, ebases := ebases w4 |` (- {b. svc_ebase w4 = Some b}), svc_ebase := None\<rparr>) =
       Some (w4\<lparr>sigevents := Map.empty, ev_sigterm := None, ev_sigint := None, ebases := ebases w4 |` (- {b. svc_ebase w4 = Some b}), svc_ebase := None,
         tls := T, thread_keys := Map.empty, thread_worker_key := None, thread_ids := Map.empty, main_thread_id := None\<rparr>)"
    using fini_tail [OF w4(2-4)] by blast
  have "free_sessions None w = Some w" by (simp add: free_sessions.simps [of None])
  then have "http_service_fini w = do { w5 \<leftarrow> event_free (ev_sigterm w4) w4;
          w6 \<leftarrow> event_free (ev_sigint w5) (w5\<lparr>ev_sigterm := None\<rparr>);
          w7 \<leftarrow> event_base_free (svc_ebase w6) (w6\<lparr>ev_sigint := None\<rparr>);
          worker_fini (w7\<lparr>svc_ebase := None\<rparr>) }"
    using l(1) h w3 w4(1) by (simp add: http_service_fini_def Let_def cong: option.case_cong)
  then show ?thesis using T w4(5)
    by (intro exI [of _ w4] exI [of _ T]) (simp add: init_error_def)
qed

lemma fini_begun:
  fixes w :: "('e, 'p, 'm) prog"
  assumes b: "begun l w"
  shows "\<exists>w'. init_error w = Some (-1, w') \<and> cleared w' \<and> ebases w' = Map.empty"
proof -
  note B = b [unfolded begun_def]
  define P where "P = (\<lambda>v :: ('e, 'p, 'm) prog. svc_sessions v = None \<and> svc_listeners v = None \<and> svc_workers v = None \<and> workers v = Map.empty \<and>
    dnsbases v = Map.empty \<and> threads v = Map.empty \<and> dom (ebases v) = {b. svc_ebase v = Some b})"
  have "\<exists>w4 T. P w4 \<and> init_error w = Some (-1, w4\<lparr>sigevents := Map.empty, ev_sigterm := None, ev_sigint := None,
     ebases := ebases w4 |` (- {b. svc_ebase w4 = Some b}), svc_ebase := None, tls := T, thread_keys := Map.empty, thread_worker_key := None,
     thread_ids := Map.empty, main_thread_id := None\<rparr>)"
  proof (rule fini_steps)
    fix h
    have ok: "\<forall>b. svc_ebase w = Some b \<longrightarrow> ebases w b \<noteq> None" using B by (auto simp: dom_def set_eq_iff)
    show "\<exists>w3. (case svc_listeners w of None \<Rightarrow> Some (w\<lparr>lh := List_Store h, svc_sessions := None\<rparr>)
        | Some ls \<Rightarrow> do { w3 \<leftarrow> free_listeners [0..<nat (nworkers w)] (w\<lparr>lh := List_Store h, svc_sessions := None\<rparr>); Some (w3\<lparr>svc_listeners := None\<rparr>) }) = Some w3 \<and>
      (\<exists>w4. (case svc_workers w3 of None \<Rightarrow> Some w3
        | Some ks \<Rightarrow> do { w4 \<leftarrow> free_workers [0..<nat (nworkers w3)] w3; Some (w4\<lparr>svc_workers := None\<rparr>) }) = Some w4 \<and>
        ids_ok w4 \<and> sigs_ok w4 \<and> (\<forall>b. svc_ebase w4 = Some b \<longrightarrow> ebases w4 b \<noteq> None) \<and> P w4)"
      using B ok by (cases "svc_listeners w") (simp_all add: P_def)
  qed (use B in auto)
  then obtain w4 T where w4: "P w4" "init_error w = Some (-1, w4\<lparr>sigevents := Map.empty, ev_sigterm := None, ev_sigint := None,
     ebases := ebases w4 |` (- {b. svc_ebase w4 = Some b}), svc_ebase := None, tls := T, thread_keys := Map.empty, thread_worker_key := None,
     thread_ids := Map.empty, main_thread_id := None\<rparr>)" by blast
  moreover have "ebases w4 |` (- {b. svc_ebase w4 = Some b}) = Map.empty" by (rule restrict_dom) (use w4(1) in \<open>simp add: P_def\<close>)
  ultimately show ?thesis by (simp add: cleared_def P_def)
qed

text \<open>A signal event: \<open>begun\<close> goes on, whether it can be made and added or not.\<close>

lemma add_sigterm:
  fixes w :: "('e, 'p, 'm) prog"
  assumes b: "begun l w" and none: "ev_sigterm w = None" and run: "add_signal (\<lambda>e w. w\<lparr>ev_sigterm := e\<rparr>) w = (ok, w')"
  shows "begun l w' \<and> same_service w w' \<and> ev_sigint w' = ev_sigint w"
proof (cases "answer 0 w")
  case False
  then have "w' = w\<lparr>answers := tl (answers w)\<rparr>"
    using run none by (auto simp: add_signal_def evsignal_new_def new_addr_if intro!: program.equality)
  then show ?thesis using b by (simp add: begun_def same_service_def)
next
  case True
  note B = b [unfolded begun_def]
  obtain v where w': "same_service w w'" "ev_sigterm w' = Some (fresh w)" "ev_sigint w' = ev_sigint w" "sigevents w' = (sigevents w)(fresh w \<mapsto> v)"
    "fresh w' = Suc (fresh w)" "ebases w' = ebases w" "svc_ebase w' = svc_ebase w" "ids_ok w'"
    using run True B
    by (auto simp: add_signal_def evsignal_new_def event_add_def new_addr_if ask_if Let_def same_service_def split: if_splits)
  have D: "dom (sigevents w) = {s. ev_sigint w = Some s}" using B none by (simp add: sigs_ok_def)
  have "sigevents w (fresh w) = None" using B by simp
  then have "ev_sigint w \<noteq> Some (fresh w)" using D domIff [of "fresh w" "sigevents w"] by auto
  moreover have "dom (sigevents w') = {s. ev_sigterm w' = Some s \<or> ev_sigint w' = Some s}" unfolding w'(2-4) using D by auto
  ultimately have "sigs_ok w'" by (auto simp add: sigs_ok_def w'(2,3))
  then show ?thesis using B w' by (simp add: begun_def same_service_def)
qed

lemma add_sigint:
  fixes w :: "('e, 'p, 'm) prog"
  assumes b: "begun l w" and none: "ev_sigint w = None" and run: "add_signal (\<lambda>e w. w\<lparr>ev_sigint := e\<rparr>) w = (ok, w')"
  shows "begun l w' \<and> same_service w w' \<and> ev_sigterm w' = ev_sigterm w"
proof (cases "answer 0 w")
  case False
  then have "w' = w\<lparr>answers := tl (answers w)\<rparr>"
    using run none by (auto simp: add_signal_def evsignal_new_def new_addr_if intro!: program.equality)
  then show ?thesis using b by (simp add: begun_def same_service_def)
next
  case True
  note B = b [unfolded begun_def]
  obtain v where w': "same_service w w'" "ev_sigint w' = Some (fresh w)" "ev_sigterm w' = ev_sigterm w" "sigevents w' = (sigevents w)(fresh w \<mapsto> v)"
    "fresh w' = Suc (fresh w)" "ebases w' = ebases w" "svc_ebase w' = svc_ebase w" "ids_ok w'"
    using run True B
    by (auto simp: add_signal_def evsignal_new_def event_add_def new_addr_if ask_if Let_def same_service_def split: if_splits)
  have D: "dom (sigevents w) = {s. ev_sigterm w = Some s}" using B none by (simp add: sigs_ok_def)
  have "sigevents w (fresh w) = None" using B by simp
  then have "ev_sigterm w \<noteq> Some (fresh w)" using D domIff [of "fresh w" "sigevents w"] by auto
  moreover have "dom (sigevents w') = {s. ev_sigterm w' = Some s \<or> ev_sigint w' = Some s}" unfolding w'(2-4) using D by auto
  ultimately have "sigs_ok w'" by (auto simp add: sigs_ok_def w'(2,3))
  then show ?thesis using B w' by (simp add: begun_def same_service_def)
qed

subsection \<open>The listeners\<close>

lemma make_listeners_any:
  fixes w :: "('e, 'p, 'm) prog"
  shows "svc_listeners w = Some (map Some cs @ replicate m None) \<Longrightarrow>
   \<exists>ok bs F C ls. make_listeners [length cs..<length cs + m] w =
       Some (ok, w\<lparr>answers := bs, fresh := F, svc_listeners := Some ls, channels := C\<rparr>) \<and> fresh w \<le> F \<and>
     (ok \<longrightarrow> ls = map Some (cs @ [fresh w..<fresh w + m]) \<and>
        C = (\<lambda>c. if fresh w \<le> c \<and> c < fresh w + m then Some idle_channel else channels w c))"
proof (induction m arbitrary: w cs)
  case 0
  then show ?case
    by (intro exI [of _ True] exI [of _ "answers w"] exI [of _ "fresh w"] exI [of _ "channels w"] exI [of _ "map Some cs"])
       (auto simp: fun_eq_iff intro!: program.equality)
next
  case (Suc m)
  have up: "[length cs..<length cs + Suc m] = length cs # [length (cs @ [fresh w])..<length (cs @ [fresh w]) + m]"
    by (simp add: upt_rec [of "length cs"])
  show ?case
  proof (cases "answer 0 w")
    case False
    then have "make_listeners [length cs..<length cs + Suc m] w = Some (False, w\<lparr>answers := tl (answers w), fresh := fresh w,
        svc_listeners := Some (map Some cs @ replicate (Suc m) None), channels := channels w\<rparr>)"
      unfolding up using Suc.prems by (auto simp: tcp_socket_new_def new_addr_if intro!: program.equality)
    then show ?thesis
      by (intro exI [of _ False] exI [of _ "tl (answers w)"] exI [of _ "fresh w"] exI [of _ "channels w"]
          exI [of _ "map Some cs @ replicate (Suc m) None"]) (simp del: upt_Suc replicate_Suc)
  next
    case True
    let ?w = "w\<lparr>answers := tl (answers w), fresh := Suc (fresh w), svc_listeners := Some (map Some (cs @ [fresh w]) @ replicate m None),
      channels := (channels w)(fresh w \<mapsto> idle_channel)\<rparr>"
    have step: "make_listeners [length cs..<length cs + Suc m] w = make_listeners [length (cs @ [fresh w])..<length (cs @ [fresh w]) + m] ?w"
      unfolding up using Suc.prems True
      by (auto simp: tcp_socket_new_def new_addr_if set_channel_def idle_channel_def list_update_append
          intro!: arg_cong [where f = "make_listeners _"] program.equality)
    have "svc_listeners ?w = Some (map Some (cs @ [fresh w]) @ replicate m None)" by simp
    from Suc.IH [OF this] obtain ok bs F C ls where R:
      "make_listeners [length (cs @ [fresh w])..<length (cs @ [fresh w]) + m] ?w =
         Some (ok, ?w\<lparr>answers := bs, fresh := F, svc_listeners := Some ls, channels := C\<rparr>)" "fresh ?w \<le> F"
      "ok \<longrightarrow> ls = map Some ((cs @ [fresh w]) @ [fresh ?w..<fresh ?w + m]) \<and>
        C = (\<lambda>c. if fresh ?w \<le> c \<and> c < fresh ?w + m then Some idle_channel else channels ?w c)"
      by blast
    have "make_listeners [length cs..<length cs + Suc m] w =
        Some (ok, w\<lparr>answers := bs, fresh := F, svc_listeners := Some ls, channels := C\<rparr>)" unfolding step R(1) by simp
    moreover have "ok \<longrightarrow> ls = map Some (cs @ [fresh w..<fresh w + Suc m]) \<and>
        C = (\<lambda>c. if fresh w \<le> c \<and> c < fresh w + Suc m then Some idle_channel else channels w c)"
      using R(3) by (auto simp: upt_rec [of "fresh w"] fun_eq_iff)
    ultimately show ?thesis using R(2) by (intro exI [of _ ok] exI [of _ bs] exI [of _ F] exI [of _ C] exI [of _ ls]) simp
  qed
qed

lemma free_idle_listeners:
  fixes w :: "('e, 'p, 'm) prog"
  shows "svc_listeners w = Some ls \<Longrightarrow> m + k \<le> length ls \<Longrightarrow> \<forall>j \<in> {m..<m + k}. ls ! j = Some (c0 + j) \<and> channels w (c0 + j) = Some idle_channel \<Longrightarrow>
    \<exists>C LS. free_listeners [m..<m + k] w = Some (w\<lparr>channels := C, svc_listeners := LS\<rparr>)"
proof (induction k arbitrary: m w ls)
  case 0
  then show ?case by (intro exI [of _ "channels w"] exI [of _ "svc_listeners w"]) simp
next
  case (Suc k)
  have m: "ls ! m = Some (c0 + m)" "channels w (c0 + m) = Some idle_channel" "m < length ls" using Suc.prems(2,3) by auto
  let ?w1 = "w\<lparr>channels := (channels w)(c0 + m := None), svc_listeners := Some (ls[m := None])\<rparr>"
  have step: "free_listeners [m..<m + Suc k] w = free_listeners [Suc m..<Suc m + k] ?w1"
    using m Suc.prems(1)
    by (auto simp: upt_rec [of m] channel_free_def tcp_socket_free_def idle_channel_def set_channel_def
        simp del: upt_Suc intro!: arg_cong [where f = "free_listeners _"] program.equality)
  have "\<exists>C LS. free_listeners [Suc m..<Suc m + k] ?w1 = Some (?w1\<lparr>channels := C, svc_listeners := LS\<rparr>)"
    by (rule Suc.IH [where ls = "ls[m := None]"]) (use Suc.prems in auto)
  with step show ?case by auto
qed

subsection \<open>The workers\<close>

lemma worker_new_fails:
  fixes w :: "('e, 'p, 'm) hosts"
  assumes "host_fresh w" "\<not> (\<forall>i < 10. answer i w)"
  shows "\<exists>bs F E. worker_new ctx res w = Some (None, w\<lparr>answers := bs, fresh := F, ebases := E\<rparr>) \<and> fresh w \<le> F \<and>
     (E = ebases w \<or> E = (ebases w)(Suc (fresh w) \<mapsto> False))"
  using worker_new_null [OF assms, of ctx res] by (metis (full_types))

text \<open>Like \<open>workers_made\<close>; one more event base may be left over.\<close>

definition workers_left ::
  "addr \<Rightarrow> nat \<Rightarrow> addr set \<Rightarrow> addr list \<Rightarrow> ('e, 'p, 'm) hosts \<Rightarrow> (addr \<rightharpoonup> worker) \<Rightarrow> (addr \<rightharpoonup> bool) \<Rightarrow> (addr \<rightharpoonup> addr) \<Rightarrow> (addr \<rightharpoonup> thread) \<Rightarrow> bool" where
  "workers_left f m X cs w K E D T \<longleftrightarrow> made f m cs K E D T \<and> dom K \<subseteq> dom (workers w) \<union> (\<lambda>j. f + 4 * j) ` {..<m} \<and>
     dom E \<subseteq> dom (ebases w) \<union> (\<lambda>j. f + 4 * j + 1) ` {..<m} \<union> X \<and> dom D \<subseteq> dom (dnsbases w) \<union> (\<lambda>j. f + 4 * j + 2) ` {..<m} \<and>
     dom T \<subseteq> dom (threads w) \<union> (\<lambda>j. f + 4 * j + 3) ` {..<m} \<and>
     below f (workers w) K \<and> below f (ebases w) E \<and> below f (dnsbases w) D \<and> below f (threads w) T"

lemma make_workers_any:
  fixes w :: "('e, 'p, 'm) prog"
  shows "host_fresh w \<Longrightarrow> svc_listeners w = Some (map Some cs) \<Longrightarrow> svc_workers w = Some (map Some ks @ replicate m None) \<Longrightarrow>
   length cs = length ks + m \<Longrightarrow>
   \<exists>ok bs F j K E D T. make_workers [length ks..<length ks + m] res w = Some (ok, w\<lparr>answers := bs, fresh := F,
       svc_workers := Some (map Some (ks @ map (\<lambda>i. fresh w + 4 * i) [0..<j]) @ replicate (m - j) None),
       workers := K, ebases := E, dnsbases := D, threads := T\<rparr>) \<and> j \<le> m \<and> (ok \<longrightarrow> j = m) \<and>
     workers_left (fresh w) j (if ok then {} else {fresh w + 4 * j + 1}) (drop (length ks) cs) w K E D T"
proof (induction m arbitrary: w ks)
  case 0
  have run: "make_workers [length ks..<length ks + 0] res w = Some (True, w\<lparr>answers := answers w, fresh := fresh w,
       svc_workers := Some (map Some (ks @ map (\<lambda>i. fresh w + 4 * i) [0..<0]) @ replicate (0 - 0) None),
       workers := workers w, ebases := ebases w, dnsbases := dnsbases w, threads := threads w\<rparr>)"
    using 0 by (auto intro!: program.equality)
  have "workers_left (fresh w) 0 (if True then {} else {fresh w + 4 * 0 + 1}) (drop (length ks) cs) w (workers w) (ebases w) (dnsbases w) (threads w)"
    by (simp add: workers_left_def made_def below_def)
  with run show ?case by blast
next
  case (Suc m)
  let ?f = "fresh w"
  let ?c = "cs ! length ks"
  have up: "[length ks..<length ks + Suc m] = length ks # [length (ks @ [?f])..<length (ks @ [?f]) + m]"
    by (simp add: upt_rec [of "length ks"])
  show ?case
  proof (cases "\<forall>i < 10. answer i w")
    case False
    obtain bs F E where W: "worker_new (Some ?c) res w = Some (None, w\<lparr>answers := bs, fresh := F, ebases := E\<rparr>)"
      "E = ebases w \<or> E = (ebases w)(Suc ?f \<mapsto> False)" using worker_new_fails [OF Suc.prems(1) False] by blast
    have "make_workers [length ks..<length ks + Suc m] res w = Some (False, w\<lparr>answers := bs, fresh := F,
       svc_workers := Some (map Some (ks @ map (\<lambda>i. ?f + 4 * i) [0..<0]) @ replicate (Suc m - 0) None),
       workers := workers w, ebases := E, dnsbases := dnsbases w, threads := threads w\<rparr>)"
      unfolding up using Suc.prems W(1) by (auto intro!: program.equality simp del: upt_Suc)
    moreover have "workers_left ?f 0 {?f + 4 * 0 + 1} (drop (length ks) cs) w (workers w) E (dnsbases w) (threads w)"
      using W(2) by (auto simp: workers_left_def made_def below_def)
    ultimately show ?thesis
      by (intro exI [of _ False] exI [of _ bs] exI [of _ F] exI [of _ 0] exI [of _ "workers w"] exI [of _ E] exI [of _ "dnsbases w"] exI [of _ "threads w"])
         (simp del: upt_Suc)
  next
    case True
    let ?w = "w\<lparr>answers := tl (drop 9 (answers w)), fresh := ?f + 4, svc_workers := Some (map Some (ks @ [?f]) @ replicate m None),
      workers := (workers w)(?f \<mapsto> worker_at ?f ?c), ebases := (ebases w)(?f + 1 \<mapsto> False),
      dnsbases := (dnsbases w)(?f + 2 \<mapsto> ?f + 1), threads := (threads w)(?f + 3 \<mapsto> \<lparr>th_id = None, th_fn = Worker_Loop\<rparr>)\<rparr>"
    have step: "make_workers [length ks..<length ks + Suc m] res w = make_workers [length (ks @ [?f])..<length (ks @ [?f]) + m] res ?w"
      unfolding up using Suc.prems
      by (auto simp: worker_new_ok [OF True, of "Some ?c" res] worker_set_prologue_def upd_worker_def list_update_append worker_at_def numeral_eq_Suc
          simp del: upt_Suc intro!: arg_cong [where f = "make_workers _ _"] program.equality)
    have fr: "host_fresh ?w" using Suc.prems(1) by (simp add: host_fresh_def)
    have p: "svc_listeners ?w = Some (map Some cs)" "svc_workers ?w = Some (map Some (ks @ [?f]) @ replicate m None)"
      "length cs = length (ks @ [?f]) + m" using Suc.prems by simp_all
    from Suc.IH [OF fr p] obtain ok bs F j K E D T where run: "make_workers [length (ks @ [?f])..<length (ks @ [?f]) + m] res ?w = Some (ok, ?w\<lparr>answers := bs, fresh := F,
       svc_workers := Some (map Some ((ks @ [?f]) @ map (\<lambda>i. fresh ?w + 4 * i) [0..<j]) @ replicate (m - j) None),
       workers := K, ebases := E, dnsbases := D, threads := T\<rparr>)"
     and j: "j \<le> m" "ok \<longrightarrow> j = m"
     and wm0: "workers_left (fresh ?w) j (if ok then {} else {fresh ?w + 4 * j + 1}) (drop (length (ks @ [?f])) cs) ?w K E D T"
      by blast
    define X where "X = (if ok then {} else {?f + 4 * Suc j + 1})"
    have "(if ok then {} else {fresh ?w + 4 * j + 1}) = X" by (simp add: X_def)
    with wm0 have wm: "workers_left (fresh ?w) j X (drop (length (ks @ [?f])) cs) ?w K E D T" by (simp only:)
    have list: "map (\<lambda>i. ?f + 4 * i) [0..<Suc j] = ?f # map (\<lambda>i. ?f + 4 + 4 * i) [0..<j]"
      by (simp add: upt_rec [of 0] map_Suc_upt [symmetric] del: upt_Suc)
    have low: "below (fresh ?w) (workers ?w) K" "below (fresh ?w) (ebases ?w) E" "below (fresh ?w) (dnsbases ?w) D" "below (fresh ?w) (threads ?w) T"
      using wm by (simp_all add: workers_left_def)
    have v: "K ?f = workers ?w ?f" "E (?f + 1) = ebases ?w (?f + 1)" "D (?f + 2) = dnsbases ?w (?f + 2)" "T (?f + 3) = threads ?w (?f + 3)"
      using belowD [OF low(1), of ?f] belowD [OF low(2), of "?f + 1"] belowD [OF low(3), of "?f + 2"] belowD [OF low(4), of "?f + 3"] by simp_all
    have "made ?f (Suc j) (?c # drop (Suc (length ks)) cs) K E D T"
      using wm v by (intro made_Suc) (simp_all add: workers_left_def)
    then have "made ?f (Suc j) (drop (length ks) cs) K E D T"
      using Suc.prems(4) by (simp add: Cons_nth_drop_Suc)
    moreover have "below ?f (workers w) K" "below ?f (ebases w) E" "below ?f (dnsbases w) D" "below ?f (threads w) T"
      using wm by (auto simp: workers_left_def below_def)
    moreover have "dom K \<subseteq> dom (workers w) \<union> (\<lambda>j. ?f + 4 * j) ` {..<Suc j}" "dom D \<subseteq> dom (dnsbases w) \<union> (\<lambda>j. ?f + 4 * j + 2) ` {..<Suc j}"
      "dom T \<subseteq> dom (threads w) \<union> (\<lambda>j. ?f + 4 * j + 3) ` {..<Suc j}"
      "dom E \<subseteq> dom (ebases w) \<union> (\<lambda>j. ?f + 4 * j + 1) ` {..<Suc j} \<union> X"
      using wm image_step [of ?f 0 j] image_step [of ?f 1 j] image_step [of ?f 2 j] image_step [of ?f 3 j]
      by (simp_all add: workers_left_def add.commute)
    ultimately have "workers_left ?f (Suc j) (if ok then {} else {?f + 4 * Suc j + 1}) (drop (length ks) cs) w K E D T"
      unfolding workers_left_def X_def by blast
    moreover have "make_workers [length ks..<length ks + Suc m] res w = Some (ok, w\<lparr>answers := bs, fresh := F,
       svc_workers := Some (map Some (ks @ map (\<lambda>i. ?f + 4 * i) [0..<Suc j]) @ replicate (Suc m - Suc j) None),
       workers := K, ebases := E, dnsbases := D, threads := T\<rparr>)"
      unfolding step run by (simp add: list del: upt_Suc)
    ultimately show ?thesis using j by blast
  qed
qed

lemma nth_update_None: "k < length ks \<Longrightarrow> ks ! k = None \<Longrightarrow> ks[i := None] ! k = None"
  by (cases "k = i") simp_all

text \<open>Entries that are still null make no difference.\<close>

lemma free_workers_tail:
  fixes w :: "('e, 'p, 'm) prog"
  shows "svc_workers w = Some ks \<Longrightarrow> \<forall>i \<in> set ys. i < length ks \<and> ks ! i = None \<Longrightarrow> free_workers (xs @ ys) w = free_workers xs w"
proof (induction xs arbitrary: w ks)
  case Nil
  have "free_workers ys w = Some w" using Nil by (induction ys) auto
  then show ?case by simp
next
  case (Cons i xs)
  have IH: "free_workers (xs @ ys) (w1\<lparr>svc_workers := Some (ks[i := None])\<rparr>) = free_workers xs (w1\<lparr>svc_workers := Some (ks[i := None])\<rparr>)"
    for w1 :: "('e, 'p, 'm) prog"
    by (rule Cons.IH [where ks = "ks[i := None]"]) (use Cons.prems(2) in \<open>auto intro: nth_update_None\<close>)
  then show ?case using Cons.IH [OF Cons.prems] Cons.prems(1) by (simp split: option.split)
qed

text \<open>The service whose construction stopped at worker \<open>j\<close> of \<open>n\<close>.\<close>

definition half_built :: "nat \<Rightarrow> nat \<Rightarrow> addr \<Rightarrow> addr \<Rightarrow> addr \<Rightarrow> ('e, 'p, 'm) prog \<Rightarrow> bool" where
  "half_built n j l c0 g w \<longleftrightarrow> svc_sessions w = Some l \<and> list_queue.holds (store_heap (lh w)) l [] \<and> ids_ok w \<and> sigs_ok w \<and>
     nworkers w = int n \<and> j \<le> n \<and> svc_listeners w = Some (map Some [c0..<c0 + n]) \<and>
     (\<forall>i < n. channels w (c0 + i) = Some idle_channel) \<and>
     svc_workers w = Some (map Some (map (\<lambda>i. g + 4 * i) [0..<j]) @ replicate (n - j) None) \<and> (\<forall>i < j. whole c0 g w i) \<and>
     dom (workers w) \<subseteq> (\<lambda>i. g + 4 * i) ` {..<j} \<and> dom (dnsbases w) \<subseteq> (\<lambda>i. g + 4 * i + 2) ` {..<j} \<and>
     dom (threads w) \<subseteq> (\<lambda>i. g + 4 * i + 3) ` {..<j} \<and>
     (\<exists>b. svc_ebase w = Some b \<and> b < g \<and> ebases w b \<noteq> None \<and> dom (ebases w) \<subseteq> insert b (insert (g + 4 * j + 1) ((\<lambda>i. g + 4 * i + 1) ` {..<j})))"

lemma fini_half_built:
  fixes w :: "('e, 'p, 'm) prog"
  assumes hb: "half_built n j l c0 g w"
  shows "\<exists>w'. init_error w = Some (-1, w') \<and> cleared w' \<and> dom (ebases w') \<subseteq> {g + 4 * j + 1}"
proof -
  note H = hb [unfolded half_built_def]
  obtain b where b: "svc_ebase w = Some b" "b < g" "ebases w b \<noteq> None"
    "dom (ebases w) \<subseteq> insert b (insert (g + 4 * j + 1) ((\<lambda>i. g + 4 * i + 1) ` {..<j}))" using H by blast
  let ?X = "(\<lambda>i. g + 4 * i + 1) ` {..<j}"
  define P where "P = (\<lambda>v :: ('e, 'p, 'm) prog. svc_sessions v = None \<and> svc_listeners v = None \<and> svc_workers v = None \<and> workers v = Map.empty \<and>
    dnsbases v = Map.empty \<and> threads v = Map.empty \<and> svc_ebase v = Some b \<and> ebases v = ebases w |` (- ?X))"
  have "\<exists>w4 T. P w4 \<and> init_error w = Some (-1, w4\<lparr>sigevents := Map.empty, ev_sigterm := None, ev_sigint := None,
     ebases := ebases w4 |` (- {b. svc_ebase w4 = Some b}), svc_ebase := None, tls := T, thread_keys := Map.empty, thread_worker_key := None,
     thread_ids := Map.empty, main_thread_id := None\<rparr>)"
  proof (rule fini_steps)
    fix h
    let ?w = "w\<lparr>lh := List_Store h, svc_sessions := None\<rparr>"
    have "\<exists>C LS. free_listeners [0..<0 + n] ?w = Some (?w\<lparr>channels := C, svc_listeners := LS\<rparr>)"
      by (rule free_idle_listeners [where ls = "map Some [c0..<c0 + n]" and ?c0.0 = c0]) (use H in simp_all)
    then obtain C LS where C: "free_listeners [0..<n] ?w = Some (?w\<lparr>channels := C, svc_listeners := LS\<rparr>)" by auto
    let ?w3 = "?w\<lparr>channels := C, svc_listeners := None\<rparr>"
    let ?ks = "map Some (map (\<lambda>i. g + 4 * i) [0..<j]) @ replicate (n - j) None"
    have "\<exists>LS. free_workers [0..<0 + j] ?w3 = Some (?w3\<lparr>workers := workers ?w3 |` (- (\<lambda>j. g + 4 * j) ` {0..<0 + j}),
        ebases := ebases ?w3 |` (- (\<lambda>j. g + 4 * j + 1) ` {0..<0 + j}), dnsbases := dnsbases ?w3 |` (- (\<lambda>j. g + 4 * j + 2) ` {0..<0 + j}),
        threads := threads ?w3 |` (- (\<lambda>j. g + 4 * j + 3) ` {0..<0 + j}), svc_workers := LS\<rparr>)"
      by (rule free_workers_runs [where ks = ?ks and ?c0.0 = c0]) (use H in \<open>auto simp: whole_def nth_append\<close>)
    then obtain LS2 where fw: "free_workers [0..<j] ?w3 = Some (?w3\<lparr>workers := workers w |` (- (\<lambda>j. g + 4 * j) ` {..<j}),
        ebases := ebases w |` (- ?X), dnsbases := dnsbases w |` (- (\<lambda>j. g + 4 * j + 2) ` {..<j}),
        threads := threads w |` (- (\<lambda>j. g + 4 * j + 3) ` {..<j}), svc_workers := LS2\<rparr>)" (is "_ = Some ?w4")
      by (auto simp: atLeast0LessThan)
    have fw': "free_workers [0..<n] ?w3 = Some ?w4"
    proof -
      have "[0..<n] = [0..<j] @ [j..<n]" using H upt_add_eq_append [of 0 j "n - j"] by simp
      moreover have "free_workers ([0..<j] @ [j..<n]) ?w3 = free_workers [0..<j] ?w3"
        by (rule free_workers_tail [where ks = ?ks]) (use H in \<open>auto simp: nth_append\<close>)
      ultimately show ?thesis using fw by simp
    qed
    let ?w5 = "?w4\<lparr>svc_workers := None\<rparr>"
    have D: "workers w |` (- (\<lambda>j. g + 4 * j) ` {..<j}) = Map.empty" "dnsbases w |` (- (\<lambda>j. g + 4 * j + 2) ` {..<j}) = Map.empty"
      "threads w |` (- (\<lambda>j. g + 4 * j + 3) ` {..<j}) = Map.empty" by (rule restrict_dom, use H in simp)+
    have "b \<notin> ?X" using b(2) by auto
    then have P5: "P ?w5" "ebases ?w5 b \<noteq> None" using b(1,3) D by (simp_all add: P_def)
    show "\<exists>w3. (case svc_listeners w of None \<Rightarrow> Some (w\<lparr>lh := List_Store h, svc_sessions := None\<rparr>)
        | Some ls \<Rightarrow> do { w3 \<leftarrow> free_listeners [0..<nat (nworkers w)] (w\<lparr>lh := List_Store h, svc_sessions := None\<rparr>); Some (w3\<lparr>svc_listeners := None\<rparr>) }) = Some w3 \<and>
      (\<exists>w4. (case svc_workers w3 of None \<Rightarrow> Some w3
        | Some ks \<Rightarrow> do { w4 \<leftarrow> free_workers [0..<nat (nworkers w3)] w3; Some (w4\<lparr>svc_workers := None\<rparr>) }) = Some w4 \<and>
        ids_ok w4 \<and> sigs_ok w4 \<and> (\<forall>b. svc_ebase w4 = Some b \<longrightarrow> ebases w4 b \<noteq> None) \<and> P w4)"
      using C fw' H P5 b(1) by simp
  qed (use H in auto)
  then obtain w4 T where w4: "P w4" "init_error w = Some (-1, w4\<lparr>sigevents := Map.empty, ev_sigterm := None, ev_sigint := None,
     ebases := ebases w4 |` (- {b. svc_ebase w4 = Some b}), svc_ebase := None, tls := T, thread_keys := Map.empty, thread_worker_key := None,
     thread_ids := Map.empty, main_thread_id := None\<rparr>)" by blast
  moreover have "dom (ebases w4 |` (- {b. svc_ebase w4 = Some b})) \<subseteq> {g + 4 * j + 1}" using b(4) w4(1) by (auto simp: P_def)
  ultimately show ?thesis by (simp add: cleared_def P_def)
qed

subsection \<open>The outcome\<close>

text \<open>
  How \<open>http_service_init\<close> can end once the list of sessions exists: the service is complete; or everything
  was released and the pointers cleared, at most one event base (\<open>worker_new\<close>'s) staying allocated; or the
  array of workers could not be allocated, where the function returns without the error exit.
\<close>

definition abandoned :: "int \<Rightarrow> addr \<Rightarrow> ('e, 'p, 'm) prog \<Rightarrow> bool" where
  "abandoned n l w \<longleftrightarrow> svc_sessions w = Some l \<and> nworkers w = 0 \<and> svc_workers w = None \<and>
     (\<exists>c0. svc_listeners w = Some (map Some [c0..<c0 + nat n]) \<and> (\<forall>i < nat n. channels w (c0 + i) = Some idle_channel))"

definition init_outcome :: "int \<Rightarrow> addr \<Rightarrow> (int \<times> ('e, 'p, 'm) prog) option \<Rightarrow> bool" where
  "init_outcome n l x \<longleftrightarrow> (\<exists>r w. x = Some (r, w) \<and>
     (r = 0 \<and> (\<exists>c0 g. half_built (nat n) (nat n) l c0 g w) \<or>
      r = -1 \<and> (cleared w \<and> (\<exists>a. dom (ebases w) \<subseteq> {a}) \<or> abandoned n l w)))"

lemma make_listeners_all:
  fixes w :: "('e, 'p, 'm) prog"
  assumes "svc_listeners w = Some (replicate m None)" "f = fresh w" "H = channels w"
  shows "\<exists>ok bs F C ls. make_listeners [0..<m] w = Some (ok, w\<lparr>answers := bs, fresh := F, svc_listeners := Some ls, channels := C\<rparr>) \<and> f \<le> F \<and>
     (ok \<longrightarrow> ls = map Some [f..<f + m] \<and> C = (\<lambda>c. if f \<le> c \<and> c < f + m then Some idle_channel else H c))"
  unfolding assms(2,3) using make_listeners_any [of w "[]" m] assms(1) by simp

lemma make_workers_all:
  fixes w :: "('e, 'p, 'm) prog"
  assumes "host_fresh w" "svc_listeners w = Some (map Some cs)" "svc_workers w = Some (replicate m None)" "length cs = m" "f = fresh w"
  shows "\<exists>ok bs F j K E D T. make_workers [0..<m] res w = Some (ok, w\<lparr>answers := bs, fresh := F,
       svc_workers := Some (map Some (map (\<lambda>i. f + 4 * i) [0..<j]) @ replicate (m - j) None),
       workers := K, ebases := E, dnsbases := D, threads := T\<rparr>) \<and> j \<le> m \<and> (ok \<longrightarrow> j = m) \<and>
     workers_left f j (if ok then {} else {f + 4 * j + 1}) cs w K E D T"
proof -
  have "svc_workers w = Some (map Some [] @ replicate m None)" "length cs = length ([] :: addr list) + m" using assms by simp_all
  from make_workers_any [OF assms(1,2) this] show ?thesis unfolding assms(5) by (simp only: list.size drop_0 append_Nil add_0)
qed

lemma init_error_outcome: "begun l w \<Longrightarrow> init_outcome n l (init_error w)"
  using fini_begun [of l w] by (fastforce simp: init_outcome_def)

lemma init_workers_outcome:
  fixes w :: "('e, 'p, 'm) prog"
  assumes b: "begun l w" and base: "svc_ebase w = Some b" and lst: "svc_listeners w = Some (map Some [c0..<c0 + nat n])"
    and ch: "\<forall>i < nat n. channels w (c0 + i) = Some idle_channel"
  shows "init_outcome n l (init_workers n sa res w)"
proof (cases "answer 0 w \<and> 0 \<le> n")
  case False
  then have "init_workers n sa res w = Some (-1, w\<lparr>answers := tl (answers w)\<rparr>)"
    by (auto simp: init_workers_def calloc_array_def ask_if)
  moreover have "abandoned n l (w\<lparr>answers := tl (answers w)\<rparr>)"
    using b lst ch by (auto simp: abandoned_def begun_def)
  ultimately show ?thesis by (simp add: init_outcome_def)
next
  case True
  note B = b [unfolded begun_def]
  let ?w = "w\<lparr>answers := tl (answers w), nworkers := n, svc_workers := Some (replicate (nat n) None)\<rparr>"
  let ?g = "fresh w"
  have run: "init_workers n sa res w = do { (ok, w2) \<leftarrow> make_workers [0..<nat n] res ?w;
      if ok then Some (0, w2\<lparr>svc_sockaddr := sa\<rparr>) else init_error w2 }"
    using True by (simp add: init_workers_def calloc_array_def ask_if)
  have "host_fresh ?w" using B by (simp add: host_fresh_def)
  then have "\<exists>ok bs F j K E D T. make_workers [0..<nat n] res ?w = Some (ok, ?w\<lparr>answers := bs, fresh := F,
       svc_workers := Some (map Some (map (\<lambda>i. ?g + 4 * i) [0..<j]) @ replicate (nat n - j) None),
       workers := K, ebases := E, dnsbases := D, threads := T\<rparr>) \<and> j \<le> nat n \<and> (ok \<longrightarrow> j = nat n) \<and>
     workers_left ?g j (if ok then {} else {?g + 4 * j + 1}) [c0..<c0 + nat n] ?w K E D T"
    by (rule make_workers_all) (simp_all add: lst)
  then
  obtain ok bs F j K E D T where mk: "make_workers [0..<nat n] res ?w = Some (ok, ?w\<lparr>answers := bs, fresh := F,
       svc_workers := Some (map Some (map (\<lambda>i. ?g + 4 * i) [0..<j]) @ replicate (nat n - j) None),
       workers := K, ebases := E, dnsbases := D, threads := T\<rparr>)" and j: "j \<le> nat n" "ok \<longrightarrow> j = nat n"
    and left: "workers_left ?g j (if ok then {} else {?g + 4 * j + 1}) [c0..<c0 + nat n] ?w K E D T" by blast
  let ?w2 = "?w\<lparr>answers := bs, fresh := F, svc_workers := Some (map Some (map (\<lambda>i. ?g + 4 * i) [0..<j]) @ replicate (nat n - j) None),
       workers := K, ebases := E, dnsbases := D, threads := T\<rparr>"
  have dw: "dom (ebases w) = {b}" using B base by simp
  then have "ebases w b \<noteq> None" using domIff [of b "ebases w"] by blast
  have "b < ?g" using B \<open>ebases w b \<noteq> None\<close> by (meson leI)
  have Eb: "E b \<noteq> None" using left belowD [of ?g "ebases ?w" E b] \<open>b < ?g\<close> \<open>ebases w b \<noteq> None\<close> by (simp add: workers_left_def)
  have "whole c0 ?g ?w2 i" if "i < j" for i
    using left that j by (simp add: workers_left_def made_def whole_def)
  moreover have "dom K \<subseteq> (\<lambda>i. ?g + 4 * i) ` {..<j}" "dom D \<subseteq> (\<lambda>i. ?g + 4 * i + 2) ` {..<j}" "dom T \<subseteq> (\<lambda>i. ?g + 4 * i + 3) ` {..<j}"
    using left B by (simp_all add: workers_left_def)
  moreover have "dom E \<subseteq> insert b (insert (?g + 4 * j + 1) ((\<lambda>i. ?g + 4 * i + 1) ` {..<j}))"
    using left dw by (auto simp: workers_left_def split: if_splits)
  ultimately have hb: "half_built (nat n) j l c0 ?g ?w2" "half_built (nat n) j l c0 ?g (?w2\<lparr>svc_sockaddr := sa\<rparr>)"
    using B base lst ch j True Eb \<open>b < ?g\<close> by (simp_all add: half_built_def whole_def)
  show ?thesis
  proof (cases ok)
    case True
    then have "init_workers n sa res w = Some (0, ?w2\<lparr>svc_sockaddr := sa\<rparr>)" by (simp add: run mk)
    with True j hb(2) show ?thesis unfolding init_outcome_def by blast
  next
    case False
    then have "init_workers n sa res w = init_error ?w2" by (simp add: run mk)
    with fini_half_built [OF hb(1)] show ?thesis unfolding init_outcome_def by metis
  qed
qed

lemma init_listeners_outcome:
  fixes w :: "('e, 'p, 'm) prog"
  assumes b: "begun l w" and base: "svc_ebase w = Some b"
  shows "init_outcome n l (do { (ok, w9) \<leftarrow> init_listeners n w; if ok then init_workers n sa res w9 else init_error w9 })"
proof (cases "answer 0 w \<and> 0 \<le> n")
  case False
  then have "init_listeners n w = Some (False, w\<lparr>answers := tl (answers w)\<rparr>)"
    by (auto simp: init_listeners_def calloc_array_def ask_if)
  moreover have "begun l (w\<lparr>answers := tl (answers w)\<rparr>)" using b by (simp add: begun_def)
  ultimately show ?thesis by (simp add: init_error_outcome)
next
  case True
  let ?w = "w\<lparr>answers := tl (answers w), svc_listeners := Some (replicate (nat n) None)\<rparr>"
  have run: "init_listeners n w = make_listeners [0..<nat n] ?w"
    using True by (simp add: init_listeners_def calloc_array_def ask_if)
  have "\<exists>ok bs F C ls. make_listeners [0..<nat n] ?w = Some (ok, ?w\<lparr>answers := bs, fresh := F, svc_listeners := Some ls, channels := C\<rparr>) \<and> fresh w \<le> F \<and>
     (ok \<longrightarrow> ls = map Some [fresh w..<fresh w + nat n] \<and>
        C = (\<lambda>c. if fresh w \<le> c \<and> c < fresh w + nat n then Some idle_channel else channels w c))"
    by (rule make_listeners_all) simp_all
  then
  obtain ok bs F C ls where mk: "make_listeners [0..<nat n] ?w = Some (ok, ?w\<lparr>answers := bs, fresh := F, svc_listeners := Some ls, channels := C\<rparr>)"
    and F: "fresh w \<le> F" and full: "ok \<longrightarrow> ls = map Some [fresh w..<fresh w + nat n] \<and>
        C = (\<lambda>c. if fresh w \<le> c \<and> c < fresh w + nat n then Some idle_channel else channels w c)" by blast
  let ?w9 = "?w\<lparr>answers := bs, fresh := F, svc_listeners := Some ls, channels := C\<rparr>"
  have b9: "begun l ?w9" using b F by (simp add: begun_def)
  show ?thesis
  proof (cases ok)
    case True
    then have "init_outcome n l (init_workers n sa res ?w9)"
      by (intro init_workers_outcome [OF b9]) (use base full in auto)
    with True show ?thesis by (simp add: run mk)
  next
    case False
    with init_error_outcome [OF b9] show ?thesis by (simp add: run mk)
  qed
qed

text \<open>From a list of sessions on.\<close>

lemma init_signals_outcome:
  fixes w :: "('e, 'p, 'm) prog"
  assumes b: "begun l w" and none: "ev_sigterm w = None" "ev_sigint w = None" and base: "svc_ebase w = Some b"
  shows "init_outcome n l (let (ok, w7) = add_signal (\<lambda>e w. w\<lparr>ev_sigterm := e\<rparr>) w
      in if \<not> ok then init_error w7
      else let (ok, w8) = add_signal (\<lambda>e w. w\<lparr>ev_sigint := e\<rparr>) w7
      in if \<not> ok then init_error w8
      else do { (ok, w9) \<leftarrow> init_listeners n w8; if ok then init_workers n sa res w9 else init_error w9 })"
proof -
  obtain ok7 w7 where w7: "add_signal (\<lambda>e w. w\<lparr>ev_sigterm := e\<rparr>) w = (ok7, w7)" by fastforce
  obtain ok8 w8 where w8: "add_signal (\<lambda>e w. w\<lparr>ev_sigint := e\<rparr>) w7 = (ok8, w8)" by fastforce
  have b7: "begun l w7" "ev_sigint w7 = None" using add_sigterm [OF b none(1) w7] none(2) by simp_all
  have b8: "begun l w8" using add_sigint [OF b7 w8] by simp
  have "svc_ebase w7 = svc_ebase w" "svc_ebase w8 = svc_ebase w7"
    using w7 w8 by (auto simp: add_signal_def evsignal_new_def event_add_def new_addr_if ask_if Let_def split: if_splits)
  with base have "svc_ebase w8 = Some b" by simp
  from init_listeners_outcome [OF b8 this] init_error_outcome [OF b7(1)] init_error_outcome [OF b8]
  show ?thesis unfolding w7 w8 Let_def prod.case by (simp only: if_split) blast
qed

lemma init_list_outcome:
  fixes w :: "('e, 'p, 'm) prog"
  assumes b: "begun l w" and none: "ev_sigterm w = None" "ev_sigint w = None" "svc_ebase w = None"
  shows "init_outcome n l (let (m, w3) = mutex_new w; w4 = w3\<lparr>svc_mutex := m\<rparr>
      in if m = None then init_error w4
      else let (eb, w5) = event_base_new w4; w6 = w5\<lparr>svc_ebase := eb\<rparr>
      in if eb = None then init_error w6
      else let (ok, w7) = add_signal (\<lambda>e w. w\<lparr>ev_sigterm := e\<rparr>) w6
      in if \<not> ok then init_error w7
      else let (ok, w8) = add_signal (\<lambda>e w. w\<lparr>ev_sigint := e\<rparr>) w7
      in if \<not> ok then init_error w8
      else do { (ok, w9) \<leftarrow> init_listeners n w8; if ok then init_workers n sa res w9 else init_error w9 })"
    (is "init_outcome n l (let (m, w3) = mutex_new w; w4 = w3\<lparr>svc_mutex := m\<rparr> in if m = None then init_error w4
      else let (eb, w5) = event_base_new w4; w6 = w5\<lparr>svc_ebase := eb\<rparr> in if eb = None then init_error w6 else ?rest w6)")
proof -
  obtain m w3 where w3: "mutex_new w = (m, w3)" by fastforce
  let ?w4 = "w3\<lparr>svc_mutex := m\<rparr>"
  obtain eb w5 where w5: "event_base_new ?w4 = (eb, w5)" by fastforce
  let ?w6 = "w5\<lparr>svc_ebase := eb\<rparr>"
  have b4: "begun l ?w4" "ev_sigterm ?w4 = None" "ev_sigint ?w4 = None" "svc_ebase ?w4 = None"
    using b none w3 by (auto simp: mutex_new_def new_addr_if begun_def split: if_splits)
  have e: "ebases ?w4 = Map.empty" using b4(1,4) by (simp add: begun_def)
  have b6: "begun l ?w6" "ev_sigterm ?w6 = None" "ev_sigint ?w6 = None" "svc_ebase ?w6 = eb"
    using b4 e w5 by (auto simp: event_base_new_def new_addr_if begun_def split: if_splits)
  have "init_outcome n l (?rest ?w6)" if "eb = Some b" for b
    by (rule init_signals_outcome [OF b6(1-3)]) (use b6(4) that in simp)
  with init_error_outcome [OF b4(1)] init_error_outcome [OF b6(1)] show ?thesis
    unfolding w3 w5 Let_def prod.case by (cases m; cases eb) (simp_all only: if_True if_False simp_thms option.distinct)
qed


lemma blank_unstarted: "unstarted (blank_program\<lparr>answers := bs\<rparr>)"
  by (simp add: unstarted_def blank_program_def heap_rep_empty)


end
