(* ===== verification/Faults.thy ===== *)
theory Faults
  imports Lifecycle Service_Stop
begin

section \<open>Faults\<close>

text \<open>
  What the assumptions of the safety theorem exclude, and where the code fails when they do not hold: a lookup
  that libevent answers at once, and an event for a channel without a service.
\<close>

subsection \<open>A lookup that fails at once\<close>

lemma core_later: "core w \<Longrightarrow> core (w\<lparr>answers := bs, fresh := Suc (fresh w)\<rparr>)"
  by (simp add: core_def fresh_ok_mono [of w "Suc (fresh w)"] fresh_ok_def unused_Suc unused_set_Suc)

lemma svc_ok_later: "svc_ok w \<Longrightarrow> svc_ok (w\<lparr>answers := bs, fresh := F, ext := e\<rparr>)"
  by (simp add: svc_ok_def)

lemma failed_lookup_removes:
  assumes core: "core w" and svc: "svc_ok w" and s: "sessions w a = Some s"
  shows "\<exists>w2. do { w2 \<leftarrow> session_state_set a ERROR_RESOLVING_DOMAIN (w\<lparr>answers := bs, fresh := Suc (fresh w), ext := e\<rparr>);
        http_service_session_remove a w2 } = Some w2 \<and> sessions w2 a = None \<and> dns_requests w2 = dns_requests w"
proof -
  let ?s = "s\<lparr>ss_state := ERROR_RESOLVING_DOMAIN\<rparr>"
  let ?w1 = "w\<lparr>answers := bs, fresh := Suc (fresh w), ext := e\<rparr>"
  have c1: "core ?w1" using core_later [OF core, of bs] by (metis core_frame(1))
  have v1: "svc_ok ?w1" by (rule svc_ok_later [OF svc])
  let ?w2 = "?w1\<lparr>sessions := (sessions ?w1)(a \<mapsto> ?s)\<rparr>"
  have st: "step_ok a ?w1 ?w2" by (rule step_session [OF c1 v1]) (simp_all add: s)
  have "\<exists>w'. http_service_session_remove a ?w2 = Some w' \<and> session_removed a ?s ?w2 w'"
    by (rule session_remove_exact) (use st in \<open>simp_all add: step_ok_def\<close>)
  then obtain w' where w': "http_service_session_remove a ?w2 = Some w'" "session_removed a ?s ?w2 w'" by blast
  have "session_state_set a ERROR_RESOLVING_DOMAIN ?w1 = Some ?w2" using s by (simp add: session_state_set_def upd_session_def)
  with w' show ?thesis by (intro exI [of _ w']) (simp add: session_removed_def session_gone_def)
qed

text \<open>C18.
  A lookup that fails at once is not survived. When the thread has no resolver, or when libevent reports an error before
  \<open>evdns_getaddrinfo\<close> returns, the session is released inside the call, and the caller then
  writes to the released DNS request or counts a pending resolution in the released session: there is no defined result.
\<close>

theorem lookup_failing_at_once_is_unsafe:
  assumes core: "core w" and svc: "svc_ok w" and s: "sessions w a = Some s" "ss_me s = Some r" and mem: "answer 0 w"
    and fails: "this_dns w = None \<or> (\<exists>err e. evdns_getaddrinfo L domain (ext w) = (Gai_now (Gai_error err), e))"
  shows "dns_request_new L a domain i w = None"
proof -
  note C = coreD [OF core]
  let ?d = "fresh w"
  obtain X where X: "refs w r = Some X" "ref_ptr X = Some a" "weak_refcnt X = weak_holders (dns_requests w) r"
    using refs_ok_me [OF C(5) s] by metis
  have wk: "int_ok (weak_refcnt X + 1)" "int_ok (weak_refcnt X)" by (simp_all add: X(3) weak_holders_def int_ok_def)
  have nd: "dns_requests w ?d = None" using C(1) by (simp add: fresh_ok_def unused_def)
  let ?D = "\<lparr>dr_idx = 0, dr_evdns_req = None, dr_session = Some r\<rparr>"
  let ?w3 = "w\<lparr>answers := tl (answers w), fresh := Suc ?d, dns_requests := (dns_requests w)(?d \<mapsto> ?D),
     refs := (refs w)(r \<mapsto> X\<lparr>weak_refcnt := weak_refcnt X + 1\<rparr>)\<rparr>"
  let ?w1 = "\<lambda>e. w\<lparr>answers := tl (answers w), fresh := Suc ?d, ext := e\<rparr>"
  have start: "dns_request_new L a domain i w = do { w4 \<leftarrow> dnsname_resolve L ?d domain i ?w3; s4 \<leftarrow> sessions w4 a;
      m \<leftarrow> c_int (ss_pending_resolutions s4 + 1); w5 \<leftarrow> upd_session a (\<lambda>s. s\<lparr>ss_pending_resolutions := m\<rparr>) w4; Some (Some ?d, w5) }"
    using s mem X(1) wk by (simp add: dns_request_new_def new_addr_if reference_weak_inc_def Let_def)
  have free: "dns_request_free (Some ?d) (?w3\<lparr>ext := e\<rparr>) = Some (?w1 e)" for e
    using X wk nd by (auto simp: dns_request_free_def reference_weak_dec_def Let_def fun_upd_idem intro!: world.equality)
  have free': "dns_request_free (Some ?d) (w\<lparr>answers := tl (answers w), fresh := Suc ?d,
     refs := (refs w)(r \<mapsto> X\<lparr>weak_refcnt := weak_refcnt X + 1\<rparr>), ext := e, dns_requests := (dns_requests w)(?d \<mapsto> ?D)\<rparr>) = Some (?w1 e)" for e
    using X wk nd by (auto simp: dns_request_free_def reference_weak_dec_def Let_def fun_upd_idem intro!: world.equality)
  have get: "reference_get (Some r) (?w3\<lparr>ext := e\<rparr>) = Some (Some a)" for e using X by (simp add: reference_get_def)
  show ?thesis
  proof (cases "this_dns w = None")
    case True
    obtain w2 where w2: "session_state_set a ERROR_RESOLVING_DOMAIN (?w1 (ext w)) \<bind> http_service_session_remove a = Some w2" "sessions w2 a = None"
      using failed_lookup_removes [OF core svc s(1)] by blast
    have "dnsname_resolve L ?d domain i ?w3 = Some w2"
      using True free [of "ext w"] get [of "ext w"] w2(1) by (simp add: dnsname_resolve_def)
    with start w2(2) show ?thesis by simp
  next
    case False
    then obtain err e where e: "evdns_getaddrinfo L domain (ext w) = (Gai_now (Gai_error err), e)" using fails by auto
    obtain w2 where w2: "session_state_set a ERROR_RESOLVING_DOMAIN (?w1 e) \<bind> http_service_session_remove a = Some w2"
      "dns_requests w2 = dns_requests w"
      using failed_lookup_removes [OF core svc s(1)] by blast
    have "dnsname_resolved_cb L (Gai_error err) ?d (?w3\<lparr>ext := e\<rparr>) = Some w2"
      using free' [of e] get [of e] w2(1) by (simp add: dnsname_resolved_cb_def)
    then have "dnsname_resolve L ?d domain i ?w3 = None"
      using False e w2(2) nd by (auto simp: dnsname_resolve_def Let_def)
    with start show ?thesis by simp
  qed
qed

text \<open>The session of \<open>asking_world\<close> with a list of sessions, in a thread without a resolver.\<close>

definition unresolved_world :: "list_heap \<Rightarrow> (buffers, nat) world" where
  "unresolved_world h = asking_world\<lparr>lh := List_Store h, this_dns := None\<rparr>"

theorem lookup_failing_at_once_is_unsafe_witness:
  "\<exists>h. dns_request_new scripted 4 ''api.icndb.com'' JOKE (unresolved_world h) = None"
proof -
  obtain h where h: "list_queue.holds h 0 (map Some [] @ [Some 4])"
    using list_queue.holds_push_back [OF demo_holds(1) demo_holds(2), of "Some 4"] by auto
  have "core (unresolved_world h)" using asking_core by (simp add: unresolved_world_def core_def fresh_ok_def)
  moreover have "svc_ok (unresolved_world h)"
    unfolding svc_ok_def using h
    by (intro exI [of _ 0] exI [of _ 1] exI [of _ "[4]"]) (simp add: unresolved_world_def asking_world_def waiting_world_def demo_world_def)
  ultimately show ?thesis
    using lookup_failing_at_once_is_unsafe [of "unresolved_world h" 4 "(waiting_session JOKE)\<lparr>ss_me := Some 10\<rparr>" 10 scripted "''api.icndb.com''" JOKE]
    by (auto simp: unresolved_world_def asking_world_def waiting_world_def demo_world_def answer_def)
qed

subsection \<open>An event without a service\<close>

text \<open>
  The test at the top of \<open>tcp_socket_event_cb\<close> protects nothing. A channel without a service, or one whose service has no event callback, such as a listener of
  the HTTP service, makes the event callback dereference or call a null pointer, whatever the event is; the read and the write
  callback leave the same channels alone.
\<close>

theorem event_guard_is_ineffective:
  assumes c: "channels w c = Some C" and none: "ch_service C = None \<or> ch_service C = Some Http_io_service"
  shows "tcp_socket_event_cb (services L) events (Some c) w = None \<and>
     tcp_socket_read_cb (services L) (Some c) w = Some w \<and> tcp_socket_write_cb (services L) (Some c) w = Some w"
  using c none by (auto simp: tcp_socket_event_cb_def tcp_socket_read_cb_def tcp_socket_write_cb_def services_def Let_def)

theorem event_guard_is_ineffective_witness:
  "tcp_socket_event_cb (services scripted) 0 (Some 4) demo_world = None"
  using event_guard_is_ineffective [of demo_world 4] by (simp add: demo_world_def)

end
