(* ===== verification/Spec2Isabelle.thy ===== *)
theory Spec2Isabelle
  imports Hashtable List_Test Concurrency Init_Errors Faults
begin

text \<open>
  A verification of the web service of this repository: a multi-threaded HTTP server in C on libevent
  that answers every request with a joke. It looks up two upstream servers, asks one for a name and the
  other for a joke about Eduardo Panisset, puts the name into the joke and sends it to the client.

  \<^bold>\<open>The program and its model\<close>

  The model is a shallow embedding with explicit state. Every C object lives in a map from addresses to records,
  one map per type of object; a pointer is \<open>NULL\<close> (\<open>None\<close>) or an address; the statics and the
  maps are the fields of one record that grows from component to component (\<open>mem\<close>, \<open>lock_heap\<close>,
  \<open>ref_heap\<close>, \<open>str_heap\<close>, \<open>net\<close>, \<open>http\<close>, \<open>world\<close>, \<open>process\<close>, \<open>host\<close>, \<open>program\<close>). A C function is
  a function on the state with an optional result: \<open>None\<close> is undefined behaviour (a
  released or null object is used, an object is freed twice, an \<open>int\<close> overflows, a lock is released that is not held), a wait that
  nobody can end, or an endless loop (loops are \<open>partial_function (option)\<close>). So a statement that
  the result is \<open>Some\<close> says that the code is free of these and returns. Error codes are values. Which allocations and library calls fail is
  told by \<open>answers\<close>, a list of booleans that is used up from the front; an empty list means success.

  From the bottom up, with the files under \<^verbatim>\<open>src\<close>:
  \<^item> \<open>Prelude\<close>: pointers, the allocator, C integers, \<open>runs\<close>, and the lemmas and hints all share;
    \<open>Interfaces\<close>: the contracts between components as locales, \<open>value_queue\<close> (the list, for the service) and \<open>bucket_array\<close>
    (the buckets, for the hash table), interpreted on the models in \<open>Linked_List\<close> and \<open>Slist\<close>.
  \<^item> \<open>Linked_List\<close> (\<^verbatim>\<open>common/list.h\<close>, \<^verbatim>\<open>common/list.c\<close>) and \<open>List_Test\<close> (\<^verbatim>\<open>common/list-test.c\<close>);
    \<open>Slist\<close> (\<^verbatim>\<open>common/slist.h\<close>, \<^verbatim>\<open>common/slist.c\<close>) and \<open>Hashtable\<close> (\<^verbatim>\<open>webservice/hashtable.h\<close>, \<^verbatim>\<open>webservice/hashtable.c\<close>).
    Lists are heaps of nodes with the code's pointers to pointer variables; the lemmas refine them to sequences, the hash table to a map.
  \<^item> \<open>Locks\<close> (\<^verbatim>\<open>webservice/pthread_mutex.c\<close>, \<^verbatim>\<open>webservice/pthread_rwlock.c\<close>) and \<open>Reference\<close> (\<^verbatim>\<open>webservice/reference.h\<close>,
    \<^verbatim>\<open>webservice/atomic.h\<close>): locks and counted references.
  \<^item> \<open>Joke\<close>: \<open>joke_create\<close> of \<^verbatim>\<open>webservice/session.c\<close>, byte by byte in its buffer.
  \<^item> \<open>Libraries\<close>: the calls into libevent, http\_parser, jansson and the clock, as the record \<open>lib\<close> of
    parameters, and what is documented of the buffers.
  \<^item> \<open>Tcp_Socket\<close> (\<^verbatim>\<open>webservice/io_channel.h\<close>, \<^verbatim>\<open>webservice/io_service.h\<close>, \<^verbatim>\<open>webservice/tcp_socket.c\<close>): channels, their table of
    operations and the callbacks libevent calls; \<open>Http_Message\<close> and \<open>Http_Engine\<close> (\<^verbatim>\<open>webservice/http_session.c\<close>): the
    HTTP session, its two writers, the callbacks of the parser and the read and write loops.
  \<^item> \<open>Session_Store\<close> and \<open>Session\<close> (\<^verbatim>\<open>webservice/session.c\<close>, and the list of sessions of \<^verbatim>\<open>webservice/http_service.c\<close>): the
    state machine of a client's request.
  \<^item> \<open>Threads\<close> (\<^verbatim>\<open>webservice/pthread.c\<close>), \<open>Worker\<close> (\<^verbatim>\<open>webservice/worker.c\<close>), \<open>Http_Service\<close> (\<^verbatim>\<open>webservice/http_service.c\<close>) and \<open>Webserver\<close>
    (\<^verbatim>\<open>webservice/tigera_webserver.c\<close>): threads, event loops, start and stop of the service, the command line and \<open>main\<close>.

  libevent calls a socket callback; it looks up the service object of the channel (\<open>services\<close>), which
  calls the engine; the engine runs the parser, whose callbacks change the HTTP session, and calls the session's callbacks (\<open>run_http_cb\<close>); these
  write to other channels, start lookups and connections, or remove the session from the service's list. \<open>handle_event\<close> in
  \<open>Safety\<close> is that whole chain for one event.

  \<^bold>\<open>What is shown\<close>

  \<^item> Safety. \<open>Ownership\<close> states who owns what (\<open>core\<close>); \<open>Lifetimes\<close>, \<open>Engine_Safety\<close>, \<open>Session_Safety\<close> and
    \<open>Reply_Safety\<close> show for every operation that it runs and keeps this and the state of the session (\<open>logic\<close>);
    \<open>Safety\<close> puts them together: after any sequence of events the next handler returns. \<open>Scripted\<close> has libraries that satisfy the assumptions.
  \<^item> Behaviour. \<open>Behaviours\<close> and \<open>Lifecycle\<close>: types of the callbacks' arguments, who holds what between events,
    what each event does to a session from the accepted connection to the last byte sent, and a DNS answer that comes too late.
  \<^item> The whole run. \<open>Service_Start\<close>, \<open>Service_Stop\<close>: from the command line through the start of the workers and the
    signal to the release of everything. \<open>Init_Errors\<close>: the construction of the service with any allocation failing.
  \<^item> Workers at the same time. \<open>Concurrency\<close>: the two functions that change what the threads share, step by step
    under any schedule: no undefined behaviour, no deadlock, and the effect of whole calls one after the other.
  \<^item> Components: refinement of the lists and of the hash table, the counted references, \<open>joke_create\<close> against a reference
    definition, all outcomes of connecting, accepting and listening, the written HTTP messages read back, the command line.
  \<^item> Defects. \<open>Faults\<close> and several of the outcome theorems show what the code does where it does not do what it should.

  \<^bold>\<open>Assumptions and bounds\<close>

  \<^item> Of the libraries (\<open>env_ok\<close>): \<open>evdns_getaddrinfo\<close> does not call back before it returns (the code does not survive it,
    \<open>lookup_failing_at_once_is_unsafe\<close>); \<open>bufferevent_socket_connect\<close> does not fail at once (the code then frees the bufferevent twice,
    \<open>tcp_socket_connect_outcome\<close>); the strings found in a reply have at most 1000 bytes, so that the lengths in \<open>joke_create\<close> fit an \<open>int\<close>.
  \<^item> Of http\_parser (\<open>parser_laws\<close>, \<open>parser_counts\<close>): the documented order of its callbacks, that a paused or failed parser stops, and that it
    does not consume more than it is given. Of the buffers (\<open>evbuffer_laws\<close>): they are sequences of bytes.
  \<^item> Of the events (\<open>event_ok\<close>): the node for a new session can be allocated, which the code does not test; and a client sends nothing more after its complete request
    until the response is out, since the code would handle the request a second time.
  \<^item> At most $2^{30}$ events: the counters of a session are \<open>int\<close>s and change by at most 2 with every event.
  \<^item> Loops need no fuel. Those of the lists end because the lists are finite, the read loop because every round moves
    the state of the message on or ends it, and \<open>phase_step\<close> in \<open>Concurrency\<close> because the rest of a call has been shown to be defined.

  Handlers of different workers are interleaved as wholes in \<open>event_loop\<close>. All they share is the list of sessions
  and its mutex, and \<open>Concurrency\<close> shows that there whole calls are what any interleaving amounts to; everything else a handler touches
  belongs to a session of its own thread.

  \<^bold>\<open>Not modelled\<close>

  \<^item> \<^verbatim>\<open>webservice/thread_test.c\<close> and \<^verbatim>\<open>webservice/worker_test.c\<close>: manual tests, whose thread functions and hooks work on
    statics of their own; a thread of the model runs \<open>worker_loop\<close>, the only function the service starts.
  \<^item> Log output, the text of the usage message, \<^verbatim>\<open>logger.h\<close>, \<^verbatim>\<open>libs.h\<close>, the Makefiles, the patch of http\_parser.
  \<^item> libevent's loop itself: which events it delivers is what \<open>deliverable\<close> says. Lookups still pending when a worker's resolver is released
    are dropped with it, without a last callback.
  \<^item> Unaligned or partial reads of structs, and the memory order of the atomic operations, which the program does not call.
\<close>

end
